(* ===== verification/Prelude.thy ===== *)
theory Prelude
  imports "HOL-Library.Word" "HOL-Library.Monad_Syntax"
begin

text \<open>
  Types, error codes and pointer tests shared by every component: the typedefs of
  \<^verbatim>\<open>include/common/basic_types.h\<close>, the error codes and error pointers of
  \<^verbatim>\<open>include/common/error_types.h\<close>, \<^verbatim>\<open>isValid\<close> and the alignment macros of
  \<^verbatim>\<open>include/common/generic.h\<close>, and the generic lemmas on words, lists and the option
  monad that the component theories use.

  The target is 32-bit ARM: \<^verbatim>\<open>kuint32_t\<close>, \<^verbatim>\<open>kusize_t\<close>, \<^verbatim>\<open>kuaddr_t\<close> and
  \<^verbatim>\<open>kutype_t\<close> are all 32 bits wide and wrap around. A computation in \<^typ>\<open>'a option\<close>
  is \<open>None\<close> where the C code has no defined result: a null dereference, an array access
  out of range, or a loop that does not end.
\<close>

unbundle bit_operations_syntax

type_synonym u8 = "8 word"
type_synonym u16 = "16 word"
type_synonym u32 = "32 word"
type_synonym u64 = "64 word"

named_theorems er_code \<open>definitions of the error codes\<close>

definition ER_NORMAL :: int where [er_code]: "ER_NORMAL = 0"
definition ER_ERROR :: int where [er_code]: "ER_ERROR = 1"
definition ER_NOMEM :: int where [er_code]: "ER_NOMEM = 4"
definition ER_UNVALID :: int where [er_code]: "ER_UNVALID = 5"
definition ER_EMPTY :: int where [er_code]: "ER_EMPTY = 6"
definition ER_FULL :: int where [er_code]: "ER_FULL = 7"
definition ER_FAULT :: int where [er_code]: "ER_FAULT = 10"
definition ER_MORE :: int where [er_code]: "ER_MORE = 11"
definition ER_LACK :: int where [er_code]: "ER_LACK = 12"
definition ER_NOTALIGN :: int where [er_code]: "ER_NOTALIGN = 13"
definition ER_EXISTED :: int where [er_code]: "ER_EXISTED = 14"
definition ER_NOTFOUND :: int where [er_code]: "ER_NOTFOUND = 15"
definition ER_LOCKED :: int where [er_code]: "ER_LOCKED = 17"
definition ER_FORBID :: int where [er_code]: "ER_FORBID = 18"
definition ER_FAILD :: int where [er_code]: "ER_FAILD = 22"
definition ER_BUSY :: int where [er_code]: "ER_BUSY = 25"

definition IS_ERR :: "u32 \<Rightarrow> bool" where
  "IS_ERR p \<longleftrightarrow> p \<ge> - (push_bit 10 4)"

definition ERR_PTR :: "int \<Rightarrow> u32" where
  "ERR_PTR code = word_of_int code"

definition PTR_ERR :: "u32 \<Rightarrow> int" where
  "PTR_ERR p = (if p \<noteq> 0 then sint p else - ER_NOMEM)"

definition isValid :: "u32 \<Rightarrow> bool" where
  "isValid p \<longleftrightarrow> p \<noteq> 0 \<and> \<not> IS_ERR p"

definition mrt_align :: "u32 \<Rightarrow> u32 \<Rightarrow> u32" where
  "mrt_align x m = (x + (m - 1)) AND NOT (m - 1)"

definition mrt_num_align8 :: "u32 \<Rightarrow> u32" where
  "mrt_num_align8 x = mrt_align x 8"

lemma IS_ERR_iff: "IS_ERR p \<longleftrightarrow> 4294963200 \<le> unat p"
  by (simp add: IS_ERR_def word_le_nat_alt)

lemma isValid_iff: "isValid p \<longleftrightarrow> 0 < unat p \<and> unat p < 4294963200"
  by (auto simp: isValid_def IS_ERR_iff unat_gt_0)

lemma isValid_0 [simp]: "\<not> isValid 0"
  by (simp add: isValid_def)

subsection \<open>Unsigned 32-bit arithmetic without wrap-around\<close>

lemma u32_less: "unat (w :: u32) < 4294967296"
  using unsigned_less[of w] by simp

lemma u32_add: "unat x + unat y < 4294967296 \<Longrightarrow> unat (x + y :: u32) = unat x + unat y"
  by (simp add: unat_plus_if')

lemma u32_sub: "unat y \<le> unat x \<Longrightarrow> unat (x - y :: u32) = unat x - unat y"
  by (simp add: unat_sub_if')

lemma u32_eq_iff: "(x :: u32) = y \<longleftrightarrow> unat x = unat y"
  by (simp add: word_unat_eq_iff)

lemma u32_of_nat: "n < 4294967296 \<Longrightarrow> unat (word_of_nat n :: u32) = n"
  by (simp add: unsigned_of_nat take_bit_nat_eq_self)

lemma u32_uint: "0 \<le> uint (w :: u32)" "uint (w :: u32) < 4294967296"
  using uint_lt2p[of w] by simp_all

lemma bit_31_iff:
  assumes "0 \<le> k" and "k < 4294967296"
  shows "bit (k :: int) 31 \<longleftrightarrow> 2147483648 \<le> k"
proof (cases "2147483648 \<le> k")
  case True
  then have "k div 2147483648 = 1" using assms by (intro int_div_pos_eq[where r = "k - 2147483648"]) auto
  then show ?thesis using True by (simp add: bit_int_def)
next
  case False
  then have "k div 2147483648 = 0" using assms by simp
  then show ?thesis using False by (simp add: bit_int_def)
qed

lemma u32_sint: "sint (w :: u32) = (if uint w < 2147483648 then uint w else uint w - 4294967296)"
proof -
  have "sint w = take_bit 32 (uint w) - 4294967296 * of_bool (bit (uint w) 31)"
    by (simp add: sint_uint signed_take_bit_eq_take_bit_minus)
  moreover have "take_bit 32 (uint w) = uint w" using u32_uint[of w] by (simp add: take_bit_int_eq_self)
  ultimately show ?thesis using bit_31_iff[OF u32_uint] by simp
qed

lemma and_minus_8: "(w :: u32) AND - 8 = push_bit 3 (drop_bit 3 w)"
proof -
  have m: "(- 8 :: u32) = NOT (mask 3)" by (simp add: mask_eq_exp_minus_1)
  show ?thesis unfolding m by (rule bit_word_eqI) (auto simp: bit_simps)
qed

lemma unat_and_minus_8: "unat ((w :: u32) AND - 8) = unat w div 8 * 8"
proof -
  have "unat (push_bit 3 (drop_bit 3 w)) = take_bit 32 (push_bit 3 (drop_bit 3 (unat w)))"
    by (simp add: unsigned_push_bit_eq unat_drop_bit_eq)
  also have "\<dots> = (unat w div 8 * 8) mod 2 ^ 32"
    by (simp add: take_bit_eq_mod push_bit_eq_mult drop_bit_eq_div)
  also have "\<dots> = unat w div 8 * 8"
    using u32_less[of w] by (simp add: le_less_trans[OF div_times_less_eq_dividend])
  finally show ?thesis by (simp add: and_minus_8)
qed

lemma unat_align8:
  "unat x + 7 < 4294967296 \<Longrightarrow> unat (mrt_num_align8 x) = (unat x + 7) div 8 * 8"
  by (simp add: mrt_num_align8_def mrt_align_def unat_and_minus_8 u32_add)

lemma align8_bounds:
  assumes "unat x + 7 < 4294967296"
  shows "unat x \<le> unat (mrt_num_align8 x)" and "unat (mrt_num_align8 x) \<le> unat x + 7"
    and "8 dvd unat (mrt_num_align8 x)"
  using assms by (auto simp: unat_align8) 

lemma align8_wraps: "mrt_num_align8 0xFFFFFFFF = 0" "mrt_num_align8 0 = 0"
  unfolding mrt_num_align8_def mrt_align_def by code_simp+

end
