(* ===== verification/List_Head.thy ===== *)
theory List_Head
  imports Prelude
begin

text \<open>
  The intrusive doubly linked circular lists of \<^verbatim>\<open>include/common/list_types.h\<close>.
  A store maps the address of every \<^verbatim>\<open>struct list_head\<close> to its two pointers, and each
  inline function is the sequence of pointer assignments of the source. The address type
  is a parameter: a client gives its own datatype of list heads and member links.
\<close>

record 'a list_head =
  sprt_prev :: 'a
  sprt_next :: 'a

type_synonym 'a lheap = "'a \<Rightarrow> 'a list_head"

definition set_next :: "'a lheap \<Rightarrow> 'a \<Rightarrow> 'a \<Rightarrow> 'a lheap" where
  "set_next h p v = h(p := (h p)\<lparr>sprt_next := v\<rparr>)"

definition set_prev :: "'a lheap \<Rightarrow> 'a \<Rightarrow> 'a \<Rightarrow> 'a lheap" where
  "set_prev h p v = h(p := (h p)\<lparr>sprt_prev := v\<rparr>)"

definition init_list_head :: "'a lheap \<Rightarrow> 'a \<Rightarrow> 'a lheap" where
  "init_list_head h l = set_prev (set_next h l l) l l"

definition mrt_list_head_empty :: "'a lheap \<Rightarrow> 'a \<Rightarrow> bool" where
  "mrt_list_head_empty h l \<longleftrightarrow> sprt_prev (h l) = l \<and> sprt_next (h l) = l"

definition mrt_list_head_until :: "'a lheap \<Rightarrow> 'a \<Rightarrow> 'a \<Rightarrow> bool" where
  "mrt_list_head_until h pos head \<longleftrightarrow> sprt_next (h pos) = head"

text \<open>
  The search loops over \<^verbatim>\<open>foreach_list_next_entry\<close> and \<^verbatim>\<open>foreach_list_prev_entry\<close>:
  the first entry that satisfies the body's exit test, \<open>Some None\<close> when the loop runs
  round to the head, and \<open>None\<close> when it never does.
\<close>

partial_function (option) foreach_next_from ::
  "'a lheap \<Rightarrow> 'a \<Rightarrow> ('a \<Rightarrow> bool) \<Rightarrow> 'a \<Rightarrow> 'a option option" where
  "foreach_next_from h head P pos =
     (if pos = head then Some None
      else if P pos then Some (Some pos)
      else foreach_next_from h head P (sprt_next (h pos)))"

definition foreach_list_next_entry ::
  "'a lheap \<Rightarrow> 'a \<Rightarrow> ('a \<Rightarrow> bool) \<Rightarrow> 'a option option" where
  "foreach_list_next_entry h head P = foreach_next_from h head P (sprt_next (h head))"

partial_function (option) foreach_prev_from ::
  "'a lheap \<Rightarrow> 'a \<Rightarrow> ('a \<Rightarrow> bool) \<Rightarrow> 'a \<Rightarrow> 'a option option" where
  "foreach_prev_from h head P pos =
     (if pos = head then Some None
      else if P pos then Some (Some pos)
      else foreach_prev_from h head P (sprt_prev (h pos)))"

definition foreach_list_prev_entry ::
  "'a lheap \<Rightarrow> 'a \<Rightarrow> ('a \<Rightarrow> bool) \<Rightarrow> 'a option option" where
  "foreach_list_prev_entry h head P = foreach_prev_from h head P (sprt_prev (h head))"

partial_function (option) foreach_list_head_from ::
  "'a lheap \<Rightarrow> 'a \<Rightarrow> 'a \<Rightarrow> 'a \<Rightarrow> 'a \<Rightarrow> int option" where
  "foreach_list_head_from h head l left right =
     (if right \<noteq> head \<and> left \<noteq> head then
        (if left = l \<or> right = l then Some ER_NORMAL
         else if left = right then Some (- ER_ERROR)
         else foreach_list_head_from h head l (sprt_prev (h left)) (sprt_next (h right)))
      else Some (- ER_ERROR))"

definition list_head_for_each :: "'a lheap \<Rightarrow> 'a \<Rightarrow> 'a \<Rightarrow> int option" where
  "list_head_for_each h head l =
     foreach_list_head_from h head l (sprt_prev (h head)) (sprt_next (h head))"

definition list_head_add_head :: "'a lheap \<Rightarrow> 'a \<Rightarrow> 'a \<Rightarrow> 'a lheap" where
  "list_head_add_head h head l =
     (let ptr_next = sprt_next (h head);
          h1 = set_prev h l head;
          h2 = set_next h1 head l;
          h3 = set_next h2 l ptr_next
      in set_prev h3 ptr_next l)"

definition list_head_add_tail :: "'a lheap \<Rightarrow> 'a \<Rightarrow> 'a \<Rightarrow> 'a lheap" where
  "list_head_add_tail h head l =
     (let ptr_prev = sprt_prev (h head);
          h1 = set_prev h l ptr_prev;
          h2 = set_next h1 ptr_prev l;
          h3 = set_next h2 l head
      in set_prev h3 head l)"

definition list_head_del_head :: "'a lheap \<Rightarrow> 'a \<Rightarrow> 'a lheap" where
  "list_head_del_head h head =
     (let ptr_next = sprt_next (h (sprt_next (h head)))
      in set_prev (set_next h head ptr_next) ptr_next head)"

definition list_head_del_tail :: "'a lheap \<Rightarrow> 'a \<Rightarrow> 'a lheap" where
  "list_head_del_tail h head =
     (let ptr_prev = sprt_prev (h (sprt_prev (h head)))
      in set_next (set_prev h head ptr_prev) ptr_prev head)"

definition list_head_del :: "'a lheap \<Rightarrow> 'a \<Rightarrow> 'a lheap" where
  "list_head_del h l =
     (let ptr_prev = sprt_prev (h l); ptr_next = sprt_next (h l);
          h1 = set_next h ptr_prev ptr_next;
          h2 = set_prev h1 ptr_next ptr_prev
      in init_list_head h2 l)"

definition list_head_del_safe :: "'a lheap \<Rightarrow> 'a \<Rightarrow> 'a \<Rightarrow> 'a lheap option" where
  "list_head_del_safe h head l =
     do {
       r \<leftarrow> list_head_for_each h head l;
       Some (if r = 0 then
               (let ptr_prev = sprt_prev (h l); ptr_next = sprt_next (h l);
                    h1 = set_next h ptr_prev ptr_next;
                    h2 = set_prev h1 ptr_next ptr_prev
                in init_list_head h2 l)
             else h)
     }"

subsection \<open>Rings: the lists a store represents\<close>

text \<open>
  \<open>dpath h a xs b\<close>: the forward and backward pointers lead from \<open>a\<close> through \<open>xs\<close> to
  \<open>b\<close> and back. \<open>ring h r xs\<close>: the list with head \<open>r\<close> has the members \<open>xs\<close>.
\<close>

fun dpath :: "'a lheap \<Rightarrow> 'a \<Rightarrow> 'a list \<Rightarrow> 'a \<Rightarrow> bool" where
  "dpath h a [] b \<longleftrightarrow> sprt_next (h a) = b \<and> sprt_prev (h b) = a"
| "dpath h a (x # xs) b \<longleftrightarrow> sprt_next (h a) = x \<and> sprt_prev (h x) = a \<and> dpath h x xs b"

definition ring :: "'a lheap \<Rightarrow> 'a \<Rightarrow> 'a list \<Rightarrow> bool" where
  "ring h r xs \<longleftrightarrow> dpath h r xs r \<and> distinct (r # xs)"

lemma dpath_append:
  "dpath h a (xs @ y # ys) b \<longleftrightarrow> dpath h a xs y \<and> dpath h y ys b"
  by (induction xs arbitrary: a) auto

lemma dpath_cong:
  assumes "\<And>p. p \<in> insert a (set xs) \<Longrightarrow> sprt_next (h' p) = sprt_next (h p)"
    and "\<And>p. p \<in> insert b (set xs) \<Longrightarrow> sprt_prev (h' p) = sprt_prev (h p)"
  shows "dpath h' a xs b = dpath h a xs b"
  using assms by (induction xs arbitrary: a) auto

lemma ring_rotate: "ring h r (xs @ p # ys) \<longleftrightarrow> ring h p (ys @ r # xs)"
  by (auto simp: ring_def dpath_append)

lemma ring_frame:
  assumes "ring h r xs" and "\<And>p. p \<in> insert r (set xs) \<Longrightarrow> h' p = h p"
  shows "ring h' r xs"
  using assms dpath_cong[of r xs h' h r] by (auto simp: ring_def)

lemma ring_Nil_iff: "ring h r [] \<longleftrightarrow> mrt_list_head_empty h r"
  by (auto simp: ring_def mrt_list_head_empty_def)


lemma ring_unique: "ring h r xs \<Longrightarrow> ring h r ys \<Longrightarrow> xs = ys"
proof -
  have "dpath h a xs r \<Longrightarrow> dpath h a ys r \<Longrightarrow> r \<notin> set xs \<Longrightarrow> r \<notin> set ys \<Longrightarrow> xs = ys" for a
  proof (induction xs arbitrary: a ys)
    case Nil
    then show ?case by (cases ys) auto
  next
    case (Cons x xs)
    then show ?case by (cases ys) auto
  qed
  then show "ring h r xs \<Longrightarrow> ring h r ys \<Longrightarrow> xs = ys"
    by (auto simp: ring_def)
qed

lemma dpath_last: "dpath h a xs b \<Longrightarrow> sprt_prev (h b) = last (a # xs)"
  by (induction xs arbitrary: a) auto

lemma dpath_first: "dpath h a xs b \<Longrightarrow> sprt_next (h a) = List.hd (xs @ [b])"
  by (cases xs) auto

lemma ring_empty_iff: "ring h r xs \<Longrightarrow> mrt_list_head_empty h r \<longleftrightarrow> xs = []"
  by (cases xs) (auto simp: ring_def mrt_list_head_empty_def)

lemma ring_first: "ring h r (x # xs) \<Longrightarrow> sprt_next (h r) = x"
  by (simp add: ring_def)

lemma ring_distinct: "ring h r xs \<Longrightarrow> distinct (r # xs)"
  by (simp add: ring_def)

lemma init_list_head_ring: "ring (init_list_head h r) r []"
  by (simp add: ring_Nil_iff mrt_list_head_empty_def init_list_head_def set_next_def set_prev_def)

lemma init_list_head_other: "q \<noteq> r \<Longrightarrow> init_list_head h r q = h q"
  by (simp add: init_list_head_def set_next_def set_prev_def)

lemma add_head_ring:
  assumes "ring h r xs" and "x \<notin> insert r (set xs)"
  shows "ring (list_head_add_head h r x) r (x # xs)"
proof (cases xs)
  case Nil
  then show ?thesis using assms
    by (auto simp: ring_def list_head_add_head_def Let_def set_next_def set_prev_def)
next
  case (Cons y ys)
  let ?h = "list_head_add_head h r x"
  have "dpath h y ys r" and ne: "x \<noteq> r" "x \<noteq> y" "r \<noteq> y" "r \<notin> set ys" "y \<notin> set ys" "x \<notin> set ys"
    and nx: "sprt_next (h r) = y"
    using assms Cons by (auto simp: ring_def)
  moreover have "dpath ?h y ys r = dpath h y ys r"
    using ne nx by (intro dpath_cong) (auto simp: list_head_add_head_def Let_def set_next_def set_prev_def)
  ultimately show ?thesis using assms Cons
    by (auto simp: ring_def list_head_add_head_def Let_def set_next_def set_prev_def)
qed

lemma add_head_at:
  assumes "ring h r (xs @ p # ys)" and "x \<notin> insert r (set (xs @ p # ys))"
  shows "ring (list_head_add_head h p x) r (xs @ p # x # ys)"
proof -
  have "ring h p (ys @ r # xs)" using assms(1) by (simp add: ring_rotate)
  then have "ring (list_head_add_head h p x) p (x # ys @ r # xs)"
    by (rule add_head_ring) (use assms(2) in auto)
  then show ?thesis by (subst ring_rotate) simp
qed

lemma add_tail_eq_add_head: "ring h r xs \<Longrightarrow> p \<in> insert r (set xs) \<Longrightarrow> x \<notin> insert r (set xs)
  \<Longrightarrow> list_head_add_tail h p x = list_head_add_head h (sprt_prev (h p)) x"
proof -
  assume *: "ring h r xs" "p \<in> insert r (set xs)" "x \<notin> insert r (set xs)"
  have "sprt_next (h (sprt_prev (h p))) = p \<and> sprt_prev (h p) \<in> insert r (set xs)"
  proof (cases "p = r")
    case True
    show ?thesis
    proof (cases xs rule: rev_cases)
      case Nil
      then show ?thesis using * True by (auto simp: ring_def)
    next
      case (snoc ys y)
      then show ?thesis using * True by (auto simp: ring_def dpath_append)
    qed
  next
    case False
    then obtain as bs where xs: "xs = as @ p # bs" using * by (auto dest: split_list)
    then have "dpath h r as p" using * by (simp add: ring_def dpath_append)
    then show ?thesis
      by (cases as rule: rev_cases) (auto simp: xs dpath_append)
  qed
  then show ?thesis using *
    by (intro ext) (auto simp: list_head_add_tail_def list_head_add_head_def Let_def set_next_def set_prev_def)
qed

lemma add_tail_ring:
  assumes "ring h r xs" and "x \<notin> insert r (set xs)"
  shows "ring (list_head_add_tail h r x) r (xs @ [x])"
proof (cases xs rule: rev_cases)
  case Nil
  then show ?thesis
    using assms add_head_ring[of h r xs x] add_tail_eq_add_head[of h r xs r x] by (auto simp: ring_def)
next
  case (snoc ys y)
  then have "sprt_prev (h r) = y" using assms by (auto simp: ring_def dpath_append)
  then show ?thesis
    using add_head_at[of h r ys y "[]" x] add_tail_eq_add_head[of h r xs r x] assms snoc by auto
qed

lemma add_tail_at:
  assumes "ring h r (xs @ p # ys)" and "x \<notin> insert r (set (xs @ p # ys))"
  shows "ring (list_head_add_tail h p x) r (xs @ x # p # ys)"
proof -
  have "ring h p (ys @ r # xs)" using assms(1) by (simp add: ring_rotate)
  then have "ring (list_head_add_tail h p x) p ((ys @ r # xs) @ [x])"
    by (rule add_tail_ring) (use assms(2) in auto)
  then have "ring (list_head_add_tail h p x) r ((xs @ [x]) @ p # ys)"
    by (subst ring_rotate) simp
  then show ?thesis by simp
qed

lemma ring_next_in: "ring h r xs \<Longrightarrow> p \<in> insert r (set xs) \<Longrightarrow> sprt_next (h p) \<in> insert r (set xs)"
proof -
  assume *: "ring h r xs" "p \<in> insert r (set xs)"
  show ?thesis
  proof (cases "p = r")
    case True then show ?thesis using * by (cases xs) (auto simp: ring_def)
  next
    case False
    then obtain as bs where "xs = as @ p # bs" using * by (auto dest: split_list)
    then show ?thesis using * by (cases bs) (auto simp: ring_def dpath_append)
  qed
qed

lemma ring_prev_in: "ring h r xs \<Longrightarrow> p \<in> insert r (set xs) \<Longrightarrow> sprt_prev (h p) \<in> insert r (set xs)"
proof -
  assume *: "ring h r xs" "p \<in> insert r (set xs)"
  show ?thesis
  proof (cases "p = r")
    case True then show ?thesis using * by (cases xs rule: rev_cases) (auto simp: ring_def dpath_append)
  next
    case False
    then obtain as bs where "xs = as @ p # bs" using * by (auto dest: split_list)
    then show ?thesis using *
      by (cases as rule: rev_cases) (auto simp: ring_def dpath_append)
  qed
qed

lemma add_head_other:
  assumes "ring h r xs" and "p \<in> insert r (set xs)" and "q \<notin> insert x (insert r (set xs))"
  shows "list_head_add_head h p x q = h q"
  using assms ring_next_in[OF assms(1,2)]
  by (auto simp: list_head_add_head_def Let_def set_next_def set_prev_def)

lemma add_tail_other:
  assumes "ring h r xs" and "p \<in> insert r (set xs)" and "q \<notin> insert x (insert r (set xs))"
  shows "list_head_add_tail h p x q = h q"
  using assms ring_prev_in[OF assms(1,2)]
  by (auto simp: list_head_add_tail_def Let_def set_next_def set_prev_def)

lemma del_other:
  assumes "ring h r xs" and "p \<in> insert r (set xs)" and "q \<notin> insert r (set xs)"
  shows "list_head_del h p q = h q"
  using assms ring_prev_in[OF assms(1,2)] ring_next_in[OF assms(1,2)]
  by (auto simp: list_head_del_def Let_def set_next_def set_prev_def init_list_head_def)

lemma del_ring_self: "ring h r xs \<Longrightarrow> ring (list_head_del h x) x []"
  by (simp add: ring_Nil_iff mrt_list_head_empty_def list_head_del_def Let_def init_list_head_def
      set_next_def set_prev_def)

lemma del_ring_first:
  assumes "ring h r (x # xs)"
  shows "ring (list_head_del h x) r xs"
proof (cases xs)
  case Nil
  then show ?thesis using assms
    by (auto simp: ring_def list_head_del_def Let_def init_list_head_def set_next_def set_prev_def)
next
  case (Cons y ys)
  let ?h = "list_head_del h x"
  have "dpath h y ys r" and ne: "x \<noteq> r" "x \<noteq> y" "r \<noteq> y" "r \<notin> set ys" "y \<notin> set ys" "x \<notin> set ys"
    and nx: "sprt_next (h r) = x" "sprt_next (h x) = y" "sprt_prev (h x) = r"
    using assms Cons by (auto simp: ring_def)
  moreover have "dpath ?h y ys r = dpath h y ys r"
    using ne nx by (intro dpath_cong)
      (auto simp: list_head_del_def Let_def init_list_head_def set_next_def set_prev_def)
  ultimately show ?thesis using assms Cons
    by (auto simp: ring_def list_head_del_def Let_def init_list_head_def set_next_def set_prev_def)
qed

lemma del_ring_at:
  assumes "ring h r (xs @ x # ys)"
  shows "ring (list_head_del h x) r (xs @ ys)"
proof (cases xs rule: rev_cases)
  case Nil
  then show ?thesis using assms del_ring_first by fastforce
next
  case (snoc zs z)
  then have "ring h z (x # ys @ r # zs)" using assms ring_rotate[of h r zs z "x # ys"] by simp
  then have "ring (list_head_del h x) z (ys @ r # zs)" by (rule del_ring_first)
  then have "ring (list_head_del h x) r (zs @ z # ys)" by (subst ring_rotate) simp
  then show ?thesis by (simp add: snoc)
qed

lemma del_ring:
  assumes "ring h r xs" and "x \<in> set xs"
  shows "ring (list_head_del h x) r (remove1 x xs)"
proof -
  obtain as bs where xs: "xs = as @ x # bs" using assms(2) by (auto dest: split_list)
  moreover have "x \<notin> set as" using ring_distinct[OF assms(1)] xs by auto
  ultimately show ?thesis using del_ring_at[of h r as x bs] assms(1) by (simp add: remove1_append)
qed

lemma del_head_ring: "ring h r (x # xs) \<Longrightarrow> ring (list_head_del_head h r) r xs"
proof -
  assume *: "ring h r (x # xs)"
  have "ring (list_head_del h x) r xs" using * by (rule del_ring_first)
  moreover have "list_head_del_head h r p = list_head_del h x p" if "p \<in> insert r (set xs)" for p
    using * that ring_next_in[OF *, of x]
    by (auto simp: list_head_del_head_def list_head_del_def Let_def init_list_head_def
        set_next_def set_prev_def ring_def)
  ultimately show ?thesis by (rule ring_frame)
qed

lemma del_tail_ring: "ring h r (xs @ [x]) \<Longrightarrow> ring (list_head_del_tail h r) r xs"
proof -
  assume *: "ring h r (xs @ [x])"
  have "ring (list_head_del h x) r (xs @ [])" using * by (rule del_ring_at)
  then have "ring (list_head_del h x) r xs" by simp
  moreover have "list_head_del_tail h r p = list_head_del h x p" if "p \<in> insert r (set xs)" for p
    using * that ring_prev_in[OF *, of x]
    by (auto simp: list_head_del_tail_def list_head_del_def Let_def init_list_head_def
        set_next_def set_prev_def ring_def dpath_append)
  ultimately show ?thesis by (rule ring_frame)
qed

subsection \<open>The loops of the header on a ring\<close>

lemma foreach_next_from_path:
  "dpath h a xs r \<Longrightarrow> r \<notin> set xs \<Longrightarrow> foreach_next_from h r P (sprt_next (h a)) = Some (List.find P xs)"
  by (induction xs arbitrary: a) (auto simp: foreach_next_from.simps)

lemma foreach_list_next_entry_ring:
  "ring h r xs \<Longrightarrow> foreach_list_next_entry h r P = Some (List.find P xs)"
  by (simp add: foreach_list_next_entry_def ring_def foreach_next_from_path)

lemma foreach_prev_from_path:
  "dpath h r xs b \<Longrightarrow> r \<notin> set xs \<Longrightarrow>
   foreach_prev_from h r P (sprt_prev (h b)) = Some (List.find P (rev xs))"
proof (induction xs arbitrary: b rule: rev_induct)
  case Nil
  then show ?case by (simp add: foreach_prev_from.simps)
next
  case (snoc x xs)
  then have "dpath h r xs x" "sprt_prev (h b) = x" "x \<noteq> r" by (auto simp: dpath_append)
  then show ?case using snoc by (simp add: foreach_prev_from.simps)
qed

lemma foreach_list_prev_entry_ring:
  "ring h r xs \<Longrightarrow> foreach_list_prev_entry h r P = Some (List.find P (rev xs))"
  by (simp add: foreach_list_prev_entry_def ring_def foreach_prev_from_path)

lemma dpath_nth:
  assumes "dpath h a xs b" and "i \<le> length xs"
  shows "sprt_next (h ((a # xs) ! i)) = (xs @ [b]) ! i"
    and "sprt_prev (h ((xs @ [b]) ! i)) = (a # xs) ! i"
  using assms by (induction xs arbitrary: a i) (auto simp: nth_Cons split: nat.splits)

lemma two_way_scan:
  assumes r: "ring h r xs" and i: "i \<le> length xs"
    and seen: "\<And>j. j < i \<Longrightarrow> xs ! j \<noteq> l \<and> xs ! (length xs - 1 - j) \<noteq> l"
  shows "foreach_list_head_from h r l ((r # xs) ! (length xs - i)) ((xs @ [r]) ! i) =
         Some (if l \<in> set xs then ER_NORMAL else - ER_ERROR)"
  using i seen
proof (induction "length xs - i" arbitrary: i)
  case 0
  then have "i = length xs" by simp
  then have "l \<notin> set xs" using 0 by (auto simp: in_set_conv_nth)
  then show ?case using \<open>i = length xs\<close> by (simp add: foreach_list_head_from.simps)
next
  case (Suc k)
  let ?n = "length xs"
  have i: "i < ?n" using Suc.hyps(2) by simp
  have d: "dpath h r xs r" "distinct (r # xs)" using r by (auto simp: ring_def)
  have R: "(xs @ [r]) ! i = xs ! i" and L: "(r # xs) ! (?n - i) = xs ! (?n - 1 - i)"
    using i by (simp_all add: nth_append nth_Cons' Suc_diff_Suc)
  have ne: "xs ! i \<noteq> r" "xs ! (?n - 1 - i) \<noteq> r" using d(2) i by (auto simp: in_set_conv_nth)
  have nR: "sprt_next (h (xs ! i)) = (xs @ [r]) ! Suc i"
    using dpath_nth(1)[OF d(1), of "Suc i"] i by simp
  have nL: "sprt_prev (h (xs ! (?n - 1 - i))) = (r # xs) ! (?n - Suc i)"
    using dpath_nth(2)[OF d(1), of "?n - 1 - i"] i by (auto simp: nth_append split: if_splits)
  show ?case
  proof (cases "xs ! (?n - 1 - i) = l \<or> xs ! i = l")
    case True
    then have "l \<in> set xs" using i by auto
    then show ?thesis using True ne by (subst foreach_list_head_from.simps) (simp add: R L)
  next
    case False
    have seen': "\<And>j. j < Suc i \<Longrightarrow> xs ! j \<noteq> l \<and> xs ! (?n - 1 - j) \<noteq> l"
      using Suc.prems(2) False by (auto simp: less_Suc_eq)
    show ?thesis
    proof (cases "xs ! (?n - 1 - i) = xs ! i")
      case True
      then have "?n - 1 - i = i" using d(2) i by (auto simp: nth_eq_iff_index_eq)
      then have "l \<noteq> xs ! k'" if "k' < ?n" for k'
      proof -
        assume eq: "?n - 1 - i = i"
        have "k' < Suc i \<or> (\<exists>j<Suc i. k' = ?n - 1 - j)"
          using that eq by (cases "k' < Suc i") (auto intro!: exI[of _ "?n - 1 - k'"])
        then show ?thesis using seen' by fastforce
      qed
      then have "l \<notin> set xs" by (auto simp: in_set_conv_nth)
      then show ?thesis using True False ne by (subst foreach_list_head_from.simps) (simp add: R L)
    next
      case neq: False
      have "foreach_list_head_from h r l ((r # xs) ! (?n - Suc i)) ((xs @ [r]) ! Suc i) =
            Some (if l \<in> set xs then ER_NORMAL else - ER_ERROR)"
        using Suc.hyps(2) i seen' by (intro Suc.hyps(1)) auto
      then show ?thesis using neq False ne nR nL
        by (subst foreach_list_head_from.simps) (simp add: R L)
    qed
  qed
qed

lemma list_head_for_each_ring:
  assumes "ring h r xs"
  shows "list_head_for_each h r l = Some (if l \<in> set xs then ER_NORMAL else - ER_ERROR)"
proof -
  have "dpath h r xs r" using assms by (simp add: ring_def)
  then have "sprt_prev (h r) = (r # xs) ! length xs" "sprt_next (h r) = (xs @ [r]) ! 0"
    by (simp_all add: dpath_first dpath_last last_conv_nth hd_conv_nth)
  then show ?thesis using two_way_scan[OF assms, of 0 l] by (simp add: list_head_for_each_def)
qed

lemma list_head_del_safe_ring:
  assumes "ring h r xs"
  shows "list_head_del_safe h r l = Some (if l \<in> set xs then list_head_del h l else h)"
  by (simp add: list_head_del_safe_def list_head_for_each_ring[OF assms] list_head_del_def er_code Let_def)

subsection \<open>Properties\<close>

text \<open>C7: \<^verbatim>\<open>list_head_add_tail\<close> puts a node behind the last node of a list and \<^verbatim>\<open>list_head_del\<close> of it
  restores the list; no link of another node changes on the way.\<close>

theorem list_add_tail_del:
  assumes "ring h r xs" and "x \<notin> insert r (set xs)"
  shows "ring (list_head_add_tail h r x) r (xs @ [x]) \<and>
         ring (list_head_del (list_head_add_tail h r x) x) r xs \<and>
         (\<forall>q. q \<notin> insert x (insert r (set xs)) \<longrightarrow> list_head_del (list_head_add_tail h r x) x q = h q)"
proof (intro conjI allI impI)
  show a: "ring (list_head_add_tail h r x) r (xs @ [x])" using assms by (rule add_tail_ring)
  show "ring (list_head_del (list_head_add_tail h r x) x) r xs" using del_ring_at[of _ r xs x "[]"] a by simp
  fix q assume q: "q \<notin> insert x (insert r (set xs))"
  have "list_head_del (list_head_add_tail h r x) x q = list_head_add_tail h r x q"
    using q by (intro del_other[OF a]) auto
  also have "\<dots> = h q" using q by (intro add_tail_other[OF assms(1)]) auto
  finally show "list_head_del (list_head_add_tail h r x) x q = h q" .
qed

definition demo_ring :: "nat lheap" where
  "demo_ring = (\<lambda>l. \<lparr>sprt_prev = l, sprt_next = l\<rparr>)
     (0 := \<lparr>sprt_prev = 1, sprt_next = 1\<rparr>, 1 := \<lparr>sprt_prev = 0, sprt_next = 0\<rparr>)"

theorem list_add_tail_del_witness:
  "ring (list_head_add_tail demo_ring 0 2) 0 [1, 2] \<and> ring (list_head_del (list_head_add_tail demo_ring 0 2) 2) 0 [1]"
  using list_add_tail_del[of demo_ring 0 "[1]" 2] by (simp add: ring_def demo_ring_def)

end
