(* ===== verification/Mem_Manage.thy ===== *)
theory Mem_Manage
  imports List_Head
begin

text \<open>
  The data model of \<^verbatim>\<open>include/common/mem_manage.h\<close> that both allocators share: block
  headers, pool information, and the splitting and merging of blocks in the header store.
  The header store maps an address to the \<^verbatim>\<open>struct mem_block\<close> found there; the links
  \<^verbatim>\<open>sgrt_link\<close> of the headers and the heads \<^verbatim>\<open>sgrt_hash\<close> live in a separate list
  store. User data is not modelled: the theorems show that no returned region overlaps a
  header of the chain.

  The second half abstracts a chain of headers to the list of its blocks as natural
  numbers (start, length, bytes in use) and proves what carving and releasing a block do
  to such a list.
\<close>

definition MEMORY_POOL_MAGIC :: u32 where
  "MEMORY_POOL_MAGIC = 0xdfa69fe3"

definition MEM_BLOCK_HEADER_SIZE :: u32 where
  "MEM_BLOCK_HEADER_SIZE = 32"

definition NR_MEM_LowerBytes :: nat where "NR_MEM_LowerBytes = 4"
definition NR_MEM_HighBytes :: nat where "NR_MEM_HighBytes = 13"
definition NR_MEM_NUM :: nat where "NR_MEM_NUM = 14"
definition NR_MEM_LowerLimit :: u32 where "NR_MEM_LowerLimit = push_bit (NR_MEM_LowerBytes + 1) 1"
definition NR_MEM_HighLimit :: u32 where "NR_MEM_HighLimit = push_bit NR_MEM_HighBytes 1"

record mem_block =
  magic :: u32
  blk_base :: u32
  blk_lenth :: u32
  blk_remain :: u32
  blk_prev :: u32
  blk_next :: u32

type_synonym block_store = "u32 \<Rightarrow> mem_block"

text \<open>Addresses of the list links: the hash heads of a pool and the \<^verbatim>\<open>sgrt_link\<close> of a header.\<close>

datatype mem_link = LinkNull | Hash nat | Link u32

text \<open>The two pairs of functions that \<^verbatim>\<open>sprt_info->alloc\<close> and \<^verbatim>\<open>sprt_info->free\<close> point to.\<close>

datatype mem_kind = SimpleMem | BlockMem

text \<open>
  A pool: the fields of \<^verbatim>\<open>struct mem_info\<close>, the address \<open>info_ptr\<close> the operations are
  called with, and the two stores its operations read and write.
\<close>

record mem_info =
  info_ptr :: u32
  info_base :: u32
  info_lenth :: u32
  sprt_mem :: u32
  alloc_fn :: "mem_kind option"
  free_fn :: "mem_kind option"
  mblk :: block_store
  mlink :: "mem_link lheap"

definition IS_MEMORYPOOL_VALID :: "block_store \<Rightarrow> u32 \<Rightarrow> bool" where
  "IS_MEMORYPOOL_VALID m b \<longleftrightarrow> magic (m b) = MEMORY_POOL_MAGIC"

definition zero_block :: mem_block where
  "zero_block = \<lparr>magic = 0, blk_base = 0, blk_lenth = 0, blk_remain = 0, blk_prev = 0, blk_next = 0\<rparr>"

text \<open>\<^verbatim>\<open>kmemzero\<close> on the headers: those that lie wholly inside the cleared bytes read as zero.\<close>

definition kmemzero_blocks :: "block_store \<Rightarrow> u32 \<Rightarrow> u32 \<Rightarrow> block_store" where
  "kmemzero_blocks m dest sz =
     (if dest = 0 then m
      else (\<lambda>a. if dest \<le> a \<and> a < dest + sz \<and> MEM_BLOCK_HEADER_SIZE \<le> dest + sz - a
                then zero_block else m a))"

definition init_hash_heads :: "mem_link lheap \<Rightarrow> mem_link lheap" where
  "init_hash_heads l = fold (\<lambda>i h. init_list_head h (Hash i)) [0..<NR_MEM_NUM] l"

definition zero_hash_heads :: "mem_link lheap \<Rightarrow> mem_link lheap" where
  "zero_hash_heads l = fold (\<lambda>i h. h(Hash i := \<lparr>sprt_prev = LinkNull, sprt_next = LinkNull\<rparr>))
     [0..<NR_MEM_NUM] l"

text \<open>The split of a block that is in use: a new header behind its used bytes takes its remainder.\<close>

definition mem_split :: "block_store \<Rightarrow> u32 \<Rightarrow> u32 \<Rightarrow> block_store" where
  "mem_split m sprt_block lenth =
     (let blk = m sprt_block;
          offset = blk_lenth blk - blk_remain blk;
          ptr_mem = blk_base blk + offset;
          sprt_new = ptr_mem - MEM_BLOCK_HEADER_SIZE;
          m1 = m(sprt_new := \<lparr>magic = MEMORY_POOL_MAGIC, blk_base = ptr_mem,
                  blk_lenth = blk_remain blk, blk_remain = blk_remain blk - lenth,
                  blk_prev = sprt_block, blk_next = blk_next blk\<rparr>);
          m2 = m1(sprt_block := (m1 sprt_block)\<lparr>blk_lenth := offset\<rparr>);
          m3 = m2(sprt_block := (m2 sprt_block)
                 \<lparr>blk_remain := blk_remain (m2 sprt_block) - blk_lenth (m2 sprt_new)\<rparr>);
          nxt = blk_next (m3 sprt_block);
          m4 = (if nxt \<noteq> 0 then m3(nxt := (m3 nxt)\<lparr>blk_prev := sprt_new\<rparr>) else m3)
      in m4(sprt_block := (m4 sprt_block)\<lparr>blk_next := sprt_new\<rparr>))"

subsection \<open>Abstract blocks\<close>

type_synonym ablock = "nat \<times> nat \<times> nat"

text \<open>\<open>tiles a bs e\<close>: the blocks lie end to end from \<open>a\<close> to \<open>e\<close>; each has room for its header, and its
  used part (header included) is empty or at least a header, in whole 8-byte units.\<close>

fun tiles :: "nat \<Rightarrow> ablock list \<Rightarrow> nat \<Rightarrow> bool" where
  "tiles a [] e \<longleftrightarrow> a = e"
| "tiles a ((s, l, u) # bs) e \<longleftrightarrow>
     s = a \<and> 8 dvd s \<and> 32 \<le> l \<and> u \<le> l \<and> 8 dvd u \<and> (u = 0 \<or> 32 \<le> u) \<and> tiles (a + l) bs e"

definition all_used :: "ablock list \<Rightarrow> bool" where
  "all_used bs \<longleftrightarrow> (\<forall>(s, l, u) \<in> set bs. u \<noteq> 0)"

text \<open>The regions handed out: user address and size of every block in use.\<close>

definition regions :: "ablock list \<Rightarrow> (nat \<times> nat) set" where
  "regions bs = {(s + 32, u - 32) | s l u. (s, l, u) \<in> set bs \<and> u \<noteq> 0}"

fun carve :: "nat \<Rightarrow> nat \<Rightarrow> ablock list \<Rightarrow> ablock list" where
  "carve x n [] = []"
| "carve x n ((s, l, u) # bs) =
     (if s = x then (if u = 0 then (s, l, n) # bs else (s, u, u) # (s + u, l - u, n) # bs)
      else (s, l, u) # carve x n bs)"

fun merge_into :: "ablock \<Rightarrow> nat \<Rightarrow> ablock list \<Rightarrow> ablock list" where
  "merge_into b x [] = [b]"
| "merge_into (s, l, u) x ((s', l', u') # bs) =
     (if s' = x then (s, l + l', u) # bs else (s, l, u) # merge_into (s', l', u') x bs)"

fun release :: "nat \<Rightarrow> ablock list \<Rightarrow> ablock list" where
  "release x [] = []"
| "release x ((s, l, u) # bs) = (if s = x then (s, l, 0) # bs else merge_into (s, l, u) x bs)"

definition disjoint_regions :: "nat \<times> nat \<Rightarrow> nat \<times> nat \<Rightarrow> bool" where
  "disjoint_regions r q \<longleftrightarrow> fst r + snd r \<le> fst q \<or> fst q + snd q \<le> fst r"

subsection \<open>Carving and releasing abstract blocks\<close>

lemma regions_Nil [simp]: "regions [] = {}"
  by (simp add: regions_def)

lemma regions_Cons [simp]:
  "regions ((s, l, u) # bs) = (if u = 0 then regions bs else insert (s + 32, u - 32) (regions bs))"
  by (auto simp: regions_def)

lemma regions_append [simp]: "regions (bs @ cs) = regions bs \<union> regions cs"
  by (induction bs) auto

lemma tiles_le: "tiles a bs e \<Longrightarrow> a \<le> e"
  by (induction a bs e rule: tiles.induct) auto

lemma tiles_bounds: "tiles a bs e \<Longrightarrow> (s, l, u) \<in> set bs \<Longrightarrow> a \<le> s \<and> s + l \<le> e"
proof (induction a bs e rule: tiles.induct)
  case (2 a s' l' u' bs e)
  then show ?case using tiles_le[of "a + l'" bs e] by auto
qed simp

lemma tiles_props: "tiles a bs e \<Longrightarrow> (s, l, u) \<in> set bs \<Longrightarrow>
    8 dvd s \<and> 32 \<le> l \<and> u \<le> l \<and> 8 dvd u \<and> (u = 0 \<or> 32 \<le> u)"
  by (induction a bs e rule: tiles.induct) auto

lemma tiles_append: "tiles a (bs @ cs) e \<longleftrightarrow> (\<exists>b. tiles a bs b \<and> tiles b cs e)"
  by (induction bs arbitrary: a) auto

lemma carve_other: "(\<forall>b\<in>set bs. fst b \<noteq> x) \<Longrightarrow> carve x n (bs @ cs) = bs @ carve x n cs"
  by (induction bs) auto

lemma merge_into_other:
  "(\<forall>b\<in>set cs. fst b \<noteq> x) \<Longrightarrow>
   merge_into b x (cs @ (x, l, u) # ds) =
     (case last (b # cs) of (s, k, v) \<Rightarrow> butlast (b # cs) @ (s, k + l, v) # ds)"
proof (induction cs arbitrary: b)
  case Nil
  then show ?case by (cases b) simp
next
  case (Cons c cs)
  then show ?case by (cases b; cases c) (auto split: prod.splits)
qed

lemma tiles_distinct:
  assumes "tiles a (bs @ (x, l, u) # cs) e"
  shows "\<forall>b\<in>set bs. fst b + 32 \<le> x" and "\<forall>b\<in>set cs. x + l \<le> fst b"
proof -
  obtain c where c: "tiles a bs c" "c = x" "tiles (c + l) cs e"
    using assms by (auto simp: tiles_append)
  show "\<forall>b\<in>set bs. fst b + 32 \<le> x"
    using tiles_bounds[OF c(1)] tiles_props[OF c(1)] c(2) by fastforce
  show "\<forall>b\<in>set cs. x + l \<le> fst b"
    using tiles_bounds[OF c(3)] c(2) by fastforce
qed

lemma tiles_inj:
  assumes "tiles a bs e" and "(x, l, u) \<in> set bs" and "(x, l', u') \<in> set bs"
  shows "l' = l \<and> u' = u"
proof -
  obtain as cs where bs: "bs = as @ (x, l, u) # cs" using assms(2) by (auto dest: split_list)
  have "32 \<le> l" using tiles_props[OF assms(1,2)] by simp
  then show ?thesis using tiles_distinct[of a as x l u cs e] assms(1,3) bs by fastforce
qed

lemma carve_at:
  assumes "tiles a (bs @ (x, l, u) # cs) e"
  shows "carve x n (bs @ (x, l, u) # cs) =
         bs @ (if u = 0 then (x, l, n) # cs else (x, u, u) # (x + u, l - u, n) # cs)"
  using tiles_distinct(1)[OF assms] by (subst carve_other) fastforce+

lemma carve_tiles:
  assumes "tiles a bs e" and "(x, l, u) \<in> set bs" and "u + n \<le> l" and "32 \<le> n" and "8 dvd n"
  shows "tiles a (carve x n bs) e"
proof -
  obtain as cs where bs: "bs = as @ (x, l, u) # cs" using assms(2) by (auto dest: split_list)
  then show ?thesis using assms carve_at[of a as x l u cs e n] by (auto simp: tiles_append)
qed

lemma carve_regions:
  assumes "tiles a bs e" and "(x, l, u) \<in> set bs" and "32 \<le> n"
  shows "regions (carve x n bs) = insert (x + u + 32, n - 32) (regions bs)"
proof -
  obtain as cs where bs: "bs = as @ (x, l, u) # cs" using assms(2) by (auto dest: split_list)
  then show ?thesis using assms carve_at[of a as x l u cs e n] by auto
qed

lemma carve_all_used:
  assumes "tiles a bs e" and "(x, l, u) \<in> set bs" and "32 \<le> n" and "all_used (tl bs)"
  shows "all_used (tl (carve x n bs))"
proof -
  obtain as cs where bs: "bs = as @ (x, l, u) # cs" using assms(2) by (auto dest: split_list)
  then show ?thesis using assms carve_at[of a as x l u cs e n]
    by (cases as) (auto simp: all_used_def)
qed

lemma regions_bounds:
  assumes "tiles a bs e" and "(p, k) \<in> regions bs"
  shows "a + 32 \<le> p \<and> p + k \<le> e"
proof -
  obtain s l u where b: "p = s + 32" "k = u - 32" "(s, l, u) \<in> set bs" "u \<noteq> 0"
    using assms(2) by (auto simp: regions_def)
  then show ?thesis using tiles_bounds[OF assms(1) b(3)] tiles_props[OF assms(1) b(3)] by auto
qed

lemma blocks_apart:
  assumes "tiles a bs e" and "(s, l, u) \<in> set bs" and "(t, k, v) \<in> set bs" and "s \<noteq> t"
  shows "s + l \<le> t \<or> t + k \<le> s"
proof -
  obtain as cs where bs: "bs = as @ (s, l, u) # cs" using assms(2) by (auto dest: split_list)
  then obtain b where b: "tiles a as b" "tiles (b + l) cs e" "b = s"
    using assms(1) by (auto simp: tiles_append)
  have "(t, k, v) \<in> set as \<or> (t, k, v) \<in> set cs" using assms(3,4) bs by auto
  then show ?thesis using tiles_bounds[OF b(1), of t k v] tiles_bounds[OF b(2), of t k v] b(3) by auto
qed

lemma regions_disjoint:
  assumes "tiles a bs e" and "r \<in> regions bs" and "q \<in> regions bs" and "r \<noteq> q"
  shows "disjoint_regions r q"
proof -
  obtain s l u where b: "r = (s + 32, u - 32)" "(s, l, u) \<in> set bs"
    using assms(2) by (auto simp: regions_def)
  obtain t k v where c: "q = (t + 32, v - 32)" "(t, k, v) \<in> set bs"
    using assms(3) by (auto simp: regions_def)
  have "s \<noteq> t" using tiles_inj[OF assms(1) b(2)] b(1) c assms(4) by auto
  then show ?thesis
    using blocks_apart[OF assms(1) b(2) c(2)] tiles_props[OF assms(1) b(2)] tiles_props[OF assms(1) c(2)]
    by (auto simp: disjoint_regions_def b c)
qed

lemma carve_region_fresh:
  assumes "tiles a bs e" and "(x, l, u) \<in> set bs" and "u + n \<le> l" and "32 \<le> n"
    and "(p, k) \<in> regions bs"
  shows "disjoint_regions (x + u + 32, n - 32) (p, k)"
proof -
  obtain s l' u' where b: "p = s + 32" "k = u' - 32" "(s, l', u') \<in> set bs" "u' \<noteq> 0"
    using assms(5) by (auto simp: regions_def)
  show ?thesis
  proof (cases "s = x")
    case True
    then have "u' = u" using tiles_inj[OF assms(1,2)] b(3) by blast
    then show ?thesis using True b tiles_props[OF assms(1,2)] by (auto simp: disjoint_regions_def)
  next
    case False
    then show ?thesis
      using blocks_apart[OF assms(1,2) b(3)] tiles_props[OF assms(1,2)] tiles_props[OF assms(1) b(3)] assms(3) b
      by (auto simp: disjoint_regions_def)
  qed
qed

lemma release_at:
  assumes "tiles a (bs @ (x, l, u) # cs) e"
  shows "release x (bs @ (x, l, u) # cs) =
         (if bs = [] then (x, l, 0) # cs
          else case last bs of (s, k, v) \<Rightarrow> butlast bs @ (s, k + l, v) # cs)"
proof (cases bs)
  case Nil
  then show ?thesis by simp
next
  case (Cons b ds)
  obtain s k v where b: "b = (s, k, v)" by (cases b)
  have "\<forall>b\<in>set bs. fst b \<noteq> x" using tiles_distinct(1)[OF assms] by auto
  then show ?thesis using merge_into_other[of ds x b l u cs] Cons b by auto
qed

lemma release_cases:
  assumes "tiles a bs e" and "(x, l, u) \<in> set bs"
  obtains (first) cs where "bs = (x, l, u) # cs" "release x bs = (x, l, 0) # cs"
  | (later) as s k v cs where "bs = as @ (s, k, v) # (x, l, u) # cs"
      "release x bs = as @ (s, k + l, v) # cs"
proof -
  obtain ds cs where bs: "bs = ds @ (x, l, u) # cs" using assms(2) by (auto dest: split_list)
  show thesis
  proof (cases ds rule: rev_cases)
    case Nil
    then show ?thesis using first bs by simp
  next
    case (snoc as b)
    obtain s k v where "b = (s, k, v)" by (cases b)
    then show ?thesis using later[of as s k v cs] release_at[of a ds x l u cs e] assms(1) bs snoc by simp
  qed
qed

lemma release_tiles:
  assumes "tiles a bs e" and "(x, l, u) \<in> set bs"
  shows "tiles a (release x bs) e"
  using assms(1,2) by (cases rule: release_cases)
    (use assms(1) in \<open>auto simp: tiles_append add.assoc\<close>)

lemma release_regions:
  assumes "tiles a bs e" and "(x, l, u) \<in> set bs"
  shows "regions (release x bs) = regions bs - {(x + 32, u - 32)}"
proof -
  have nin: "(x + 32, u - 32) \<notin> regions cs" if "tiles a (as @ (x, l, u) # cs) e" for as cs
    using tiles_distinct(2)[OF that] tiles_props[OF that, of x l u] by (fastforce simp: regions_def)
  have nin': "(x + 32, u - 32) \<notin> regions as" if "tiles a (as @ (x, l, u) # cs) e" for as cs
    using tiles_distinct(1)[OF that] by (fastforce simp: regions_def)
  from assms(1,2) show ?thesis
  proof (cases rule: release_cases)
    case (first cs)
    then show ?thesis using nin[of "[]" cs] assms(1) by auto
  next
    case (later as s k v cs)
    then show ?thesis
      using nin[of "as @ [(s, k, v)]" cs] nin'[of "as @ [(s, k, v)]" cs] assms(1) by auto
  qed
qed

lemma release_all_used:
  assumes "tiles a bs e" and "(x, l, u) \<in> set bs" and "all_used (tl bs)"
  shows "all_used (tl (release x bs))"
  using assms(1,2)
proof (cases rule: release_cases)
  case (first cs)
  then show ?thesis using assms(3) by simp
next
  case (later as s k v cs)
  then show ?thesis using assms(3) by (cases as) (auto simp: all_used_def)
qed

subsection \<open>Chains of block headers\<close>

text \<open>
  \<open>chain m q p xs q' p'\<close>: following \<^verbatim>\<open>sprt_next\<close> from \<open>p\<close> visits the headers \<open>xs\<close> and ends
  at \<open>p'\<close>, the backward pointers lead from \<open>q'\<close> back to \<open>q\<close>, and every header's base is the
  address behind it.
\<close>

fun chain :: "block_store \<Rightarrow> u32 \<Rightarrow> u32 \<Rightarrow> u32 list \<Rightarrow> u32 \<Rightarrow> u32 \<Rightarrow> bool" where
  "chain m q p [] q' p' \<longleftrightarrow> q = q' \<and> p = p'"
| "chain m q p (x # xs) q' p' \<longleftrightarrow>
     p = x \<and> blk_prev (m x) = q \<and> blk_base (m x) = x + 32 \<and>
     blk_remain (m x) \<le> blk_lenth (m x) \<and> chain m x (blk_next (m x)) xs q' p'"

definition blk_used :: "mem_block \<Rightarrow> u32" where
  "blk_used b = blk_lenth b - blk_remain b"

definition abs_block :: "block_store \<Rightarrow> u32 \<Rightarrow> ablock" where
  "abs_block m x = (unat x, unat (blk_lenth (m x)), unat (blk_used (m x)))"

definition pool_chain :: "mem_info \<Rightarrow> u32 list \<Rightarrow> bool" where
  "pool_chain p xs \<longleftrightarrow>
     xs \<noteq> [] \<and> chain (mblk p) 0 (sprt_mem p) xs (last xs) 0 \<and>
     tiles (unat (info_base p)) (map (abs_block (mblk p)) xs) (unat (info_base p) + unat (info_lenth p)) \<and>
     all_used (tl (map (abs_block (mblk p)) xs)) \<and>
     0 < unat (info_base p) \<and> unat (info_base p) + unat (info_lenth p) < 4294963200 \<and>
     isValid (info_ptr p)"

lemma chain_append:
  "chain m q p (xs @ ys) q' p' \<longleftrightarrow> (\<exists>q1 p1. chain m q p xs q1 p1 \<and> chain m q1 p1 ys q' p')"
  by (induction xs arbitrary: q p) auto

lemma chain_cong:
  "(\<And>x. x \<in> set xs \<Longrightarrow> m' x = m x) \<Longrightarrow> chain m' q p xs q' p' = chain m q p xs q' p'"
  by (induction xs arbitrary: q p) auto

lemma chain_upd_other: "y \<notin> set xs \<Longrightarrow> chain (m(y := b)) q p xs q' p' = chain m q p xs q' p'"
  by (rule chain_cong) auto

lemma abs_block_upd_other: "y \<notin> set xs \<Longrightarrow> map (abs_block (m(y := b))) xs = map (abs_block m) xs"
  by (auto simp: abs_block_def)

lemma chain_block: "chain m q p xs q' p' \<Longrightarrow> x \<in> set xs \<Longrightarrow>
    blk_base (m x) = x + 32 \<and> blk_remain (m x) \<le> blk_lenth (m x)"
  by (induction xs arbitrary: q p) auto

lemma chain_first: "chain m q p (x # xs) q' p' \<Longrightarrow> p = x"
  by simp

lemma unat_blk_used: "blk_remain b \<le> blk_lenth b \<Longrightarrow>
    unat (blk_used b) = unat (blk_lenth b) - unat (blk_remain b)"
  by (simp add: blk_used_def u32_sub word_le_nat_alt)

lemma tiles_abs_Cons [simp]: "tiles a (abs_block m x # bs) e \<longleftrightarrow>
    unat x = a \<and> 8 dvd unat x \<and> 32 \<le> unat (blk_lenth (m x)) \<and>
    unat (blk_used (m x)) \<le> unat (blk_lenth (m x)) \<and> 8 dvd unat (blk_used (m x)) \<and>
    (blk_used (m x) = 0 \<or> 32 \<le> unat (blk_used (m x))) \<and> tiles (a + unat (blk_lenth (m x))) bs e"
  by (auto simp: abs_block_def unat_eq_zero)

lemma abs_tiles_distinct: "tiles a (map (abs_block m) xs) e \<Longrightarrow> distinct xs"
proof (induction xs arbitrary: a)
  case (Cons x xs)
  then have t: "tiles (a + unat (blk_lenth (m x))) (map (abs_block m) xs) e"
    and x: "unat x = a" "32 \<le> unat (blk_lenth (m x))"
    by auto
  have "x \<notin> set xs"
  proof
    assume "x \<in> set xs"
    then have "(unat x, unat (blk_lenth (m x)), unat (blk_used (m x))) \<in> set (map (abs_block m) xs)"
      by (auto simp: abs_block_def)
    from tiles_bounds[OF t this] x show False by simp
  qed
  then show ?case using Cons.IH[OF t] by simp
qed simp

lemma abs_block_in: "x \<in> set xs \<Longrightarrow>
    (unat x, unat (blk_lenth (m x)), unat (blk_used (m x))) \<in> set (map (abs_block m) xs)"
  by (auto simp: abs_block_def)

lemma pool_block:
  assumes "pool_chain p xs" and "x \<in> set xs"
  shows "blk_base (mblk p x) = x + 32" and "blk_remain (mblk p x) \<le> blk_lenth (mblk p x)"
    and "unat (info_base p) \<le> unat x"
    and "unat x + unat (blk_lenth (mblk p x)) \<le> unat (info_base p) + unat (info_lenth p)"
    and "32 \<le> unat (blk_lenth (mblk p x))" and "8 dvd unat x" and "8 dvd unat (blk_used (mblk p x))"
    and "blk_used (mblk p x) = 0 \<or> 32 \<le> unat (blk_used (mblk p x))"
    and "isValid x"
    and "unat (blk_used (mblk p x)) \<le> unat (blk_lenth (mblk p x))"
proof -
  note t = assms(1)[unfolded pool_chain_def, THEN conjunct2, THEN conjunct2, THEN conjunct1]
  note b = tiles_bounds[OF t abs_block_in[OF assms(2)]] tiles_props[OF t abs_block_in[OF assms(2)]]
  show "blk_base (mblk p x) = x + 32" "blk_remain (mblk p x) \<le> blk_lenth (mblk p x)"
    using assms chain_block by (auto simp: pool_chain_def)
  show "unat (info_base p) \<le> unat x"
    "unat x + unat (blk_lenth (mblk p x)) \<le> unat (info_base p) + unat (info_lenth p)"
    "32 \<le> unat (blk_lenth (mblk p x))" "8 dvd unat x" "8 dvd unat (blk_used (mblk p x))"
    "blk_used (mblk p x) = 0 \<or> 32 \<le> unat (blk_used (mblk p x))"
    "unat (blk_used (mblk p x)) \<le> unat (blk_lenth (mblk p x))"
    using b by (auto simp: unat_eq_zero)
  show "isValid x" using b assms(1) by (auto simp: isValid_iff pool_chain_def)
qed

lemma pool_distinct: "pool_chain p xs \<Longrightarrow> distinct xs"
  unfolding pool_chain_def using abs_tiles_distinct by blast

lemma pool_sorted: "pool_chain p xs \<Longrightarrow> sorted_wrt (<) xs"
proof -
  have "tiles a (map (abs_block m) xs) e \<Longrightarrow> sorted_wrt (<) xs" for m a e
  proof (induction xs arbitrary: a)
    case (Cons x xs)
    then have t: "tiles (a + unat (blk_lenth (m x))) (map (abs_block m) xs) e" "unat x = a"
        "32 \<le> unat (blk_lenth (m x))" by auto
    then have "x < y" if "y \<in> set xs" for y
      using tiles_bounds[OF t(1) abs_block_in[OF that]] by (simp add: word_less_nat_alt)
    then show ?case using Cons.IH[OF t(1)] by simp
  qed simp
  then show "pool_chain p xs \<Longrightarrow> sorted_wrt (<) xs" by (auto simp: pool_chain_def)
qed

subsection \<open>Carving and merging in the header store\<close>

text \<open>Taking bytes of a block that is wholly free: only its remainder shrinks.\<close>

lemma take_in_place:
  assumes pc: "pool_chain p xs" and x: "x \<in> set xs"
    and free: "blk_used (mblk p x) = 0" and n: "n \<le> blk_remain (mblk p x)" "32 \<le> unat n" "8 dvd unat n"
    and b: "blk_lenth b = blk_lenth (mblk p x)" "blk_remain b = blk_remain (mblk p x) - n"
      "blk_base b = blk_base (mblk p x)" "blk_prev b = blk_prev (mblk p x)" "blk_next b = blk_next (mblk p x)"
  shows "pool_chain (p\<lparr>mblk := (mblk p)(x := b)\<rparr>) xs"
    and "map (abs_block ((mblk p)(x := b))) xs = carve (unat x) (unat n) (map (abs_block (mblk p)) xs)"
proof -
  let ?m = "mblk p" and ?m' = "(mblk p)(x := b)"
  obtain as cs where xs: "xs = as @ x # cs" using x by (auto dest: split_list)
  have d: "x \<notin> set as" "x \<notin> set cs" using pool_distinct[OF pc] xs by auto
  have rl: "blk_remain (?m x) = blk_lenth (?m x)" using free by (simp add: blk_used_def)
  then have u: "blk_used b = n" by (simp add: blk_used_def b)
  have le: "blk_remain b \<le> blk_lenth b"
    using n(1) by (simp add: b rl word_le_nat_alt u32_sub)
  have t: "tiles (unat (info_base p)) (map (abs_block ?m) xs) (unat (info_base p) + unat (info_lenth p))"
    and au: "all_used (tl (map (abs_block ?m) xs))" and ch: "chain ?m 0 (sprt_mem p) xs (last xs) 0"
    using pc by (auto simp: pool_chain_def)
  have ab: "abs_block ?m x = (unat x, unat (blk_lenth (?m x)), 0)" by (simp add: abs_block_def free)
  have ab': "abs_block ?m' x = (unat x, unat (blk_lenth (?m x)), unat n)"
    by (simp add: abs_block_def u b)
  have at: "carve (unat x) (unat n) (map (abs_block ?m) xs) =
      map (abs_block ?m) as @ (unat x, unat (blk_lenth (?m x)), unat n) # map (abs_block ?m) cs"
    using carve_at[of "unat (info_base p)" "map (abs_block ?m) as"
      "unat x" "unat (blk_lenth (?m x))" 0 "map (abs_block ?m) cs" _ "unat n"] t
    by (simp add: xs ab)
  then show eq: "map (abs_block ?m') xs = carve (unat x) (unat n) (map (abs_block ?m) xs)"
    using d by (simp add: xs ab' abs_block_upd_other)
  have "chain ?m' 0 (sprt_mem p) xs (last xs) 0"
    using ch d le by (auto simp: xs chain_append chain_upd_other b)
  moreover have in1: "(unat x, unat (blk_lenth (?m x)), 0) \<in> set (map (abs_block ?m) xs)"
    using abs_block_in[OF x, of ?m] free by simp
  have "unat n \<le> unat (blk_lenth (?m x))" using n(1) rl by (simp add: word_le_nat_alt)
  then have "tiles (unat (info_base p)) (map (abs_block ?m') xs) (unat (info_base p) + unat (info_lenth p))"
    unfolding eq using carve_tiles[OF t in1] n by simp
  moreover have "all_used (tl (map (abs_block ?m') xs))"
    unfolding eq using carve_all_used[OF t in1 n(2) au] .
  ultimately show "pool_chain (p\<lparr>mblk := ?m'\<rparr>) xs"
    using pc by (simp add: pool_chain_def)
qed

lemma mem_split_values:
  assumes base: "blk_base (m x) = x + 32" and new: "new = x + blk_used (m x)"
    and ne: "new \<noteq> x" "blk_next (m x) \<noteq> x" "blk_next (m x) \<noteq> new"
  shows "mem_split m x n new = \<lparr>magic = MEMORY_POOL_MAGIC, blk_base = new + 32,
           blk_lenth = blk_remain (m x), blk_remain = blk_remain (m x) - n,
           blk_prev = x, blk_next = blk_next (m x)\<rparr>"
    and "mem_split m x n x = (m x)\<lparr>blk_lenth := blk_used (m x), blk_remain := 0, blk_next := new\<rparr>"
    and "blk_next (m x) \<noteq> 0 \<Longrightarrow>
         mem_split m x n (blk_next (m x)) = (m (blk_next (m x)))\<lparr>blk_prev := new\<rparr>"
    and "y \<noteq> x \<Longrightarrow> y \<noteq> new \<Longrightarrow> y \<noteq> blk_next (m x) \<Longrightarrow> mem_split m x n y = m y"
proof -
  have p: "blk_base (m x) + (blk_lenth (m x) - blk_remain (m x)) = new + 32"
    by (simp add: base new blk_used_def)
  show "mem_split m x n new = \<lparr>magic = MEMORY_POOL_MAGIC, blk_base = new + 32,
           blk_lenth = blk_remain (m x), blk_remain = blk_remain (m x) - n,
           blk_prev = x, blk_next = blk_next (m x)\<rparr>"
    "mem_split m x n x = (m x)\<lparr>blk_lenth := blk_used (m x), blk_remain := 0, blk_next := new\<rparr>"
    "blk_next (m x) \<noteq> 0 \<Longrightarrow>
         mem_split m x n (blk_next (m x)) = (m (blk_next (m x)))\<lparr>blk_prev := new\<rparr>"
    "y \<noteq> x \<Longrightarrow> y \<noteq> new \<Longrightarrow> y \<noteq> blk_next (m x) \<Longrightarrow> mem_split m x n y = m y"
    unfolding mem_split_def Let_def p MEM_BLOCK_HEADER_SIZE_def
    using ne by (auto simp: blk_used_def)
qed

lemma pool_chain_mlink [simp]: "pool_chain (p\<lparr>mlink := l\<rparr>) xs = pool_chain p xs"
  by (simp add: pool_chain_def)

lemma pool_chain_split_list:
  assumes "pool_chain p (as @ x # cs)"
  shows "\<And>y. y \<in> set as \<Longrightarrow> unat y + 32 \<le> unat x"
    and "\<And>y. y \<in> set cs \<Longrightarrow> unat x + unat (blk_lenth (mblk p x)) \<le> unat y"
    and "blk_next (mblk p x) = (case cs of [] \<Rightarrow> 0 | c # _ \<Rightarrow> c)"
    and "blk_prev (mblk p x) = (if as = [] then 0 else last as)"
proof -
  have t: "tiles (unat (info_base p)) (map (abs_block (mblk p)) as @ (unat x, unat (blk_lenth (mblk p x)),
      unat (blk_used (mblk p x))) # map (abs_block (mblk p)) cs) (unat (info_base p) + unat (info_lenth p))"
    using assms by (simp add: pool_chain_def abs_block_def)
  show "unat y + 32 \<le> unat x" if "y \<in> set as" for y
    using tiles_distinct(1)[OF t] that by (auto simp: abs_block_def)
  show "unat x + unat (blk_lenth (mblk p x)) \<le> unat y" if "y \<in> set cs" for y
    using tiles_distinct(2)[OF t] that by (auto simp: abs_block_def)
  have ch: "chain (mblk p) 0 (sprt_mem p) (as @ x # cs) (last (as @ x # cs)) 0"
    using assms by (simp add: pool_chain_def)
  then show "blk_next (mblk p x) = (case cs of [] \<Rightarrow> 0 | c # _ \<Rightarrow> c)"
    by (cases cs) (auto simp: chain_append)
  from ch show "blk_prev (mblk p x) = (if as = [] then 0 else last as)"
    by (cases as rule: rev_cases) (auto simp: chain_append)
qed

text \<open>Taking bytes of a block that is in use: a new block takes the free remainder.\<close>

lemma split_fresh:
  assumes pc: "pool_chain p (as @ x # cs)" and used: "blk_used (mblk p x) \<noteq> 0"
    and n: "n \<le> blk_remain (mblk p x)" "32 \<le> unat n"
  shows "unat (x + blk_used (mblk p x)) = unat x + unat (blk_used (mblk p x))"
    and "x + blk_used (mblk p x) \<notin> set (as @ x # cs)"
    and "unat (blk_used (mblk p x)) + unat n \<le> unat (blk_lenth (mblk p x))"
    and "32 \<le> unat (blk_used (mblk p x))"
proof -
  let ?m = "mblk p" and ?new = "x + blk_used (mblk p x)"
  have xin: "x \<in> set (as @ x # cs)" by simp
  note pb = pool_block[OF pc xin] and sl = pool_chain_split_list[OF pc]
  show u32: "32 \<le> unat (blk_used (?m x))" using pb(8) used by simp
  show room: "unat (blk_used (?m x)) + unat n \<le> unat (blk_lenth (?m x))"
    using unat_blk_used[OF pb(2)] n(1) pb(2) by (simp add: word_le_nat_alt)
  show un: "unat ?new = unat x + unat (blk_used (?m x))"
    using pb(4) room pc by (intro u32_add) (auto simp: pool_chain_def)
  show "?new \<notin> set (as @ x # cs)"
  proof
    assume "?new \<in> set (as @ x # cs)"
    then consider "?new \<in> set as" | "?new = x" | "?new \<in> set cs" by auto
    then show False using sl(1)[of ?new] sl(2)[of ?new] un u32 room n(2) by cases auto
  qed
qed

lemma split_store:
  assumes pc: "pool_chain p (as @ x # cs)" and used: "blk_used (mblk p x) \<noteq> 0"
    and n: "n \<le> blk_remain (mblk p x)" "32 \<le> unat n"
  defines "new \<equiv> x + blk_used (mblk p x)" and "m' \<equiv> mem_split (mblk p) x n"
  shows "m' new = \<lparr>magic = MEMORY_POOL_MAGIC, blk_base = new + 32,
           blk_lenth = blk_remain (mblk p x), blk_remain = blk_remain (mblk p x) - n,
           blk_prev = x, blk_next = blk_next (mblk p x)\<rparr>"
    and "m' x = (mblk p x)\<lparr>blk_lenth := blk_used (mblk p x), blk_remain := 0, blk_next := new\<rparr>"
    and "\<And>y. y \<in> set as \<Longrightarrow> m' y = mblk p y"
    and "\<And>c ds. cs = c # ds \<Longrightarrow> m' c = (mblk p c)\<lparr>blk_prev := new\<rparr>"
    and "\<And>c ds y. cs = c # ds \<Longrightarrow> y \<in> set ds \<Longrightarrow> m' y = mblk p y"
proof -
  have xin: "x \<in> set (as @ x # cs)" by simp
  note pb = pool_block[OF pc xin] and sl = pool_chain_split_list[OF pc]
  note sf = split_fresh[OF pc used n, folded new_def]
  have d: "distinct (as @ x # cs)" using pool_distinct[OF pc] .
  have ne: "new \<noteq> x" "blk_next (mblk p x) \<noteq> x" "blk_next (mblk p x) \<noteq> new"
    using sf d sl(3) pb(9) by (auto split: list.splits)
  note v = mem_split_values[where m = "mblk p" and n = n, OF pb(1) new_def[THEN meta_eq_to_obj_eq] ne]
  show "m' new = \<lparr>magic = MEMORY_POOL_MAGIC, blk_base = new + 32,
           blk_lenth = blk_remain (mblk p x), blk_remain = blk_remain (mblk p x) - n,
           blk_prev = x, blk_next = blk_next (mblk p x)\<rparr>"
    "m' x = (mblk p x)\<lparr>blk_lenth := blk_used (mblk p x), blk_remain := 0, blk_next := new\<rparr>"
    unfolding m'_def using v(1,2) by auto
  show "m' y = mblk p y" if "y \<in> set as" for y
    unfolding m'_def using v(4)[of y] that d sf(2) sl(3) pool_block(9)[OF pc, of y]
    by (fastforce split: list.splits)
  show "m' c = (mblk p c)\<lparr>blk_prev := new\<rparr>" if "cs = c # ds" for c ds
    unfolding m'_def using v(3) sl(3) pool_block(9)[OF pc, of c] that by (auto simp: isValid_def)
  show "m' y = mblk p y" if "cs = c # ds" "y \<in> set ds" for c ds y
    unfolding m'_def using v(4)[of y] d sf(2) sl(3) that by auto
qed

lemma split_chain:
  assumes pc: "pool_chain p (as @ x # cs)" and used: "blk_used (mblk p x) \<noteq> 0"
    and n: "n \<le> blk_remain (mblk p x)" "32 \<le> unat n"
  defines "new \<equiv> x + blk_used (mblk p x)" and "m' \<equiv> mem_split (mblk p) x n"
  shows "chain m' 0 (sprt_mem p) (as @ x # new # cs) (last (as @ x # new # cs)) 0"
proof -
  note st = split_store[OF pc used n, folded new_def m'_def] and sl = pool_chain_split_list[OF pc]
  have ch: "chain (mblk p) 0 (sprt_mem p) as (if as = [] then 0 else last as) x"
      "chain (mblk p) x (blk_next (mblk p x)) cs (last (as @ x # cs)) 0"
    using pc by (auto simp: pool_chain_def chain_append sl(4) split: if_splits)
  have "chain m' 0 (sprt_mem p) as (if as = [] then 0 else last as) x"
    using ch(1) st(3) chain_cong by blast
  moreover have "chain m' new (blk_next (mblk p x)) cs (last (as @ x # new # cs)) 0"
  proof (cases cs)
    case Nil
    then show ?thesis using sl(3) by simp
  next
    case (Cons c ds)
    then show ?thesis
      using ch(2) st(4)[OF Cons] chain_cong[of ds m' "mblk p"] st(5)[OF Cons] by (auto split: if_splits)
  qed
  moreover have "blk_remain (m' new) \<le> blk_lenth (m' new)"
    using n(1) by (simp add: st(1) word_le_nat_alt u32_sub)
  ultimately show ?thesis
    using sl(4) pool_block(1)[OF pc, of x] by (auto simp: chain_append st(1,2))
qed

lemma split_abs:
  assumes pc: "pool_chain p (as @ x # cs)" and used: "blk_used (mblk p x) \<noteq> 0"
    and n: "n \<le> blk_remain (mblk p x)" "32 \<le> unat n"
  defines "new \<equiv> x + blk_used (mblk p x)" and "m' \<equiv> mem_split (mblk p) x n"
  shows "map (abs_block m') (as @ x # new # cs) =
         carve (unat x) (unat n) (map (abs_block (mblk p)) (as @ x # cs))"
proof -
  note st = split_store[OF pc used n, folded new_def m'_def] and sf = split_fresh[OF pc used n, folded new_def]
  have pb: "blk_remain (mblk p x) \<le> blk_lenth (mblk p x)" using pool_block(2)[OF pc] by simp
  have ab: "abs_block (mblk p) x = (unat x, unat (blk_lenth (mblk p x)), unat (blk_used (mblk p x)))"
    by (simp add: abs_block_def)
  have abx: "abs_block m' x = (unat x, unat (blk_used (mblk p x)), unat (blk_used (mblk p x)))"
    by (simp add: abs_block_def st(2) blk_used_def)
  have abn: "abs_block m' new = (unat x + unat (blk_used (mblk p x)),
      unat (blk_lenth (mblk p x)) - unat (blk_used (mblk p x)), unat n)"
    using unat_blk_used[OF pb] pb n(1)
    by (simp add: abs_block_def st(1) sf(1) blk_used_def u32_sub word_le_nat_alt)
  have abas: "map (abs_block m') as = map (abs_block (mblk p)) as"
    using st(3) by (simp add: abs_block_def)
  have abcs: "map (abs_block m') cs = map (abs_block (mblk p)) cs"
  proof (cases cs)
    case (Cons c ds)
    then show ?thesis using st(4)[OF Cons] st(5)[OF Cons] by (simp add: abs_block_def blk_used_def)
  qed simp
  have "tiles (unat (info_base p)) (map (abs_block (mblk p)) as @ (unat x, unat (blk_lenth (mblk p x)),
      unat (blk_used (mblk p x))) # map (abs_block (mblk p)) cs) (unat (info_base p) + unat (info_lenth p))"
    using pc by (simp add: pool_chain_def abs_block_def)
  from carve_at[OF this, of "unat n"] sf(4) show ?thesis
    by (simp add: ab abx abn abas abcs)
qed

lemma split_block:
  assumes pc: "pool_chain p (as @ x # cs)" and used: "blk_used (mblk p x) \<noteq> 0"
    and n: "n \<le> blk_remain (mblk p x)" "32 \<le> unat n" "8 dvd unat n"
  shows "pool_chain (p\<lparr>mblk := mem_split (mblk p) x n\<rparr>) (as @ x # (x + blk_used (mblk p x)) # cs)"
proof -
  let ?a = "unat (info_base p)" and ?e = "unat (info_base p) + unat (info_lenth p)"
  let ?bs = "map (abs_block (mblk p)) (as @ x # cs)"
  note eq = split_abs[OF pc used n(1,2)]
  have inx: "(unat x, unat (blk_lenth (mblk p x)), unat (blk_used (mblk p x))) \<in> set ?bs"
    by (rule abs_block_in) simp
  have t: "tiles ?a ?bs ?e" and au: "all_used (tl ?bs)"
    using pc by (simp_all only: pool_chain_def)
  note t' = carve_tiles[OF t inx split_fresh(3)[OF pc used n(1,2)] n(2,3), folded eq]
    and au' = carve_all_used[OF t inx n(2) au, folded eq]
  show ?thesis using pc split_chain[OF pc used n(1,2)] t' au' by (simp add: pool_chain_def)
qed

text \<open>Releasing the first block of the chain: its remainder is its whole length again.\<close>

lemma release_first_block:
  assumes pc: "pool_chain p (x # cs)"
    and b: "blk_lenth (m' x) = blk_lenth (mblk p x)" "blk_remain (m' x) = blk_lenth (mblk p x)"
      "blk_base (m' x) = blk_base (mblk p x)" "blk_prev (m' x) = blk_prev (mblk p x)"
      "blk_next (m' x) = blk_next (mblk p x)"
    and o: "\<And>y. y \<in> set cs \<Longrightarrow> m' y = mblk p y"
  shows "pool_chain (p\<lparr>mblk := m'\<rparr>) (x # cs)"
    and "map (abs_block m') (x # cs) = release (unat x) (map (abs_block (mblk p)) (x # cs))"
proof -
  have ab: "map (abs_block m') cs = map (abs_block (mblk p)) cs" using o by (simp add: abs_block_def)
  have u: "blk_used (m' x) = 0" by (simp add: blk_used_def b)
  then have abx: "abs_block m' x = (unat x, unat (blk_lenth (mblk p x)), 0)"
    by (simp add: abs_block_def b)
  show eq: "map (abs_block m') (x # cs) = release (unat x) (map (abs_block (mblk p)) (x # cs))"
    using abx ab by (simp add: abs_block_def[of "mblk p" x])
  have "chain m' x (blk_next (mblk p x)) cs q r = chain (mblk p) x (blk_next (mblk p x)) cs q r" for q r
    by (rule chain_cong) (rule o)
  then have ch: "chain m' 0 (sprt_mem p) (x # cs) (last (x # cs)) 0"
    using pc by (simp add: pool_chain_def b)
  have inx: "(unat x, unat (blk_lenth (mblk p x)), unat (blk_used (mblk p x)))
      \<in> set (map (abs_block (mblk p)) (x # cs))"
    by (rule abs_block_in) simp
  have t: "tiles (unat (info_base p)) (map (abs_block (mblk p)) (x # cs))
      (unat (info_base p) + unat (info_lenth p))" and au: "all_used (tl (map (abs_block (mblk p)) (x # cs)))"
    using pc by (simp_all only: pool_chain_def)
  show "pool_chain (p\<lparr>mblk := m'\<rparr>) (x # cs)"
    using pc ch release_tiles[OF t inx, folded eq] release_all_used[OF t inx au, folded eq]
    by (simp add: pool_chain_def)
qed

text \<open>The first block's successor already points back to it.\<close>

lemma first_back_link:
  assumes pc: "pool_chain p (x # cs)" and o: "\<forall>y \<in> set cs. m' y = mblk p y"
    and nx: "nx = blk_next (mblk p x)" "isValid nx"
  shows "m'(nx := (m' nx)\<lparr>blk_prev := x\<rparr>) = m'"
proof (cases cs)
  case Nil
  then show ?thesis using pool_chain_split_list(3)[of p "[]" x cs] pc nx by simp
next
  case (Cons c ds)
  then have "nx = c" "blk_prev (mblk p c) = x"
    using pool_chain_split_list(3)[of p "[]" x cs] pool_chain_split_list(4)[of p "[x]" c ds] pc nx
    by simp_all
  then have "(m' nx)\<lparr>blk_prev := x\<rparr> = m' nx" using o Cons by (simp add: mem_block.equality)
  then show ?thesis by (simp only: fun_upd_triv)
qed

text \<open>Releasing a later block: its bytes join the remainder of the block before it.\<close>

lemma release_later_chain:
  assumes pc: "pool_chain p (as @ s # x # cs)"
    and b: "blk_base (m' s) = blk_base (mblk p s)" "blk_prev (m' s) = blk_prev (mblk p s)"
      "blk_next (m' s) = blk_next (mblk p x)" "blk_remain (m' s) \<le> blk_lenth (m' s)"
    and o: "\<And>y. y \<in> set as \<Longrightarrow> m' y = mblk p y"
      "\<And>c ds. cs = c # ds \<Longrightarrow> m' c = (mblk p c)\<lparr>blk_prev := s\<rparr>"
      "\<And>c ds y. cs = c # ds \<Longrightarrow> y \<in> set ds \<Longrightarrow> m' y = mblk p y"
  shows "chain m' 0 (sprt_mem p) (as @ s # cs) (last (as @ s # cs)) 0"
proof -
  note sl = pool_chain_split_list[of p as s "x # cs", OF pc]
  have ch: "chain (mblk p) 0 (sprt_mem p) as (if as = [] then 0 else last as) s"
      "chain (mblk p) x (blk_next (mblk p x)) cs (last (x # cs)) 0"
      "blk_base (mblk p s) = s + 32"
    using pc sl(4) by (auto simp: pool_chain_def chain_append split: if_splits)
  have "chain m' 0 (sprt_mem p) as (if as = [] then 0 else last as) s"
    using ch(1) o(1) chain_cong by blast
  moreover have "chain m' s (blk_next (mblk p x)) cs (last (s # cs)) 0"
  proof (cases cs)
    case Nil
    then show ?thesis using ch(2) by simp
  next
    case (Cons c ds)
    then show ?thesis
      using ch(2) o(2)[OF Cons] chain_cong[of ds m' "mblk p"] o(3)[OF Cons] by (auto split: if_splits)
  qed
  ultimately show ?thesis using sl(4) b ch(3) by (auto simp: chain_append split: if_splits)
qed

lemma release_later_sums:
  assumes pc: "pool_chain p (as @ s # x # cs)"
  shows "unat (blk_lenth (mblk p s) + blk_lenth (mblk p x)) =
           unat (blk_lenth (mblk p s)) + unat (blk_lenth (mblk p x))"
    and "unat (blk_remain (mblk p s) + blk_lenth (mblk p x)) =
           unat (blk_remain (mblk p s)) + unat (blk_lenth (mblk p x))"
    and "unat x = unat s + unat (blk_lenth (mblk p s))"
proof -
  have "tiles (unat (info_base p)) (map (abs_block (mblk p)) (as @ s # x # cs))
      (unat (info_base p) + unat (info_lenth p))"
    using pc by (simp only: pool_chain_def)
  then show nx: "unat x = unat s + unat (blk_lenth (mblk p s))"
    by (auto simp: tiles_append)
  have "unat x + unat (blk_lenth (mblk p x)) \<le> 4294963200" "blk_remain (mblk p s) \<le> blk_lenth (mblk p s)"
    using pool_block(4)[OF pc, of x] pool_block(2)[OF pc, of s] pc by (auto simp: pool_chain_def)
  then show "unat (blk_lenth (mblk p s) + blk_lenth (mblk p x)) =
           unat (blk_lenth (mblk p s)) + unat (blk_lenth (mblk p x))"
    "unat (blk_remain (mblk p s) + blk_lenth (mblk p x)) =
           unat (blk_remain (mblk p s)) + unat (blk_lenth (mblk p x))"
    using nx by (auto intro!: u32_add simp: word_le_nat_alt)
qed

lemma release_later_block:
  assumes pc: "pool_chain p (as @ s # x # cs)"
    and b: "blk_base (m' s) = blk_base (mblk p s)" "blk_prev (m' s) = blk_prev (mblk p s)"
      "blk_next (m' s) = blk_next (mblk p x)"
      "blk_lenth (m' s) = blk_lenth (mblk p s) + blk_lenth (mblk p x)"
      "blk_remain (m' s) = blk_remain (mblk p s) + blk_lenth (mblk p x)"
    and o: "\<And>y. y \<in> set as \<Longrightarrow> m' y = mblk p y"
      "\<And>c ds. cs = c # ds \<Longrightarrow> m' c = (mblk p c)\<lparr>blk_prev := s\<rparr>"
      "\<And>c ds y. cs = c # ds \<Longrightarrow> y \<in> set ds \<Longrightarrow> m' y = mblk p y"
  shows "pool_chain (p\<lparr>mblk := m'\<rparr>) (as @ s # cs)"
    and "map (abs_block m') (as @ s # cs) = release (unat x) (map (abs_block (mblk p)) (as @ s # x # cs))"
proof -
  let ?bs = "map (abs_block (mblk p)) (as @ s # x # cs)"
  let ?a = "unat (info_base p)" and ?e = "unat (info_base p) + unat (info_lenth p)"
  note sums = release_later_sums[OF pc]
  have rl: "blk_remain (mblk p s) \<le> blk_lenth (mblk p s)" using pool_block(2)[OF pc, of s] by simp
  then have le: "blk_remain (m' s) \<le> blk_lenth (m' s)" by (simp add: b word_le_nat_alt sums)
  have "blk_used (m' s) = blk_used (mblk p s)" by (simp add: blk_used_def b)
  then have abs: "abs_block m' s = (unat s, unat (blk_lenth (mblk p s)) + unat (blk_lenth (mblk p x)),
      unat (blk_used (mblk p s)))"
    by (simp add: abs_block_def b sums)
  have abas: "map (abs_block m') as = map (abs_block (mblk p)) as" using o(1) by (simp add: abs_block_def)
  have abcs: "map (abs_block m') cs = map (abs_block (mblk p)) cs"
    using o(2,3) by (cases cs) (auto simp: abs_block_def blk_used_def)
  have t: "tiles ?a ?bs ?e" and au: "all_used (tl ?bs)" using pc by (simp_all only: pool_chain_def)
  have "tiles ?a ((map (abs_block (mblk p)) as @ [abs_block (mblk p) s]) @ (unat x, unat (blk_lenth (mblk p x)),
      unat (blk_used (mblk p x))) # map (abs_block (mblk p)) cs) ?e"
    using t by (simp add: abs_block_def)
  from release_at[OF this] show eq: "map (abs_block m') (as @ s # cs) = release (unat x) ?bs"
    by (simp add: abs abas abcs abs_block_def[of "mblk p" s] abs_block_def[of "mblk p" x])
  have inx: "(unat x, unat (blk_lenth (mblk p x)), unat (blk_used (mblk p x))) \<in> set ?bs"
    by (rule abs_block_in) simp
  note t' = release_tiles[OF t inx, folded eq] and au' = release_all_used[OF t inx au, folded eq]
  show "pool_chain (p\<lparr>mblk := m'\<rparr>) (as @ s # cs)"
    using pc release_later_chain[OF pc b(1-3) le o] t' au' by (simp add: pool_chain_def)
qed

subsection \<open>The headers of a pool, by walking its chain\<close>

partial_function (option) chain_walk :: "block_store \<Rightarrow> u32 \<Rightarrow> u32 list option" where
  "chain_walk m b =
     (if \<not> isValid b then Some []
      else do { xs \<leftarrow> chain_walk m (blk_next (m b)); Some (b # xs) })"

definition pool_blocks :: "mem_info \<Rightarrow> ablock list" where
  "pool_blocks p = (case chain_walk (mblk p) (sprt_mem p) of
     None \<Rightarrow> [] | Some xs \<Rightarrow> map (abs_block (mblk p)) xs)"

definition pool_live :: "mem_info \<Rightarrow> (nat \<times> nat) set" where
  "pool_live p = regions (pool_blocks p)"

definition pool_arena :: "mem_info \<Rightarrow> nat \<times> nat" where
  "pool_arena p = (unat (info_base p), unat (info_base p) + unat (info_lenth p))"

lemma chain_walk_chain:
  "chain m q p xs q' 0 \<Longrightarrow> (\<forall>x\<in>set xs. isValid x) \<Longrightarrow> chain_walk m p = Some xs"
proof (induction xs arbitrary: q p)
  case Nil
  then show ?case by (simp add: chain_walk.simps)
next
  case (Cons x xs)
  then have "chain_walk m (blk_next (m x)) = Some xs" by auto
  then show ?case using Cons.prems by (subst chain_walk.simps) simp
qed

lemma pool_walk:
  assumes "pool_chain p xs"
  shows "chain_walk (mblk p) (sprt_mem p) = Some xs"
proof (rule chain_walk_chain)
  show "chain (mblk p) 0 (sprt_mem p) xs (last xs) 0" using assms by (simp add: pool_chain_def)
  show "\<forall>x\<in>set xs. isValid x" using pool_block(9)[OF assms] by blast
qed

lemma pool_blocks_chain: "pool_chain p xs \<Longrightarrow> pool_blocks p = map (abs_block (mblk p)) xs"
  by (simp add: pool_blocks_def pool_walk)

lemma pool_chain_unique: "pool_chain p xs \<Longrightarrow> pool_chain p ys \<Longrightarrow> xs = ys"
  by (metis option.inject pool_walk)

lemma pool_tiles: "pool_chain p xs \<Longrightarrow>
    tiles (fst (pool_arena p)) (pool_blocks p) (snd (pool_arena p))"
  using pool_blocks_chain[of p xs] by (simp add: pool_chain_def pool_arena_def)

text \<open>Requests whose rounded sz plus header fits 32 bits.\<close>

definition request_fits :: "u32 \<Rightarrow> bool" where
  "request_fits n \<longleftrightarrow> unat n + 39 < 4294967296"

definition request_len :: "u32 \<Rightarrow> u32" where
  "request_len n = mrt_num_align8 n + MEM_BLOCK_HEADER_SIZE"

lemma request_len_props:
  assumes "request_fits n"
  shows "unat (request_len n) = unat (mrt_num_align8 n) + 32" and "32 \<le> unat (request_len n)"
    and "8 dvd unat (request_len n)" and "unat n + 32 \<le> unat (request_len n)"
proof -
  have lt: "unat n + 7 < 4294967296" using assms by (simp add: request_fits_def)
  show e: "unat (request_len n) = unat (mrt_num_align8 n) + 32"
    using align8_bounds[OF lt] assms
    by (subst request_len_def, subst u32_add) (auto simp: MEM_BLOCK_HEADER_SIZE_def request_fits_def)
  then show "32 \<le> unat (request_len n)" "8 dvd unat (request_len n)" "unat n + 32 \<le> unat (request_len n)"
    using align8_bounds[OF lt] by auto
qed

lemma pool_valid_chain: "pool_chain p xs \<Longrightarrow>
    chain (mblk p) 0 (sprt_mem p) xs (last xs) 0 \<and> (\<forall>x\<in>set xs. isValid x) \<and>
    isValid (info_ptr p) \<and> sprt_mem p \<noteq> 0"
  using pool_block(9)[of p xs] by (cases xs) (auto simp: pool_chain_def)

subsection \<open>What carving and releasing do to the live regions\<close>

lemma carve_new_region:
  assumes "tiles a bs e" and "(x, l, u) \<in> set bs" and "u + n \<le> l" and "32 \<le> n"
  shows "(x + u + 32, n - 32) \<notin> regions bs"
proof
  assume "(x + u + 32, n - 32) \<in> regions bs"
  then obtain s k v where b: "s = x + u" "(s, k, v) \<in> set bs" "v \<noteq> 0" by (auto simp: regions_def)
  show False
  proof (cases "s = x")
    case True
    then show ?thesis using b tiles_inj[OF assms(1,2)] by auto
  next
    case False
    then show ?thesis
      using blocks_apart[OF assms(1,2) b(2)] tiles_props[OF assms(1) b(2)] assms(3,4) b(1) by auto
  qed
qed

lemma pool_block_abs:
  assumes "pool_chain p xs" and "x \<in> set xs"
  shows "(unat x, unat (blk_lenth (mblk p x)), unat (blk_used (mblk p x))) \<in> set (pool_blocks p)"
  using abs_block_in[OF assms(2), of "mblk p"] by (simp add: pool_blocks_chain[OF assms(1)])

lemma fit_room:
  assumes "pool_chain p xs" and "x \<in> set xs" and "n \<le> blk_remain (mblk p x)"
  shows "unat (blk_used (mblk p x)) + unat n \<le> unat (blk_lenth (mblk p x))"
  using unat_blk_used[OF pool_block(2)[OF assms(1,2)]] pool_block(2)[OF assms(1,2)] assms(3)
  by (simp add: word_le_nat_alt)

text \<open>The address handed out for a carved block does not wrap and is 8-byte aligned.\<close>

lemma carve_pointer:
  assumes pc: "pool_chain p xs" and x: "x \<in> set xs" and n: "n \<le> blk_remain (mblk p x)" "32 \<le> unat n"
  defines "q \<equiv> blk_base (mblk p x) + (blk_lenth (mblk p x) - blk_remain (mblk p x))"
  shows "unat q = unat x + unat (blk_used (mblk p x)) + 32" and "8 dvd unat q" and "q \<noteq> 0"
    and "q - MEM_BLOCK_HEADER_SIZE = x + blk_used (mblk p x)"
proof -
  note pb = pool_block[OF pc x] and room = fit_room[OF pc x n(1)]
  have lt: "unat x + unat (blk_lenth (mblk p x)) \<le> 4294963200" using pb(4) pc by (simp add: pool_chain_def)
  have q: "q = x + blk_used (mblk p x) + 32" by (simp add: q_def pb(1) blk_used_def)
  then show "q - MEM_BLOCK_HEADER_SIZE = x + blk_used (mblk p x)" by (simp add: MEM_BLOCK_HEADER_SIZE_def)
  have "unat (x + blk_used (mblk p x)) = unat x + unat (blk_used (mblk p x))"
    using lt room by (intro u32_add) simp
  then show u: "unat q = unat x + unat (blk_used (mblk p x)) + 32"
    using lt room n(2) by (simp add: q u32_add)
  then show "8 dvd unat q" "q \<noteq> 0" using pb(6,7) by (auto simp: unat_eq_zero[symmetric])
qed

lemma carve_live:
  assumes pc: "pool_chain p xs" and x: "x \<in> set xs" and fits: "request_fits n"
    and n: "request_len n \<le> blk_remain (mblk p x)"
    and q: "unat q = unat x + unat (blk_used (mblk p x)) + 32"
    and bs: "pool_blocks p' = carve (unat x) (unat (request_len n)) (pool_blocks p)"
  shows "\<exists>k \<ge> unat n. pool_live p' = insert (unat q, k) (pool_live p) \<and> (unat q, k) \<notin> pool_live p \<and>
           (\<forall>r \<in> pool_live p. disjoint_regions (unat q, k) r)"
proof (intro exI conjI ballI)
  let ?k = "unat (request_len n) - 32"
  note rl = request_len_props[OF fits] and t = pool_tiles[OF pc] and inx = pool_block_abs[OF pc x]
    and room = fit_room[OF pc x n]
  show "unat n \<le> ?k" using rl by simp
  show "pool_live p' = insert (unat q, ?k) (pool_live p)"
    using carve_regions[OF t inx rl(2)] by (simp add: pool_live_def bs q)
  show "(unat q, ?k) \<notin> pool_live p"
    using carve_new_region[OF t inx room rl(2)] by (simp add: pool_live_def q)
  show "disjoint_regions (unat q, ?k) r" if "r \<in> pool_live p" for r
    using carve_region_fresh[OF t inx room rl(2), of "fst r" "snd r"] that
    by (simp add: pool_live_def q)
qed

lemma live_block:
  assumes pc: "pool_chain p xs" and live: "(unat q, k) \<in> pool_live p"
  obtains x where "x \<in> set xs" and "q = x + 32" and "x = q - MEM_BLOCK_HEADER_SIZE" and "unat q = unat x + 32"
    and "k = unat (blk_used (mblk p x)) - 32" and "blk_used (mblk p x) \<noteq> 0" and "isValid q"
proof -
  obtain x where x: "x \<in> set xs" "unat q = unat x + 32" "k = unat (blk_used (mblk p x)) - 32"
      "blk_used (mblk p x) \<noteq> 0"
    using live pool_blocks_chain[OF pc]
    by (auto simp: pool_live_def regions_def abs_block_def unat_gt_0)
  note pb = pool_block[OF pc x(1)]
  have lt: "unat x + 32 < 4294963200" using pb(4,5) pc by (simp add: pool_chain_def)
  then have "unat (x + 32) = unat x + 32" by (subst u32_add) auto
  then have q: "q = x + 32" "isValid q" using x(2) lt by (simp_all add: u32_eq_iff isValid_iff)
  then have "x = q - MEM_BLOCK_HEADER_SIZE" by (simp add: MEM_BLOCK_HEADER_SIZE_def)
  with q x show ?thesis by (intro that)
qed

lemma live_in_arena:
  "pool_chain p xs \<Longrightarrow> (a, k) \<in> pool_live p \<Longrightarrow> fst (pool_arena p) \<le> a \<and> a + k \<le> snd (pool_arena p)"
  using regions_bounds[OF pool_tiles, of p xs a k] by (simp add: pool_live_def)

lemma live_disjoint:
  "pool_chain p xs \<Longrightarrow> r \<in> pool_live p \<Longrightarrow> r' \<in> pool_live p \<Longrightarrow> r \<noteq> r' \<Longrightarrow> disjoint_regions r r'"
  using regions_disjoint[OF pool_tiles, of p xs r r'] by (simp add: pool_live_def)

lemma release_live:
  assumes "pool_chain p xs" and "x \<in> set xs" and "pool_blocks p' = release (unat x) (pool_blocks p)"
  shows "pool_live p' = pool_live p - {(unat x + 32, unat (blk_used (mblk p x)) - 32)}"
  using release_regions[OF pool_tiles[OF assms(1)] pool_block_abs[OF assms(1,2)]] assms(3)
  by (simp add: pool_live_def)

subsection \<open>A pool header before its creation, for the concrete runs\<close>

definition demo_info :: mem_info where
  "demo_info = \<lparr>info_ptr = 0x1000, info_base = 0, info_lenth = 0, sprt_mem = 0, alloc_fn = None, free_fn = None,
     mblk = (\<lambda>_. zero_block), mlink = (\<lambda>l. \<lparr>sprt_prev = l, sprt_next = l\<rparr>)\<rparr>"

lemmas mem_eval = mrt_num_align8_def mrt_align_def MEM_BLOCK_HEADER_SIZE_def isValid_iff Let_def

end
