(* ===== verification/Mem_Interface.thy ===== *)
theory Mem_Interface
  imports Mem_Manage
begin

text \<open>
  What \<^verbatim>\<open>sprt_info->alloc\<close> and \<^verbatim>\<open>sprt_info->free\<close> promise their callers, stated once as a
  locale over any state: an admissible request returns null and changes nothing, or
  returns an aligned region of at least the requested size inside the arena, apart from
  every live region; freeing a live region ends exactly that region. Both allocators of
  \<^verbatim>\<open>common/mempool\<close> are interpretations.
\<close>

text \<open>States reached from \<open>s\<close> by admissible requests and by freeing live regions.\<close>

inductive mem_reach ::
  "('s \<Rightarrow> u32 \<Rightarrow> ('s \<times> u32) option) \<Rightarrow> ('s \<Rightarrow> u32 \<Rightarrow> 's option) \<Rightarrow> ('s \<Rightarrow> (nat \<times> nat) set) \<Rightarrow>
   ('s \<Rightarrow> u32 \<Rightarrow> bool) \<Rightarrow> 's \<Rightarrow> 's \<Rightarrow> bool"
  for alloc free live adm where
  reach_refl: "mem_reach alloc free live adm s s"
| reach_alloc: "mem_reach alloc free live adm s t \<Longrightarrow> adm t n \<Longrightarrow> alloc t n = Some (t', q) \<Longrightarrow>
     mem_reach alloc free live adm s t'"
| reach_free: "mem_reach alloc free live adm s t \<Longrightarrow> (unat q, k) \<in> live t \<Longrightarrow> free t q = Some t' \<Longrightarrow>
     mem_reach alloc free live adm s t'"

locale region_allocator =
  fixes wf :: "'s \<Rightarrow> bool"
    and alloc :: "'s \<Rightarrow> u32 \<Rightarrow> ('s \<times> u32) option"
    and free :: "'s \<Rightarrow> u32 \<Rightarrow> 's option"
    and live :: "'s \<Rightarrow> (nat \<times> nat) set"
    and arena :: "'s \<Rightarrow> nat \<times> nat"
    and adm :: "'s \<Rightarrow> u32 \<Rightarrow> bool"
  assumes alloc_returns: "wf s \<Longrightarrow> adm s n \<Longrightarrow> \<exists>s' q. alloc s n = Some (s', q)"
    and alloc_null: "wf s \<Longrightarrow> adm s n \<Longrightarrow> alloc s n = Some (s', 0) \<Longrightarrow> s' = s"
    and alloc_region: "wf s \<Longrightarrow> adm s n \<Longrightarrow> alloc s n = Some (s', q) \<Longrightarrow> q \<noteq> 0 \<Longrightarrow>
          wf s' \<and> arena s' = arena s \<and> 8 dvd unat q \<and>
          (\<exists>k \<ge> unat n. live s' = insert (unat q, k) (live s) \<and> (unat q, k) \<notin> live s \<and>
             (\<forall>r \<in> live s. disjoint_regions (unat q, k) r))"
    and live_arena: "wf s \<Longrightarrow> (a, k) \<in> live s \<Longrightarrow> fst (arena s) \<le> a \<and> a + k \<le> snd (arena s)"
    and live_apart: "wf s \<Longrightarrow> r \<in> live s \<Longrightarrow> r' \<in> live s \<Longrightarrow> r \<noteq> r' \<Longrightarrow> disjoint_regions r r'"
    and free_region: "wf s \<Longrightarrow> (unat q, k) \<in> live s \<Longrightarrow>
          \<exists>s'. free s q = Some s' \<and> wf s' \<and> arena s' = arena s \<and> live s' = live s - {(unat q, k)}"
begin

lemma reach_wf: "mem_reach alloc free live adm s t \<Longrightarrow> wf s \<Longrightarrow> wf t \<and> arena t = arena s"
proof (induction rule: mem_reach.induct)
  case (reach_refl s)
  then show ?case by simp
next
  case (reach_alloc s t n t' q)
  then show ?case using alloc_null[of t n t'] alloc_region[of t n t' q] by (cases "q = 0") auto
next
  case (reach_free s t q k t')
  then show ?case using free_region[of t q k] by auto
qed

lemma reach_regions:
  assumes "wf s" and "mem_reach alloc free live adm s t"
  shows "pairwise disjoint_regions (live t) \<and> (\<forall>(a, k) \<in> live t. fst (arena s) \<le> a \<and> a + k \<le> snd (arena s))"
  using reach_wf[OF assms(2,1)] live_apart[of t] live_arena[of t] by (auto simp: pairwise_def)

lemma alloc_then_free:
  assumes "wf s" and "adm s n" and "alloc s n = Some (s', q)" and "q \<noteq> 0"
  shows "\<exists>s''. free s' q = Some s'' \<and> wf s'' \<and> live s'' = live s"
proof -
  obtain k where k: "unat n \<le> k" "wf s'" "live s' = insert (unat q, k) (live s)"
      "(unat q, k) \<notin> live s"
    using alloc_region[OF assms(1-4)] by auto
  then show ?thesis using free_region[OF k(2), of q k] k(3) by auto
qed

end

subsection \<open>Allocators over a chain of headers\<close>

text \<open>
  Both allocators keep an invariant that contains \<^const>\<open>pool_chain\<close>, and both change the abstract
  blocks by \<^const>\<open>carve\<close> and \<^const>\<open>release\<close> only. That is enough for the contract above.
\<close>

locale chain_allocator =
  fixes inv :: "mem_info \<Rightarrow> u32 list \<Rightarrow> bool"
    and alloc :: "mem_info \<Rightarrow> u32 \<Rightarrow> (mem_info \<times> u32) option"
    and free :: "mem_info \<Rightarrow> u32 \<Rightarrow> mem_info option"
    and adm :: "mem_info \<Rightarrow> u32 \<Rightarrow> bool"
  assumes inv_chain: "inv p xs \<Longrightarrow> pool_chain p xs"
    and adm_fits: "adm p n \<Longrightarrow> request_fits n"
    and alloc_carves: "inv p xs \<Longrightarrow> adm p n \<Longrightarrow>
          (alloc p n = Some (p, 0) \<and> (\<forall>x\<in>set xs. \<not> request_len n \<le> blk_remain (mblk p x))) \<or>
          (\<exists>x\<in>set xs. \<exists>p' q ys. request_len n \<le> blk_remain (mblk p x) \<and> alloc p n = Some (p', q) \<and>
             inv p' ys \<and> pool_arena p' = pool_arena p \<and> q \<noteq> 0 \<and> 8 dvd unat q \<and>
             unat q = unat x + unat (blk_used (mblk p x)) + 32 \<and>
             pool_blocks p' = carve (unat x) (unat (request_len n)) (pool_blocks p))"
    and free_releases: "inv p xs \<Longrightarrow> x \<in> set xs \<Longrightarrow> isValid (x + 32) \<Longrightarrow> blk_used (mblk p x) \<noteq> 0 \<Longrightarrow>
          \<exists>p' ys. free p (x + 32) = Some p' \<and> inv p' ys \<and> pool_arena p' = pool_arena p \<and>
             pool_blocks p' = release (unat x) (pool_blocks p)"
begin

lemma alloc_gives_region:
  assumes i: "inv p xs" and n: "adm p n" and al: "alloc p n = Some (p', q)" and q: "q \<noteq> 0"
  shows "Ex (inv p') \<and> pool_arena p' = pool_arena p \<and> 8 dvd unat q \<and>
      (\<exists>k \<ge> unat n. pool_live p' = insert (unat q, k) (pool_live p) \<and> (unat q, k) \<notin> pool_live p \<and>
        (\<forall>r \<in> pool_live p. disjoint_regions (unat q, k) r))"
proof -
  obtain x ys where x: "x \<in> set xs" "request_len n \<le> blk_remain (mblk p x)" "inv p' ys"
      "pool_arena p' = pool_arena p" "8 dvd unat q" "unat q = unat x + unat (blk_used (mblk p x)) + 32"
      "pool_blocks p' = carve (unat x) (unat (request_len n)) (pool_blocks p)"
    using alloc_carves[OF i n] al q by auto
  note carve_live[OF inv_chain[OF i] x(1) adm_fits[OF n] x(2,6,7)]
  then show ?thesis using x(3-5) by blast
qed

lemma free_ends_region:
  assumes i: "inv p xs" and live: "(unat q, k) \<in> pool_live p"
  shows "\<exists>p'. free p q = Some p' \<and> Ex (inv p') \<and> pool_arena p' = pool_arena p \<and>
           pool_live p' = pool_live p - {(unat q, k)}"
proof -
  note pc = inv_chain[OF i]
  obtain x where x: "x \<in> set xs" "q = x + 32" "k = unat (blk_used (mblk p x)) - 32" "isValid q"
    "unat q = unat x + 32" "blk_used (mblk p x) \<noteq> 0"
    using live_block[OF pc live] by metis
  then obtain p' ys where p': "free p q = Some p'" "inv p' ys"
      "pool_arena p' = pool_arena p" "pool_blocks p' = release (unat x) (pool_blocks p)"
    using free_releases[OF i x(1)] by auto
  then show ?thesis using release_live[OF pc x(1) p'(4)] x(3,5) by auto
qed

lemma alloc_null_iff_no_room:
  assumes i: "inv p xs" and n: "adm p n"
  shows "alloc p n = Some (p, 0) \<longleftrightarrow>
         (\<forall>(s, l, u) \<in> set (pool_blocks p). l < u + unat (request_len n))"
proof -
  have blk: "(\<forall>(s, l, u) \<in> set (pool_blocks p). l < u + unat (request_len n)) \<longleftrightarrow>
      (\<forall>x\<in>set xs. \<not> request_len n \<le> blk_remain (mblk p x))"
    using pool_block(2)[OF inv_chain[OF i]]
    by (auto simp: pool_blocks_chain[OF inv_chain[OF i]] abs_block_def unat_blk_used word_le_nat_alt not_le
        less_diff_conv2)
  show ?thesis unfolding blk using alloc_carves[OF i n] by auto
qed

end

sublocale chain_allocator \<subseteq> region_allocator "\<lambda>p. Ex (inv p)" alloc free pool_live pool_arena adm
proof unfold_locales
  fix p n assume *: "Ex (inv p)" "adm p n"
  then show "\<exists>p' q. alloc p n = Some (p', q)" using alloc_carves by blast
  fix p' assume "alloc p n = Some (p', 0)"
  then show "p' = p" using * alloc_carves by fastforce
next
  fix p n p' q assume "Ex (inv p)" "adm p n" "alloc p n = Some (p', q)" "q \<noteq> 0"
  then show "Ex (inv p') \<and> pool_arena p' = pool_arena p \<and> 8 dvd unat q \<and>
      (\<exists>k\<ge>unat n. pool_live p' = insert (unat q, k) (pool_live p) \<and> (unat q, k) \<notin> pool_live p \<and>
        (\<forall>r\<in>pool_live p. disjoint_regions (unat q, k) r))"
    using alloc_gives_region by blast
next
  fix p a k assume "Ex (inv p)" "(a, k) \<in> pool_live p"
  then show "fst (pool_arena p) \<le> a \<and> a + k \<le> snd (pool_arena p)" using live_in_arena inv_chain by blast
next
  fix p r r' assume "Ex (inv p)" "r \<in> pool_live p" "r' \<in> pool_live p" "r \<noteq> r'"
  then show "disjoint_regions r r'" using live_disjoint inv_chain by blast
next
  fix p k and q :: u32 assume "Ex (inv p)" "(unat q, k) \<in> pool_live p"
  then show "\<exists>p'. free p q = Some p' \<and> Ex (inv p') \<and> pool_arena p' = pool_arena p \<and>
      pool_live p' = pool_live p - {(unat q, k)}"
    using free_ends_region by blast
qed

end
