(* ===== verification/Mem_Simple.thy ===== *)
theory Mem_Simple
  imports Mem_Interface
begin

text \<open>
  \<^verbatim>\<open>src/common/mempool/mem_simple.c\<close>: the first-fit allocator over one chain of block headers.
  Headers are the entries of a store indexed by their address; a walk that never meets an
  invalid pointer has the value \<open>None\<close>.
\<close>

subsection \<open>The operations\<close>

definition memory_simple_block_create :: "mem_info \<Rightarrow> u32 \<Rightarrow> u32 \<Rightarrow> mem_info \<times> int" where
  "memory_simple_block_create p mem_addr sz =
     (let header_size = MEM_BLOCK_HEADER_SIZE in
      if \<not> isValid (info_ptr p) \<or> sz \<le> header_size then (p, - ER_UNVALID)
      else if isValid (sprt_mem p) then (p, - ER_UNVALID)
      else
        let base = mrt_num_align8 mem_addr;
            lenth = sz - (base - mem_addr);
            sprt_block = base
        in (p\<lparr>info_base := base, info_lenth := lenth,
              mblk := (mblk p)(sprt_block :=
                \<lparr>magic = MEMORY_POOL_MAGIC, blk_base = base + header_size, blk_lenth = lenth,
                 blk_remain = lenth, blk_prev = 0, blk_next = 0\<rparr>),
              sprt_mem := sprt_block,
              mlink := init_hash_heads (init_list_head (mlink p) (Link sprt_block)),
              alloc_fn := Some SimpleMem, free_fn := Some SimpleMem\<rparr>, ER_NORMAL))"

definition memory_simple_block_destroy :: "mem_info \<Rightarrow> mem_info" where
  "memory_simple_block_destroy p =
     (if \<not> isValid (info_ptr p) then p
      else p\<lparr>mblk := kmemzero_blocks (mblk p) (info_base p) (info_lenth p),
             info_base := 0, info_lenth := 0, sprt_mem := 0,
             mlink := zero_hash_heads (mlink p),
             alloc_fn := None, free_fn := None\<rparr>)"

text \<open>The loop of \<^verbatim>\<open>alloc_spare_simple_memory\<close>: the first header with enough remaining bytes.\<close>

partial_function (option) simple_first_fit :: "block_store \<Rightarrow> u32 \<Rightarrow> u32 \<Rightarrow> u32 option option" where
  "simple_first_fit m lenth sprt_block =
     (if \<not> isValid sprt_block then Some None
      else if lenth \<le> blk_remain (m sprt_block) then Some (Some sprt_block)
      else simple_first_fit m lenth (blk_next (m sprt_block)))"

definition alloc_spare_simple_memory :: "mem_info \<Rightarrow> u32 \<Rightarrow> (mem_info \<times> u32) option" where
  "alloc_spare_simple_memory p sz =
     (if \<not> isValid (info_ptr p) \<or> sprt_mem p = 0 then Some (p, 0)
      else
        let lenth = mrt_num_align8 sz + MEM_BLOCK_HEADER_SIZE in
        do {
          found \<leftarrow> simple_first_fit (mblk p) lenth (sprt_mem p);
          (case found of
             None \<Rightarrow> Some (p, 0)
           | Some sprt_block \<Rightarrow>
               let blk = mblk p sprt_block;
                   offset = blk_lenth blk - blk_remain blk;
                   ptr_mem = blk_base blk + offset
               in if blk_lenth blk \<noteq> blk_remain blk
                  then Some (p\<lparr>mblk := mem_split (mblk p) sprt_block lenth,
                               mlink := init_list_head (mlink p) (Link (ptr_mem - MEM_BLOCK_HEADER_SIZE))\<rparr>,
                             ptr_mem)
                  else Some (p\<lparr>mblk := (mblk p)(sprt_block := blk\<lparr>blk_remain := blk_remain blk - lenth\<rparr>)\<rparr>,
                             ptr_mem))
        })"

partial_function (option) simple_find_base :: "block_store \<Rightarrow> u32 \<Rightarrow> u32 \<Rightarrow> bool option" where
  "simple_find_base m ptr_mem sprt_start =
     (if \<not> isValid sprt_start then Some False
      else if blk_base (m sprt_start) = ptr_mem then Some True
      else simple_find_base m ptr_mem (blk_next (m sprt_start)))"

definition check_employ_simple_memory :: "block_store \<Rightarrow> u32 \<Rightarrow> u32 \<Rightarrow> u32 option" where
  "check_employ_simple_memory m ptr_head ptr_mem =
     (let sprt_block = ptr_mem - MEM_BLOCK_HEADER_SIZE in
      if \<not> isValid sprt_block \<or> \<not> IS_MEMORYPOOL_VALID m sprt_block then Some 0
      else do {
        hit \<leftarrow> simple_find_base m ptr_mem ptr_head;
        Some (if hit then sprt_block else 0)
      })"

definition free_employ_simple_memory :: "mem_info \<Rightarrow> u32 \<Rightarrow> mem_info option" where
  "free_employ_simple_memory p ptr_mem =
     (if \<not> isValid ptr_mem then Some p
      else if info_ptr p = 0 then None
      else do {
        sprt_block \<leftarrow> check_employ_simple_memory (mblk p) (sprt_mem p) ptr_mem;
        (if sprt_block = 0 then Some p
         else
           let m = mblk p;
               sprt_prev = blk_prev (m sprt_block);
               sprt_next = blk_next (m sprt_block);
               m1 = m(sprt_block := (m sprt_block)\<lparr>blk_remain := blk_lenth (m sprt_block)\<rparr>);
               (m2, sprt_block') =
                 (if isValid sprt_prev
                  then (m1(sprt_prev := (m1 sprt_prev)
                          \<lparr>blk_lenth := blk_lenth (m1 sprt_prev) + blk_lenth (m1 sprt_block),
                           blk_remain := blk_remain (m1 sprt_prev) + blk_remain (m1 sprt_block),
                           blk_next := sprt_next\<rparr>), sprt_prev)
                  else (m1, sprt_block));
               m3 = (if isValid sprt_next
                     then m2(sprt_next := (m2 sprt_next)\<lparr>blk_prev := sprt_block'\<rparr>) else m2)
           in Some (p\<lparr>mblk := m3\<rparr>))
      })"

subsection \<open>The two walks\<close>

lemma simple_first_fit_chain:
  "chain m q p xs q' 0 \<Longrightarrow> (\<forall>x\<in>set xs. isValid x) \<Longrightarrow>
   simple_first_fit m n p = Some (find (\<lambda>x. n \<le> blk_remain (m x)) xs)"
proof (induction xs arbitrary: q p)
  case Nil
  then show ?case by (simp add: simple_first_fit.simps)
next
  case (Cons x xs)
  then have "simple_first_fit m n (blk_next (m x)) = Some (find (\<lambda>x. n \<le> blk_remain (m x)) xs)"
    by auto
  then show ?case using Cons.prems by (subst simple_first_fit.simps) simp
qed

lemma simple_find_base_chain:
  "chain m q p xs q' 0 \<Longrightarrow> (\<forall>x\<in>set xs. isValid x) \<Longrightarrow>
   simple_find_base m b p = Some (\<exists>x\<in>set xs. blk_base (m x) = b)"
proof (induction xs arbitrary: q p)
  case Nil
  then show ?case by (simp add: simple_find_base.simps)
next
  case (Cons x xs)
  then have "simple_find_base m b (blk_next (m x)) = Some (\<exists>x\<in>set xs. blk_base (m x) = b)"
    by auto
  then show ?case using Cons.prems by (subst simple_find_base.simps) auto
qed

subsection \<open>The invariant\<close>

definition simple_inv :: "mem_info \<Rightarrow> u32 list \<Rightarrow> bool" where
  "simple_inv p xs \<longleftrightarrow> pool_chain p xs \<and> (\<forall>x\<in>set xs. magic (mblk p x) = MEMORY_POOL_MAGIC)"

definition simple_wf :: "mem_info \<Rightarrow> bool" where
  "simple_wf p \<longleftrightarrow> (\<exists>xs. simple_inv p xs)"

lemma simple_inv_chain: "simple_inv p xs \<Longrightarrow> pool_chain p xs"
  by (simp add: simple_inv_def)

subsection \<open>Creation\<close>

lemma simple_create_inv:
  assumes ok: "isValid (info_ptr p)" "\<not> isValid (sprt_mem p)"
    and room: "unat mem_addr + unat sz < 4294963200" "40 \<le> unat sz" "0 < unat mem_addr"
  shows "simple_inv (fst (memory_simple_block_create p mem_addr sz)) [mrt_num_align8 mem_addr]"
    and "snd (memory_simple_block_create p mem_addr sz) = ER_NORMAL"
    and "pool_live (fst (memory_simple_block_create p mem_addr sz)) = {}"
    and "pool_arena (fst (memory_simple_block_create p mem_addr sz)) =
         (unat (mrt_num_align8 mem_addr), unat mem_addr + unat sz)"
proof -
  let ?b = "mrt_num_align8 mem_addr" and ?p = "fst (memory_simple_block_create p mem_addr sz)"
  note al = align8_bounds[of mem_addr]
  have nle: "\<not> sz \<le> MEM_BLOCK_HEADER_SIZE" using room by (simp add: word_le_nat_alt MEM_BLOCK_HEADER_SIZE_def)
  have pad: "unat (?b - mem_addr) = unat ?b - unat mem_addr" using al room by (simp add: u32_sub)
  then have len: "unat (sz - (?b - mem_addr)) = unat sz - (unat ?b - unat mem_addr)"
    using al room by (simp add: u32_sub)
  then have "unat ?b + unat (sz - (?b - mem_addr)) = unat mem_addr + unat sz" using al room by simp
  then show ar: "pool_arena ?p = (unat ?b, unat mem_addr + unat sz)"
    using ok nle by (simp add: pool_arena_def memory_simple_block_create_def Let_def)
  have "pool_chain ?p [?b]"
    using ok nle al room len by (simp add: memory_simple_block_create_def Let_def pool_chain_def
      all_used_def blk_used_def MEM_BLOCK_HEADER_SIZE_def)
  then show inv: "simple_inv ?p [?b]"
    using ok nle by (simp add: simple_inv_def memory_simple_block_create_def Let_def)
  show "snd (memory_simple_block_create p mem_addr sz) = ER_NORMAL"
    using ok nle by (simp add: memory_simple_block_create_def Let_def)
  have "blk_used (mblk ?p ?b) = 0"
    using ok nle by (simp add: memory_simple_block_create_def Let_def blk_used_def)
  then show "pool_live ?p = {}"
    using pool_blocks_chain[OF simple_inv_chain[OF inv]]
    by (simp add: pool_live_def abs_block_def)
qed

subsection \<open>Allocation\<close>

lemma simple_alloc_none:
  assumes inv: "simple_inv p xs" and none: "\<forall>x\<in>set xs. \<not> request_len n \<le> blk_remain (mblk p x)"
  shows "alloc_spare_simple_memory p n = Some (p, 0)"
proof -
  note pv = pool_valid_chain[OF simple_inv_chain[OF inv]]
  have "find (\<lambda>x. request_len n \<le> blk_remain (mblk p x)) xs = None"
    using none by (simp add: find_None_iff)
  then have "simple_first_fit (mblk p) (request_len n) (sprt_mem p) = Some None"
    using simple_first_fit_chain pv by metis
  then show ?thesis using pv
    by (simp add: alloc_spare_simple_memory_def request_len_def[symmetric])
qed

lemma simple_alloc_fit:
  assumes inv: "simple_inv p xs" and fits: "request_fits n"
    and fnd: "find (\<lambda>x. request_len n \<le> blk_remain (mblk p x)) xs = Some x"
  shows "\<exists>p' q ys. alloc_spare_simple_memory p n = Some (p', q) \<and> simple_inv p' ys \<and>
           pool_arena p' = pool_arena p \<and> q \<noteq> 0 \<and> 8 dvd unat q \<and>
           unat q = unat x + unat (blk_used (mblk p x)) + 32 \<and>
           pool_blocks p' = carve (unat x) (unat (request_len n)) (pool_blocks p)"
proof -
  let ?n = "request_len n" and ?blk = "mblk p x"
  let ?q = "blk_base ?blk + (blk_lenth ?blk - blk_remain ?blk)"
  note pc = simple_inv_chain[OF inv]
  note pv = pool_valid_chain[OF pc] and rl = request_len_props[OF fits]
  have x: "x \<in> set xs" and le: "?n \<le> blk_remain ?blk" using fnd by (auto simp: find_Some_iff)
  have ff: "simple_first_fit (mblk p) ?n (sprt_mem p) = Some (Some x)"
    using simple_first_fit_chain pv fnd by metis
  note cp = carve_pointer[OF pc x le rl(2)]
  show ?thesis
  proof (cases "blk_used ?blk = 0")
    case True
    let ?b = "?blk\<lparr>blk_remain := blk_remain ?blk - ?n\<rparr>"
    let ?p = "p\<lparr>mblk := (mblk p)(x := ?b)\<rparr>"
    have al: "alloc_spare_simple_memory p n = Some (?p, ?q)"
      using pv ff True
      by (simp add: alloc_spare_simple_memory_def request_len_def[symmetric] blk_used_def Let_def)
    have tk: "pool_chain ?p xs" "map (abs_block (mblk ?p)) xs = carve (unat x) (unat ?n) (pool_blocks p)"
      using take_in_place[OF pc x True le rl(2,3), of ?b] pool_blocks_chain[OF pc] by simp_all
    moreover have "simple_inv ?p xs" using tk(1) inv by (simp add: simple_inv_def)
    ultimately show ?thesis
      using al cp pool_blocks_chain[OF tk(1)] by (auto simp: pool_arena_def)
  next
    case False
    let ?p = "p\<lparr>mblk := mem_split (mblk p) x ?n, mlink := init_list_head (mlink p) (Link (?q - MEM_BLOCK_HEADER_SIZE))\<rparr>"
    obtain as cs where xs: "xs = as @ x # cs" using x by (auto dest: split_list)
    let ?ys = "as @ x # (x + blk_used ?blk) # cs"
    have al: "alloc_spare_simple_memory p n = Some (?p, ?q)"
      using pv ff False
      by (simp add: alloc_spare_simple_memory_def request_len_def[symmetric] blk_used_def Let_def)
    note sb = split_block[OF pc[unfolded xs] False le rl(2,3)]
      and sa = split_abs[OF pc[unfolded xs] False le rl(2)]
      and st = split_store[OF pc[unfolded xs] False le rl(2)]
    have "pool_chain ?p ?ys" using sb by (simp add: pool_chain_def)
    moreover have "\<forall>y\<in>set ?ys. magic (mblk ?p y) = MEMORY_POOL_MAGIC"
    proof -
      have "magic (mem_split (mblk p) x ?n y) = MEMORY_POOL_MAGIC" if "y \<in> set cs" for y
        using st(4,5) that inv by (cases cs) (auto simp: simple_inv_def xs)
      then show ?thesis using st(1-3) inv by (auto simp: simple_inv_def xs)
    qed
    ultimately have "simple_inv ?p ?ys" by (simp add: simple_inv_def)
    moreover from this have "pool_blocks ?p = carve (unat x) (unat ?n) (pool_blocks p)"
      using pool_blocks_chain[OF simple_inv_chain, of ?p ?ys] pool_blocks_chain[OF pc] sa xs by simp
    ultimately show ?thesis using al cp by (auto simp: pool_arena_def)
  qed
qed

subsection \<open>Release\<close>

lemma simple_check_live:
  assumes inv: "simple_inv p xs" and x: "x \<in> set xs"
  shows "check_employ_simple_memory (mblk p) (sprt_mem p) (x + 32) = Some x"
proof -
  note pc = simple_inv_chain[OF inv]
  note pv = pool_valid_chain[OF pc]
  have "\<exists>y\<in>set xs. blk_base (mblk p y) = x + 32" using pool_block(1)[OF pc x] x by blast
  then have "simple_find_base (mblk p) (x + 32) (sprt_mem p) = Some True"
    using simple_find_base_chain[of "mblk p" 0 "sprt_mem p" xs "last xs" "x + 32"] pv by simp
  then show ?thesis
    using pv x inv by (simp add: check_employ_simple_memory_def MEM_BLOCK_HEADER_SIZE_def
        IS_MEMORYPOOL_VALID_def simple_inv_def)
qed

lemma simple_free_first:
  assumes inv: "simple_inv p (x # cs)" and v: "isValid (x + 32)"
  shows "\<exists>p'. free_employ_simple_memory p (x + 32) = Some p' \<and> simple_inv p' (x # cs) \<and>
           pool_arena p' = pool_arena p \<and> pool_blocks p' = release (unat x) (pool_blocks p)"
proof -
  let ?m = "mblk p"
  let ?m' = "?m(x := (?m x)\<lparr>blk_remain := blk_lenth (?m x)\<rparr>)" and ?nx = "blk_next (?m x)"
  note pc = simple_inv_chain[OF inv]
  note pv = pool_valid_chain[OF pc]
  have sl: "blk_prev (?m x) = 0"
    using pool_chain_split_list(4)[of p "[]" x cs] pc by simp
  have d: "distinct (x # cs)" by (rule pool_distinct[OF pc])
  have same: "?m'(?nx := (?m' ?nx)\<lparr>blk_prev := x\<rparr>) = ?m'" if "isValid ?nx"
    by (rule first_back_link[OF pc]) (use d that in auto)
  have nz: "x \<noteq> 0" "info_ptr p \<noteq> 0" using pv by (auto simp: isValid_def)
  have fr: "free_employ_simple_memory p (x + 32) = Some (p\<lparr>mblk := ?m'\<rparr>)"
    using v nz simple_check_live[OF inv, of x] sl same
    by (simp add: free_employ_simple_memory_def Let_def)
  have o: "?m' y = ?m y" if "y \<in> set cs" for y using that d by auto
  have rel: "pool_chain (p\<lparr>mblk := ?m'\<rparr>) (x # cs)"
      "map (abs_block ?m') (x # cs) = release (unat x) (map (abs_block ?m) (x # cs))"
    using release_first_block[where m' = ?m', OF pc _ _ _ _ _ o] by simp_all
  have "simple_inv (p\<lparr>mblk := ?m'\<rparr>) (x # cs)"
    using rel(1) inv by (simp add: simple_inv_def)
  moreover have "pool_blocks (p\<lparr>mblk := ?m'\<rparr>) = release (unat x) (pool_blocks p)"
    using pool_blocks_chain[OF rel(1)] pool_blocks_chain[OF pc] rel(2) by simp
  ultimately show ?thesis using fr by (auto simp: pool_arena_def)
qed

lemma simple_free_later:
  assumes inv: "simple_inv p (as @ s # x # cs)" and v: "isValid (x + 32)"
  shows "\<exists>p'. free_employ_simple_memory p (x + 32) = Some p' \<and> simple_inv p' (as @ s # cs) \<and>
           pool_arena p' = pool_arena p \<and> pool_blocks p' = release (unat x) (pool_blocks p)"
proof -
  let ?m = "mblk p" and ?nx = "blk_next (mblk p x)"
  let ?m1 = "?m(x := (?m x)\<lparr>blk_remain := blk_lenth (?m x)\<rparr>)"
  let ?m2 = "?m1(s := (?m s)\<lparr>blk_lenth := blk_lenth (?m s) + blk_lenth (?m x),
                blk_remain := blk_remain (?m s) + blk_lenth (?m x), blk_next := ?nx\<rparr>)"
  define m3 where "m3 = (if isValid ?nx then ?m2(?nx := (?m2 ?nx)\<lparr>blk_prev := s\<rparr>) else ?m2)"
  note pc = simple_inv_chain[OF inv]
  have d: "distinct (as @ s # x # cs)" by (rule pool_distinct[OF pc])
  have vs: "isValid s" and vx: "isValid x" and vc: "isValid c" if "c \<in> set cs" for c
    using pool_block(9)[OF pc] that by simp_all
  have pvx: "blk_prev (?m x) = s" and nx: "?nx = (case cs of [] \<Rightarrow> 0 | c # _ \<Rightarrow> c)"
    using pool_chain_split_list(3,4)[of p "as @ [s]" x cs] pc by simp_all
  have nz: "x \<noteq> 0" "info_ptr p \<noteq> 0" "isValid s"
    using pool_valid_chain[OF pc] by (simp_all add: isValid_def)
  have sx: "s \<noteq> x" using d by simp
  have fr: "free_employ_simple_memory p (x + 32) = Some (p\<lparr>mblk := m3\<rparr>)"
    using v nz simple_check_live[OF inv, of x] pvx sx
    by (simp add: free_employ_simple_memory_def Let_def m3_def)
  have o: "m3 y = ?m y" if "y \<in> set as" for y
    using that d nx by (cases cs) (auto simp: m3_def)
  have o1: "m3 c = (?m c)\<lparr>blk_prev := s\<rparr>" if "cs = c # ds" for c ds
    using that d nx vc[of c] by (auto simp: m3_def)
  have o2: "m3 y = ?m y" if "cs = c # ds" "y \<in> set ds" for c ds y
    using that d nx by (auto simp: m3_def)
  have s3: "m3 s = ?m2 s" using d nx by (cases cs) (auto simp: m3_def)
  have rel: "pool_chain (p\<lparr>mblk := m3\<rparr>) (as @ s # cs)"
      "map (abs_block m3) (as @ s # cs) = release (unat x) (map (abs_block ?m) (as @ s # x # cs))"
    using release_later_block[where m' = m3, OF pc _ _ _ _ _ o o1 o2] s3 sx by simp_all
  have "\<forall>y\<in>set (as @ s # cs). magic (m3 y) = MEMORY_POOL_MAGIC"
    using inv s3 o o1 o2 by (cases cs) (auto simp: simple_inv_def)
  then have "simple_inv (p\<lparr>mblk := m3\<rparr>) (as @ s # cs)" using rel(1) by (simp add: simple_inv_def)
  moreover have "pool_blocks (p\<lparr>mblk := m3\<rparr>) = release (unat x) (pool_blocks p)"
    using pool_blocks_chain[OF rel(1)] pool_blocks_chain[OF pc] rel(2) by simp
  ultimately show ?thesis using fr by (auto simp: pool_arena_def)
qed

lemma simple_free_block:
  assumes inv: "simple_inv p xs" and x: "x \<in> set xs" and v: "isValid (x + 32)"
  shows "\<exists>p' ys. free_employ_simple_memory p (x + 32) = Some p' \<and> simple_inv p' ys \<and>
           pool_arena p' = pool_arena p \<and> pool_blocks p' = release (unat x) (pool_blocks p)"
proof -
  obtain as cs where xs: "xs = as @ x # cs" using x by (auto dest: split_list)
  show ?thesis
  proof (cases as rule: rev_cases)
    case Nil
    then show ?thesis using simple_free_first[of p x cs] inv v xs by auto
  next
    case (snoc bs s)
    then show ?thesis using simple_free_later[of p bs s x cs] inv v xs by auto
  qed
qed

text \<open>Freeing an address that no header of the pool describes changes nothing.\<close>

lemma simple_free_foreign:
  assumes inv: "simple_inv p xs" and no: "\<forall>x\<in>set xs. q \<noteq> x + 32"
  shows "free_employ_simple_memory p q = Some p"
proof -
  note pc = simple_inv_chain[OF inv]
  note pv = pool_valid_chain[OF pc]
  have "\<not> (\<exists>x\<in>set xs. blk_base (mblk p x) = q)" using pool_block(1)[OF pc] no by auto
  then have "simple_find_base (mblk p) q (sprt_mem p) = Some False"
    using simple_find_base_chain[of "mblk p" 0 "sprt_mem p" xs "last xs" q] pv by simp
  moreover have "info_ptr p \<noteq> 0" using pv by (simp add: isValid_def)
  ultimately show ?thesis
    by (simp add: free_employ_simple_memory_def check_employ_simple_memory_def Let_def)
qed

subsection \<open>The simple allocator keeps the allocator contract\<close>

definition simple_adm :: "mem_info \<Rightarrow> u32 \<Rightarrow> bool" where
  "simple_adm p n \<longleftrightarrow> request_fits n"

interpretation simple: chain_allocator simple_inv alloc_spare_simple_memory free_employ_simple_memory simple_adm
proof unfold_locales
  fix p xs n assume i: "simple_inv p xs" and n: "simple_adm p n"
  let ?P = "\<lambda>x. request_len n \<le> blk_remain (mblk p x)"
  have fits: "request_fits n" using n by (simp add: simple_adm_def)
  show "(alloc_spare_simple_memory p n = Some (p, 0) \<and> (\<forall>x\<in>set xs. \<not> ?P x)) \<or>
     (\<exists>x\<in>set xs. \<exists>p' q ys. ?P x \<and> alloc_spare_simple_memory p n = Some (p', q) \<and> simple_inv p' ys \<and>
        pool_arena p' = pool_arena p \<and> q \<noteq> 0 \<and> 8 dvd unat q \<and>
        unat q = unat x + unat (blk_used (mblk p x)) + 32 \<and>
        pool_blocks p' = carve (unat x) (unat (request_len n)) (pool_blocks p))"
  proof (cases "find ?P xs")
    case None
    then show ?thesis using simple_alloc_none[OF i] by (auto simp: find_None_iff)
  next
    case (Some x)
    then have "x \<in> set xs" "?P x" by (auto simp: find_Some_iff)
    then show ?thesis using simple_alloc_fit[OF i fits Some] by blast
  qed
qed (use simple_free_block in \<open>blast | simp add: simple_adm_def simple_inv_chain\<close>)+

subsection \<open>Properties\<close>

text \<open>C5: whatever sequence of admissible requests and releases a freshly created simple pool
  serves, the regions it has handed out are pairwise disjoint and lie inside the memory it was
  given.\<close>

theorem simple_run_regions:
  assumes "isValid (info_ptr p)" and "\<not> isValid (sprt_mem p)"
    and "unat mem_addr + unat sz < 4294963200" and "40 \<le> unat sz" and "0 < unat mem_addr"
    and "mem_reach alloc_spare_simple_memory free_employ_simple_memory pool_live simple_adm
           (fst (memory_simple_block_create p mem_addr sz)) t"
  shows "pairwise disjoint_regions (pool_live t) \<and>
         (\<forall>(a, k) \<in> pool_live t. unat mem_addr \<le> a \<and> a + k \<le> unat mem_addr + unat sz)"
proof -
  note cr = simple_create_inv[OF assms(1-5)]
  have "unat mem_addr \<le> unat (mrt_num_align8 mem_addr)" using align8_bounds(1)[of mem_addr] assms(3,4) by simp
  moreover have "Ex (simple_inv (fst (memory_simple_block_create p mem_addr sz)))" using cr(1) by blast
  note simple.reach_regions[OF this assms(6)]
  ultimately show ?thesis using cr(4) by fastforce
qed

text \<open>Why admissible requests are bounded: the rounded size is computed modulo \<open>2 ^ 32\<close>, so that a request of
  \<open>2 ^ 32 - 1\<close> bytes is served like one of 0 bytes.\<close>

lemma simple_alloc_wraps: "alloc_spare_simple_memory p 0xFFFFFFFF = alloc_spare_simple_memory p 0"
  by (simp add: alloc_spare_simple_memory_def align8_wraps)

subsection \<open>Witnesses\<close>

definition simple0 :: mem_info where
  "simple0 = demo_info\<lparr>info_base := 8192, info_lenth := 4096, mblk := (\<lambda>_. zero_block)(8192 :=
     \<lparr>magic = MEMORY_POOL_MAGIC, blk_base = 8224, blk_lenth = 4096, blk_remain = 4096, blk_prev = 0, blk_next = 0\<rparr>),
     sprt_mem := 8192, mlink := init_hash_heads (init_list_head (mlink demo_info) (Link 8192)),
     alloc_fn := Some SimpleMem, free_fn := Some SimpleMem\<rparr>"

lemma simple0: "fst (memory_simple_block_create demo_info 0x2000 0x1000) = simple0"
  by (simp add: simple0_def memory_simple_block_create_def mem_eval demo_info_def)

definition simple1 :: mem_info where
  "simple1 = simple0\<lparr>mblk := (mblk simple0)(8192 := (mblk simple0 8192)\<lparr>blk_remain := 4048\<rparr>)\<rparr>"

definition simple2 :: mem_info where
  "simple2 = fst (the (alloc_spare_simple_memory simple1 8))"

lemma simple1: "alloc_spare_simple_memory simple0 16 = Some (simple1, 8224)"
  by (simp add: alloc_spare_simple_memory_def simple1_def simple0_def mem_eval demo_info_def simple_first_fit.simps)

lemma simple2: "alloc_spare_simple_memory simple1 8 = Some (simple2, 8272)"
  by (simp add: simple2_def alloc_spare_simple_memory_def simple1_def simple0_def mem_eval demo_info_def
      simple_first_fit.simps)

lemma simple2_live: "pool_live simple2 = {(8224, 16), (8272, 8)}"
  by (simp add: pool_live_def simple2_def alloc_spare_simple_memory_def simple1_def simple0_def mem_eval demo_info_def
      simple_first_fit.simps pool_blocks_def chain_walk.simps mem_split_def abs_block_def blk_used_def)

theorem simple_run_regions_witness: "disjoint_regions (8224, 16) (8272, 8) \<and> pairwise disjoint_regions (pool_live simple2)"
proof -
  let ?R = "mem_reach alloc_spare_simple_memory free_employ_simple_memory pool_live simple_adm"
  have "?R simple0 simple0" by (rule reach_refl)
  then have "?R simple0 simple1" by (rule reach_alloc) (use simple1 in \<open>auto simp: simple_adm_def request_fits_def\<close>)
  then have r: "?R simple0 simple2" by (rule reach_alloc) (use simple2 in \<open>auto simp: simple_adm_def request_fits_def\<close>)
  have "isValid (info_ptr demo_info)" "\<not> isValid (sprt_mem demo_info)"
    by (simp_all add: demo_info_def isValid_iff)
  then have "pairwise disjoint_regions (pool_live simple2)"
    using simple_run_regions[of demo_info "0x2000" "0x1000" simple2] r by (simp add: simple0)
  then show ?thesis by (simp add: simple2_live pairwise_insert)
qed

end
