(* ===== verification/Mem_Block.thy ===== *)
theory Mem_Block
  imports Mem_Interface
begin

text \<open>
  \<^verbatim>\<open>src/common/mempool/mem_block.c\<close>: the allocator that keeps its free remainders on fourteen lists,
  one per power of two, each ordered by address. The lists are rings in the store of links;
  an entry \<^term>\<open>Link b\<close> of a list stands for the header at address \<open>b\<close>.
\<close>

subsection \<open>Selecting a list\<close>

text \<open>\<^verbatim>\<open>while (!(total_size & (1U << index))) index--;\<close> where a negative shift has no value.\<close>

primrec hash_index_down :: "u32 \<Rightarrow> nat \<Rightarrow> nat option" where
  "hash_index_down total_size 0 = (if total_size AND push_bit 0 1 \<noteq> 0 then Some 0 else None)"
| "hash_index_down total_size (Suc index) =
     (if total_size AND push_bit (Suc index) 1 \<noteq> 0 then Some (Suc index)
      else hash_index_down total_size index)"

definition memory_block_get_hash :: "u32 \<Rightarrow> nat option" where
  "memory_block_get_hash total_size =
     (if total_size \<ge> NR_MEM_HighLimit then Some NR_MEM_HighBytes
      else if total_size < NR_MEM_LowerLimit then Some NR_MEM_LowerBytes
      else hash_index_down total_size NR_MEM_HighBytes)"

definition memory_block_attach :: "mem_info \<Rightarrow> nat option \<Rightarrow> u32 \<Rightarrow> mem_info option" where
  "memory_block_attach p sprt_hash sprt_block =
     (if blk_remain (mblk p sprt_block) = 0 then Some p
      else do {
        index \<leftarrow> (case sprt_hash of Some i \<Rightarrow> Some i
                  | None \<Rightarrow> memory_block_get_hash (blk_remain (mblk p sprt_block)));
        let l = init_list_head (mlink p) (Link sprt_block);
        if mrt_list_head_empty l (Hash index)
        then Some (p\<lparr>mlink := list_head_add_head l (Hash index) (Link sprt_block)\<rparr>)
        else do {
          found \<leftarrow> foreach_list_next_entry l (Hash index)
                    (\<lambda>e. case e of Link sprt_per \<Rightarrow> sprt_block < sprt_per | _ \<Rightarrow> False);
          (case found of
             Some sprt_per \<Rightarrow> Some (p\<lparr>mlink := list_head_add_tail l sprt_per (Link sprt_block)\<rparr>)
           | None \<Rightarrow> Some (p\<lparr>mlink := list_head_add_tail l (Hash index) (Link sprt_block)\<rparr>))
        }
      })"

definition memory_block_detach :: "mem_info \<Rightarrow> u32 \<Rightarrow> mem_info" where
  "memory_block_detach p sprt_block = p\<lparr>mlink := list_head_del (mlink p) (Link sprt_block)\<rparr>"

subsection \<open>Creation and destruction\<close>

definition memory_block_create :: "mem_info \<Rightarrow> u32 \<Rightarrow> u32 \<Rightarrow> (mem_info \<times> int) option" where
  "memory_block_create p mem_addr sz =
     (let header_size = MEM_BLOCK_HEADER_SIZE in
      if \<not> isValid (info_ptr p) \<or> sz \<le> header_size then Some (p, - ER_UNVALID)
      else if isValid (sprt_mem p) then Some (p, - ER_UNVALID)
      else
        let base = mrt_num_align8 mem_addr;
            lenth = sz - (base - mem_addr);
            sprt_block = base;
            p1 = p\<lparr>info_base := base, info_lenth := lenth,
                   mblk := (mblk p)(sprt_block :=
                     \<lparr>magic = MEMORY_POOL_MAGIC, blk_base = base + header_size, blk_lenth = lenth,
                      blk_remain = lenth, blk_prev = 0, blk_next = 0\<rparr>),
                   sprt_mem := sprt_block, mlink := init_hash_heads (mlink p),
                   alloc_fn := Some BlockMem, free_fn := Some BlockMem\<rparr>
        in do { p2 \<leftarrow> memory_block_attach p1 None sprt_block; Some (p2, ER_NORMAL) })"

definition memory_block_destroy :: "mem_info \<Rightarrow> mem_info" where
  "memory_block_destroy p =
     (if \<not> isValid (info_ptr p) then p
      else p\<lparr>mblk := kmemzero_blocks (mblk p) (info_base p) (info_lenth p),
             info_base := 0, info_lenth := 0, sprt_mem := 0, mlink := zero_hash_heads (mlink p),
             alloc_fn := None, free_fn := None\<rparr>)"

subsection \<open>Finding a block\<close>

text \<open>\<^verbatim>\<open>__memory_block_get_avaliable\<close>: the first entry of one list with enough remaining bytes.\<close>

definition get_avaliable_in :: "mem_info \<Rightarrow> nat \<Rightarrow> u32 \<Rightarrow> u32 option option" where
  "get_avaliable_in p index total_size = do {
     found \<leftarrow> foreach_list_next_entry (mlink p) (Hash index)
               (\<lambda>e. case e of Link sprt_block \<Rightarrow> blk_remain (mblk p sprt_block) \<ge> total_size | _ \<Rightarrow> False);
     (case found of Some (Link sprt_block) \<Rightarrow> Some (Some sprt_block) | _ \<Rightarrow> Some None)
   }"

function get_avaliable_up :: "mem_info \<Rightarrow> u32 \<Rightarrow> nat \<Rightarrow> u32 option option" where
  "get_avaliable_up p total_size index =
     (if index < NR_MEM_NUM then do {
        found \<leftarrow> get_avaliable_in p index total_size;
        (case found of Some sprt_block \<Rightarrow> Some (Some sprt_block)
         | None \<Rightarrow> get_avaliable_up p total_size (index + 1))
      } else Some None)"
  by pat_completeness auto
termination by (relation "measure (\<lambda>(p, t, i). NR_MEM_NUM - i)") auto

declare get_avaliable_up.simps [simp del]

definition memory_block_get_avaliable :: "mem_info \<Rightarrow> u32 \<Rightarrow> u32 option option" where
  "memory_block_get_avaliable p total_size =
     (if total_size \<ge> NR_MEM_HighLimit then get_avaliable_in p NR_MEM_HighBytes total_size
      else do {
        low \<leftarrow> (if total_size < NR_MEM_LowerLimit then get_avaliable_in p NR_MEM_LowerBytes total_size
                else Some None);
        (case low of
           Some sprt_block \<Rightarrow> Some (Some sprt_block)
         | None \<Rightarrow>
             let total_size' = (if total_size < NR_MEM_LowerLimit then NR_MEM_LowerLimit else total_size)
             in do {
               index \<leftarrow> hash_index_down total_size' NR_MEM_HighBytes;
               get_avaliable_up p total_size' index
             })
      })"

subsection \<open>Allocation and release\<close>

definition alloc_spare_memory :: "mem_info \<Rightarrow> u32 \<Rightarrow> (mem_info \<times> u32) option" where
  "alloc_spare_memory p sz =
     (if \<not> isValid (info_ptr p) \<or> sprt_mem p = 0 then Some (p, 0)
      else
        let lenth = mrt_num_align8 sz + MEM_BLOCK_HEADER_SIZE in
        do {
          found \<leftarrow> memory_block_get_avaliable p lenth;
          (case found of
             None \<Rightarrow> Some (p, 0)
           | Some sprt_block \<Rightarrow>
               let p1 = memory_block_detach p sprt_block;
                   blk = mblk p1 sprt_block;
                   offset = blk_lenth blk - blk_remain blk;
                   ptr_mem = blk_base blk + offset
               in do {
                 p2 \<leftarrow> (if blk_lenth blk \<noteq> blk_remain blk
                        then memory_block_attach (p1\<lparr>mblk := mem_split (mblk p1) sprt_block lenth\<rparr>) None
                               (ptr_mem - MEM_BLOCK_HEADER_SIZE)
                        else Some (p1\<lparr>mblk := (mblk p1)(sprt_block :=
                               blk\<lparr>magic := MEMORY_POOL_MAGIC, blk_remain := blk_remain blk - lenth\<rparr>)\<rparr>));
                 p3 \<leftarrow> memory_block_attach p2 None sprt_block;
                 Some (p3, ptr_mem)
               })
        })"

definition check_employ_memory :: "block_store \<Rightarrow> u32 \<Rightarrow> u32" where
  "check_employ_memory m ptr_mem =
     (let sprt_block = ptr_mem - MEM_BLOCK_HEADER_SIZE in
      if \<not> isValid sprt_block \<or> \<not> IS_MEMORYPOOL_VALID m sprt_block then 0
      else if blk_base (m sprt_block) \<noteq> ptr_mem then 0
      else sprt_block)"

definition free_employ_memory :: "mem_info \<Rightarrow> u32 \<Rightarrow> mem_info option" where
  "free_employ_memory p ptr_mem =
     (if \<not> isValid ptr_mem then Some p
      else if info_ptr p = 0 then None
      else
        let sprt_block = check_employ_memory (mblk p) ptr_mem in
        if sprt_block = 0 then Some p
        else
          let m = (mblk p)(sprt_block := (mblk p sprt_block)\<lparr>magic := 0\<rparr>);
              sprt_prev = blk_prev (m sprt_block);
              sprt_next = blk_next (m sprt_block);
              m1 = m(sprt_block := (m sprt_block)\<lparr>blk_remain := blk_lenth (m sprt_block)\<rparr>);
              p1 = memory_block_detach (p\<lparr>mblk := m1\<rparr>) sprt_block;
              (p2, sprt_block') =
                (if isValid sprt_prev
                 then
                   let m2 = m1(sprt_prev := (m1 sprt_prev)
                              \<lparr>blk_lenth := blk_lenth (m1 sprt_prev) + blk_lenth (m1 sprt_block),
                               blk_remain := blk_remain (m1 sprt_prev) + blk_remain (m1 sprt_block),
                               blk_next := sprt_next\<rparr>);
                       m3 = m2(sprt_block := (m2 sprt_block)\<lparr>blk_prev := 0\<rparr>)
                   in (memory_block_detach (p1\<lparr>mblk := m3\<rparr>) sprt_prev, sprt_prev)
                 else (p1, sprt_block));
              m4 = (if isValid sprt_next
                    then (mblk p2)(sprt_next := (mblk p2 sprt_next)\<lparr>blk_prev := sprt_block'\<rparr>)
                    else mblk p2)
          in memory_block_attach (p2\<lparr>mblk := m4\<rparr>) None sprt_block')"

subsection \<open>The size classes\<close>

text \<open>\<open>in_class t i\<close>: list \<open>i\<close> is the one the header documents for \<open>t\<close> remaining bytes.\<close>

definition in_class :: "u32 \<Rightarrow> nat \<Rightarrow> bool" where
  "in_class t i \<longleftrightarrow> (i = 4 \<and> unat t < 32) \<or> (5 \<le> i \<and> i \<le> 12 \<and> 2 ^ i \<le> unat t \<and> unat t < 2 ^ Suc i) \<or>
     (i = 13 \<and> 8192 \<le> unat t)"

lemma in_class_unique: "in_class t i \<Longrightarrow> in_class t j \<Longrightarrow> i = j"
proof -
  assume ij: "in_class t i" "in_class t j"
  have le: "i \<le> j" if "in_class t i" "in_class t j" for i j
  proof (rule ccontr)
    assume "\<not> i \<le> j"
    then have "(2::nat) ^ Suc j \<le> 2 ^ i" by (intro power_increasing) auto
    moreover have "(2::nat) ^ Suc 4 = 32" "(2::nat) ^ 13 = 8192" by simp_all
    ultimately show False using that \<open>\<not> i \<le> j\<close> by (auto simp: in_class_def)
  qed
  show ?thesis using le ij by (meson le_antisym)
qed

lemma in_class_mono:
  assumes "in_class t i" "in_class s j" "t \<le> s"
  shows "i \<le> j"
proof (rule ccontr)
  assume "\<not> i \<le> j"
  then have "(2::nat) ^ Suc j \<le> 2 ^ i" by (intro power_increasing) auto
  moreover have "(2::nat) ^ Suc 4 = 32" "(2::nat) ^ 13 = 8192" by simp_all
  ultimately show False using assms \<open>\<not> i \<le> j\<close> by (auto simp: in_class_def word_le_nat_alt)
qed

lemma bit_top:
  assumes "unat (t :: u32) < 2 ^ Suc k"
  shows "bit t k \<longleftrightarrow> 2 ^ k \<le> unat t"
proof -
  have "bit t k \<longleftrightarrow> odd (unat t div 2 ^ k)"
    by (metis bit_iff_odd bit_unsigned_iff possible_bit_nat unsigned_0 bit_imp_possible_bit)
  moreover have "unat t div 2 ^ k < 2" using assms by (simp add: less_mult_imp_div_less)
  moreover have "unat t div 2 ^ k = 0 \<longleftrightarrow> unat t < 2 ^ k" by (simp add: div_eq_0_iff)
  ultimately show ?thesis by (cases "unat t div 2 ^ k") auto
qed

lemma hash_index_down_top:
  assumes "unat t < 2 ^ Suc i" and "t \<noteq> 0" and "i < 32"
  shows "\<exists>j. hash_index_down t i = Some j \<and> 2 ^ j \<le> unat t \<and> unat t < 2 ^ Suc j"
  using assms
proof (induction i)
  case 0
  then have "unat t < 2" "0 < unat t" by (simp_all add: unat_gt_0)
  then have "unat t = 1" by linarith
  then have "t = 1" by (simp add: word_unat_eq_iff)
  then show ?case by simp
next
  case (Suc i)
  have b: "(t AND push_bit (Suc i) 1 \<noteq> 0) \<longleftrightarrow> 2 ^ Suc i \<le> unat t"
    using bit_top[OF Suc.prems(1)] by (simp add: bit_iff_and_push_bit_not_eq_0)
  show ?case
  proof (cases "2 ^ Suc i \<le> unat t")
    case True
    then show ?thesis using b Suc.prems(1) by auto
  next
    case False
    then show ?thesis using b Suc by simp
  qed
qed

lemma get_hash_class: "\<exists>i < 14. memory_block_get_hash t = Some i \<and> in_class t i"
proof -
  have lim: "NR_MEM_HighLimit \<le> t \<longleftrightarrow> 8192 \<le> unat t" "t < NR_MEM_LowerLimit \<longleftrightarrow> unat t < 32"
    by (simp_all add: NR_MEM_HighLimit_def NR_MEM_LowerLimit_def NR_MEM_HighBytes_def
        NR_MEM_LowerBytes_def word_le_nat_alt word_less_nat_alt)
  consider "8192 \<le> unat t" | "unat t < 32" | "32 \<le> unat t" "unat t < 8192" by linarith
  then show ?thesis
  proof cases
    case 3
    have "unat t < 2 ^ Suc 13" "t \<noteq> 0" using 3 by auto
    from hash_index_down_top[OF this] obtain j
      where j: "hash_index_down t 13 = Some j" "2 ^ j \<le> unat t" "unat t < 2 ^ Suc j" by auto
    have "(2::nat) ^ j < 2 ^ 13" "(2::nat) ^ 5 < 2 ^ Suc j" using 3 j by simp_all
    then have "j < 13" "5 < Suc j" by (metis power_less_imp_less_exp one_less_numeral_iff semiring_norm(76))+
    then show ?thesis using 3 j
      by (simp add: memory_block_get_hash_def lim NR_MEM_HighBytes_def in_class_def)
  qed (simp_all add: memory_block_get_hash_def lim NR_MEM_HighBytes_def NR_MEM_LowerBytes_def in_class_def)
qed

subsection \<open>The lists hold exactly the blocks with bytes left\<close>

definition bucket :: "block_store \<Rightarrow> nat \<Rightarrow> u32 list \<Rightarrow> u32 list" where
  "bucket m i xs = filter (\<lambda>x. blk_remain (m x) \<noteq> 0 \<and> in_class (blk_remain (m x)) i) xs"

definition buckets :: "block_store \<Rightarrow> mem_link lheap \<Rightarrow> u32 list \<Rightarrow> bool" where
  "buckets m l xs \<longleftrightarrow>
     (\<forall>i < 14. ring l (Hash i) (map Link (bucket m i xs))) \<and>
     (\<forall>x \<in> set xs. blk_remain (m x) = 0 \<longrightarrow> ring l (Link x) [])"

lemma bucket_cong:
  "(\<And>x. x \<in> set xs \<Longrightarrow> blk_remain (m' x) = blk_remain (m x)) \<Longrightarrow> bucket m' i xs = bucket m i xs"
  by (auto simp: bucket_def intro: filter_cong)

lemma buckets_change:
  "buckets m l xs \<Longrightarrow> \<forall>x \<in> set xs. blk_remain (m' x) = blk_remain (m x) \<Longrightarrow> buckets m' l xs"
  using bucket_cong[of xs m' m] by (auto simp: buckets_def)

lemma bucket_append [simp]: "bucket m i (xs @ ys) = bucket m i xs @ bucket m i ys"
  by (simp add: bucket_def)

lemma bucket_Cons: "bucket m i (x # xs) =
    (if blk_remain (m x) \<noteq> 0 \<and> in_class (blk_remain (m x)) i then x # bucket m i xs else bucket m i xs)"
  by (simp add: bucket_def)

lemma bucket_set: "x \<in> set (bucket m i xs) \<longleftrightarrow>
    x \<in> set xs \<and> blk_remain (m x) \<noteq> 0 \<and> in_class (blk_remain (m x)) i"
  by (auto simp: bucket_def)

text \<open>Updates of one list leave every other list and every unlisted block alone.\<close>

lemma buckets_frame:
  assumes b: "buckets m l xs" and i: "i < 14"
    and o: "\<forall>q. q \<notin> insert (Hash i) (insert (Link z) (Link ` set (bucket m i xs))) \<longrightarrow> l' q = l q"
    and z: "z \<notin> set xs \<or> z \<in> set (bucket m i xs)"
  shows "\<And>j. j < 14 \<Longrightarrow> j \<noteq> i \<Longrightarrow> ring l' (Hash j) (map Link (bucket m j xs))"
    and "\<And>x. x \<in> set xs \<Longrightarrow> blk_remain (m x) = 0 \<Longrightarrow> ring l' (Link x) []"
proof -
  fix j assume j: "j < 14" "j \<noteq> i"
  show "ring l' (Hash j) (map Link (bucket m j xs))"
  proof (rule ring_frame)
    show "ring l (Hash j) (map Link (bucket m j xs))" using b j by (simp add: buckets_def)
    fix q assume "q \<in> insert (Hash j) (set (map Link (bucket m j xs)))"
    then show "l' q = l q" using j z by (auto simp: bucket_set intro!: o[rule_format] dest: in_class_unique)
  qed
next
  fix x assume x: "x \<in> set xs" "blk_remain (m x) = 0"
  show "ring l' (Link x) []"
  proof (rule ring_frame)
    show "ring l (Link x) []" using b x by (simp add: buckets_def)
    fix q assume "q \<in> insert (Link x) (set [])"
    then show "l' q = l q" using x z by (auto simp: bucket_set intro!: o[rule_format])
  qed
qed

lemma buckets_fresh_link:
  assumes b: "buckets m l xs" and x: "x \<notin> set xs" and o: "\<And>q. q \<noteq> Link x \<Longrightarrow> l' q = l q"
  shows "buckets m l' xs"
proof -
  have "ring l' (Hash i) (map Link (bucket m i xs))" if "i < 14" for i
    by (rule ring_frame[where h = l]) (use b that x in \<open>auto simp: buckets_def bucket_set intro!: o\<close>)
  moreover have "ring l' (Link y) []" if "y \<in> set xs" "blk_remain (m y) = 0" for y
    by (rule ring_frame[where h = l]) (use b that x in \<open>auto simp: buckets_def intro!: o\<close>)
  ultimately show ?thesis by (simp add: buckets_def)
qed

lemma del_self_id: "ring h x [] \<Longrightarrow> list_head_del h x = h"
  by (auto simp: ring_def list_head_del_def Let_def init_list_head_def set_next_def set_prev_def fun_eq_iff)

lemma detach_buckets:
  assumes b: "buckets m l (as @ x # cs)" and d: "distinct (as @ x # cs)"
  shows "buckets m (list_head_del l (Link x)) (as @ cs)"
    and "ring (list_head_del l (Link x)) (Link x) []"
proof -
  let ?l = "list_head_del l (Link x)" and ?xs = "as @ x # cs"
  have "ring l (Hash 0) (map Link (bucket m 0 ?xs))" using b by (simp only: buckets_def)
  then show "ring ?l (Link x) []" by (rule del_ring_self)
  show "buckets m ?l (as @ cs)"
  proof (cases "blk_remain (m x) = 0")
    case True
    then have "?l = l" using b by (intro del_self_id) (simp add: buckets_def)
    then show ?thesis using b True by (simp add: buckets_def bucket_Cons)
  next
    case False
    obtain i where i: "i < 14" "in_class (blk_remain (m x)) i" using get_hash_class by blast
    have r: "ring l (Hash i) (map Link (bucket m i ?xs))" using b i by (simp add: buckets_def)
    have xb: "x \<in> set (bucket m i ?xs)" using False i by (simp add: bucket_set)
    have o: "\<forall>q. q \<notin> insert (Hash i) (insert (Link x) (Link ` set (bucket m i ?xs))) \<longrightarrow> ?l q = l q"
      using del_other[OF r, of "Link x"] xb by auto
    note fr = buckets_frame[OF b i(1) o disjI2[OF xb]]
    have ri: "ring ?l (Hash i) (map Link (bucket m i (as @ cs)))"
      using del_ring_at[of l "Hash i" "map Link (bucket m i as)" "Link x" "map Link (bucket m i cs)"]
        r False i by (simp add: bucket_Cons)
    have "ring ?l (Hash j) (map Link (bucket m j (as @ cs)))" if "j < 14" for j
    proof (cases "j = i")
      case False
      then have "\<not> in_class (blk_remain (m x)) j" using i(2) in_class_unique by blast
      then show ?thesis using fr(1)[OF that False] by (simp add: bucket_Cons)
    qed (use ri in simp)
    then show ?thesis using fr(2) by (auto simp: buckets_def)
  qed
qed

text \<open>The insertion of \<^const>\<open>memory_block_attach\<close> into a list whose entries are ordered by address.\<close>

lemma attach_link:
  assumes r: "ring l (Hash i) (map Link (A @ C))" and lo: "\<forall>y \<in> set A. y < x" and hi: "\<forall>y \<in> set C. x < y"
    and ne: "blk_remain (mblk p x) \<noteq> 0" "memory_block_get_hash (blk_remain (mblk p x)) = Some i"
    and l: "l = init_list_head (mlink p) (Link x)"
  shows "\<exists>l'. memory_block_attach p None x = Some (p\<lparr>mlink := l'\<rparr>) \<and>
           ring l' (Hash i) (map Link (A @ x # C)) \<and>
           (\<forall>q. q \<notin> insert (Hash i) (insert (Link x) (Link ` set (A @ C))) \<longrightarrow> l' q = l q)"
proof -
  let ?P = "\<lambda>e. case e of Link sprt_per \<Rightarrow> x < sprt_per | _ \<Rightarrow> False"
  have fresh: "Link x \<notin> insert (Hash i) (set (map Link (A @ C)))" using lo hi by auto
  have em: "mrt_list_head_empty l (Hash i) \<longleftrightarrow> A @ C = []" using ring_empty_iff[OF r] by simp
  have nA: "find ?P (map Link A @ ys) = find ?P ys" for ys
    using lo by (induction A) auto
  have fd: "foreach_list_next_entry l (Hash i) ?P =
      Some (case C of [] \<Rightarrow> None | c # _ \<Rightarrow> Some (Link c))"
    using foreach_list_next_entry_ring[OF r, of ?P] nA[of "map Link C"] hi by (cases C) auto
  have at: "memory_block_attach p None x =
      (if A @ C = [] then Some (p\<lparr>mlink := list_head_add_head l (Hash i) (Link x)\<rparr>)
       else case C of [] \<Rightarrow> Some (p\<lparr>mlink := list_head_add_tail l (Hash i) (Link x)\<rparr>)
            | c # _ \<Rightarrow> Some (p\<lparr>mlink := list_head_add_tail l (Link c) (Link x)\<rparr>))"
    using ne em fd by (auto simp: memory_block_attach_def l[symmetric] Let_def split: list.splits)
  show ?thesis
  proof (cases C)
    case Nil
    let ?f = "if A = [] then list_head_add_head else list_head_add_tail"
    have "ring (?f l (Hash i) (Link x)) (Hash i) (map Link (A @ x # C))"
      using add_head_ring[OF r fresh] add_tail_ring[OF r fresh] Nil by auto
    moreover have "?f l (Hash i) (Link x) q = l q"
      if "q \<notin> insert (Hash i) (insert (Link x) (Link ` set (A @ C)))" for q
      using add_head_other[OF r, of "Hash i" q "Link x"] add_tail_other[OF r, of "Hash i" q "Link x"] that
      by auto
    moreover have "memory_block_attach p None x = Some (p\<lparr>mlink := ?f l (Hash i) (Link x)\<rparr>)"
      using at Nil by auto
    ultimately show ?thesis by blast
  next
    case (Cons c D)
    have "ring (list_head_add_tail l (Link c) (Link x)) (Hash i) (map Link (A @ x # C))"
      using add_tail_at[of l "Hash i" "map Link A" "Link c" "map Link D" "Link x"] r fresh Cons by auto
    moreover have "list_head_add_tail l (Link c) (Link x) q = l q"
      if "q \<notin> insert (Hash i) (insert (Link x) (Link ` set (A @ C)))" for q
      using add_tail_other[OF r, of "Link c" q "Link x"] that Cons by auto
    ultimately show ?thesis using at Cons by auto
  qed
qed

lemma attach_buckets:
  assumes b: "buckets (mblk p) (mlink p) (as @ cs)" and s: "sorted_wrt (<) (as @ x # cs)"
    and self: "blk_remain (mblk p x) = 0 \<Longrightarrow> ring (mlink p) (Link x) []"
  shows "\<exists>l'. memory_block_attach p None x = Some (p\<lparr>mlink := l'\<rparr>) \<and> buckets (mblk p) l' (as @ x # cs) \<and>
           (\<forall>y. y \<notin> set (as @ x # cs) \<longrightarrow> l' (Link y) = mlink p (Link y))"
proof (cases "blk_remain (mblk p x) = 0")
  case True
  then have "buckets (mblk p) (mlink p) (as @ x # cs)" using b self by (auto simp: buckets_def bucket_Cons)
  then show ?thesis using True by (auto simp: memory_block_attach_def intro!: exI[of _ "mlink p"])
next
  case False
  let ?m = "mblk p" and ?l = "init_list_head (mlink p) (Link x)"
  obtain i where i: "i < 14" "memory_block_get_hash (blk_remain (?m x)) = Some i" "in_class (blk_remain (?m x)) i"
    using get_hash_class by blast
  have x: "x \<notin> set (as @ cs)" using s by (auto simp: sorted_wrt_append)
  have same: "?l q = mlink p q" if "q \<noteq> Link x" for q using that by (rule init_list_head_other)
  have bl: "buckets ?m ?l (as @ cs)" by (rule buckets_fresh_link[OF b x same])
  have r: "ring ?l (Hash i) (map Link (bucket ?m i as @ bucket ?m i cs))"
    using bl i(1) by (simp add: buckets_def)
  have lo: "\<forall>y\<in>set (bucket ?m i as). y < x" and hi: "\<forall>y\<in>set (bucket ?m i cs). x < y"
    using s by (auto simp: sorted_wrt_append bucket_set)
  obtain l' where l': "memory_block_attach p None x = Some (p\<lparr>mlink := l'\<rparr>)"
      "ring l' (Hash i) (map Link (bucket ?m i as @ x # bucket ?m i cs))"
      "\<forall>q. q \<notin> insert (Hash i) (insert (Link x) (Link ` set (bucket ?m i (as @ cs)))) \<longrightarrow> l' q = ?l q"
    using attach_link[OF r lo hi False i(2) refl] by auto
  note fr = buckets_frame[OF bl i(1) l'(3) disjI1[OF x]]
  have "ring l' (Hash j) (map Link (bucket ?m j (as @ x # cs)))" if "j < 14" for j
  proof (cases "j = i")
    case True
    then show ?thesis using l'(2) False i(3) by (simp add: bucket_Cons)
  next
    case False
    then have "\<not> in_class (blk_remain (?m x)) j" using i(3) in_class_unique by blast
    then show ?thesis using fr(1)[OF that False] by (simp add: bucket_Cons)
  qed
  moreover have "l' (Link y) = mlink p (Link y)" if "y \<notin> set (as @ x # cs)" for y
    using l'(3)[rule_format, of "Link y"] same[of "Link y"] that by (auto simp: bucket_set image_iff)
  ultimately show ?thesis using l'(1) fr(2) False by (auto simp: buckets_def)
qed

subsection \<open>The search is complete\<close>

lemma get_avaliable_in_bucket:
  assumes "buckets (mblk p) (mlink p) xs" and "i < 14"
  shows "get_avaliable_in p i t = Some (find (\<lambda>x. t \<le> blk_remain (mblk p x)) (bucket (mblk p) i xs))"
proof -
  let ?P = "\<lambda>e. case e of Link x \<Rightarrow> t \<le> blk_remain (mblk p x) | _ \<Rightarrow> False"
  have fm: "find ?P (map Link ys) = map_option Link (find (\<lambda>x. t \<le> blk_remain (mblk p x)) ys)" for ys
    by (induction ys) auto
  have "ring (mlink p) (Hash i) (map Link (bucket (mblk p) i xs))" using assms by (simp add: buckets_def)
  then show ?thesis
    using foreach_list_next_entry_ring[of "mlink p" "Hash i" _ ?P]
    by (auto simp: get_avaliable_in_def fm split: option.splits)
qed

lemma get_avaliable_up_spec:
  assumes "buckets (mblk p) (mlink p) xs" and "i \<le> 14"
  shows "\<exists>r. get_avaliable_up p t i = Some r \<and>
    (case r of None \<Rightarrow> \<forall>j<14. i \<le> j \<longrightarrow> (\<forall>x\<in>set (bucket (mblk p) j xs). \<not> t \<le> blk_remain (mblk p x))
     | Some x \<Rightarrow> x \<in> set xs \<and> t \<le> blk_remain (mblk p x))"
  using assms(2)
proof (induction "14 - i" arbitrary: i)
  case 0
  then show ?case by (subst get_avaliable_up.simps) (simp add: NR_MEM_NUM_def)
next
  case (Suc n)
  then have i: "i < 14" and n: "n = 14 - Suc i" "Suc i \<le> 14" by simp_all
  note gi = get_avaliable_in_bucket[OF assms(1) i, of t]
  show ?case
  proof (cases "find (\<lambda>x. t \<le> blk_remain (mblk p x)) (bucket (mblk p) i xs)")
    case (Some x)
    then have "x \<in> set xs \<and> t \<le> blk_remain (mblk p x)" by (auto simp: find_Some_iff bucket_def dest: nth_mem)
    then show ?thesis using gi Some i by (subst get_avaliable_up.simps) (simp add: NR_MEM_NUM_def)
  next
    case None
    obtain r where r: "get_avaliable_up p t (Suc i) = Some r"
      "case r of None \<Rightarrow> \<forall>j<14. Suc i \<le> j \<longrightarrow> (\<forall>x\<in>set (bucket (mblk p) j xs). \<not> t \<le> blk_remain (mblk p x))
       | Some x \<Rightarrow> x \<in> set xs \<and> t \<le> blk_remain (mblk p x)"
      using Suc.hyps(1)[OF n] by blast
    have "get_avaliable_up p t i = Some r"
      using gi None i r(1) by (subst get_avaliable_up.simps) (simp add: NR_MEM_NUM_def)
    moreover have "\<forall>x\<in>set (bucket (mblk p) i xs). \<not> t \<le> blk_remain (mblk p x)"
      using None by (simp add: find_None_iff)
    ultimately show ?thesis using r(2) le_eq_less_or_eq by (auto split: option.splits simp: Suc_le_eq)
  qed
qed

text \<open>\<^const>\<open>memory_block_get_avaliable\<close> returns a block with room, and finds one whenever one exists.\<close>

lemma get_avaliable_spec:
  assumes b: "buckets (mblk p) (mlink p) xs" and t: "32 \<le> unat t"
  shows "\<exists>r. memory_block_get_avaliable p t = Some r \<and>
    (case r of None \<Rightarrow> \<forall>x\<in>set xs. \<not> t \<le> blk_remain (mblk p x)
     | Some x \<Rightarrow> x \<in> set xs \<and> t \<le> blk_remain (mblk p x))"
proof -
  let ?m = "mblk p"
  have lim: "NR_MEM_HighLimit \<le> t \<longleftrightarrow> 8192 \<le> unat t" "\<not> t < NR_MEM_LowerLimit"
    using t by (simp_all add: NR_MEM_HighLimit_def NR_MEM_LowerLimit_def NR_MEM_HighBytes_def
        NR_MEM_LowerBytes_def word_le_nat_alt word_less_nat_alt)
  obtain i where i: "i < 14" "memory_block_get_hash t = Some i" "in_class t i" using get_hash_class by blast
  obtain r where r: "get_avaliable_up p t i = Some r"
      "case r of None \<Rightarrow> \<forall>j<14. i \<le> j \<longrightarrow> (\<forall>x\<in>set (bucket ?m j xs). \<not> t \<le> blk_remain (?m x))
       | Some x \<Rightarrow> x \<in> set xs \<and> t \<le> blk_remain (?m x)"
    using get_avaliable_up_spec[OF b, of i t] i(1) by auto
  have none: "\<forall>x\<in>set xs. \<not> t \<le> blk_remain (?m x)" if "r = None"
  proof (intro ballI notI)
    fix x assume x: "x \<in> set xs" "t \<le> blk_remain (?m x)"
    obtain j where j: "j < 14" "in_class (blk_remain (?m x)) j" using get_hash_class by blast
    moreover have "blk_remain (?m x) \<noteq> 0" using x(2) t by (auto simp: word_le_nat_alt)
    ultimately show False
      using in_class_mono[OF i(3) j(2) x(2)] r(2) that x by (auto simp: bucket_set)
  qed
  have "memory_block_get_avaliable p t = Some r"
  proof (cases "8192 \<le> unat t")
    case True
    then have "i = 13" using i(3) in_class_unique[of t i 13] by (simp add: in_class_def)
    then have "get_avaliable_up p t i = get_avaliable_in p 13 t"
      using get_avaliable_up.simps[of p t 13] get_avaliable_up.simps[of p t 14]
      by (cases "get_avaliable_in p 13 t") (auto simp: NR_MEM_NUM_def split: option.splits)
    then show ?thesis using True lim r(1) by (simp add: memory_block_get_avaliable_def NR_MEM_HighBytes_def)
  next
    case False
    then show ?thesis
      using lim i(2) r(1) by (simp add: memory_block_get_avaliable_def memory_block_get_hash_def)
  qed
  then show ?thesis using r(2) none by (auto split: option.splits)
qed

subsection \<open>The invariant and allocation\<close>

definition block_inv :: "mem_info \<Rightarrow> u32 list \<Rightarrow> bool" where
  "block_inv p xs \<longleftrightarrow> pool_chain p xs \<and> buckets (mblk p) (mlink p) xs \<and>
     (\<forall>x\<in>set xs. blk_used (mblk p x) \<noteq> 0 \<longrightarrow> magic (mblk p x) = MEMORY_POOL_MAGIC)"

definition block_wf :: "mem_info \<Rightarrow> bool" where
  "block_wf p \<longleftrightarrow> (\<exists>xs. block_inv p xs)"

lemma block_inv_parts:
  assumes "block_inv p xs"
  shows "pool_chain p xs" and "buckets (mblk p) (mlink p) xs"
    and "\<And>x. x \<in> set xs \<Longrightarrow> blk_used (mblk p x) \<noteq> 0 \<Longrightarrow> magic (mblk p x) = MEMORY_POOL_MAGIC"
  using assms by (auto simp: block_inv_def)

lemma mlink_mblk_swap: "(p :: mem_info)\<lparr>mlink := l, mblk := m\<rparr> = p\<lparr>mblk := m, mlink := l\<rparr>"
  by (simp add: mem_info.equality)

text \<open>Detaching a block, changing headers and attaching it again.\<close>

lemma block_detach:
  assumes inv: "block_inv p (as @ x # cs)"
  obtains l where "memory_block_detach p x = p\<lparr>mlink := l\<rparr>" and "buckets (mblk p) l (as @ cs)"
    and "ring l (Link x) []"
  using detach_buckets[OF block_inv_parts(2)[OF inv] pool_distinct[OF block_inv_parts(1)[OF inv]]] that
  by (simp add: memory_block_detach_def)

lemma block_attach:
  assumes "pool_chain p (as @ x # cs)" and "buckets (mblk p) l (as @ cs)" and "ring l (Link x) []"
  obtains l' where "memory_block_attach (p\<lparr>mlink := l\<rparr>) None x = Some (p\<lparr>mlink := l'\<rparr>)"
    and "buckets (mblk p) l' (as @ x # cs)"
  using attach_buckets[of "p\<lparr>mlink := l\<rparr>" as cs x] pool_sorted[OF assms(1)] assms(2,3) that
  by auto

lemma block_alloc_in_place:
  assumes inv: "block_inv p xs" and x: "x \<in> set xs" and free: "blk_used (mblk p x) = 0"
    and n: "n \<le> blk_remain (mblk p x)" "32 \<le> unat n" "8 dvd unat n"
    and b: "b = (mblk p x)\<lparr>magic := MEMORY_POOL_MAGIC, blk_remain := blk_remain (mblk p x) - n\<rparr>"
  shows "\<exists>p'. memory_block_attach ((memory_block_detach p x)\<lparr>mblk := (mblk p)(x := b)\<rparr>) None x = Some p' \<and>
           block_inv p' xs \<and> pool_arena p' = pool_arena p \<and>
           pool_blocks p' = carve (unat x) (unat n) (pool_blocks p)"
proof -
  obtain as cs where xs: "xs = as @ x # cs" using x by (auto dest: split_list)
  note pc = block_inv_parts(1)[OF inv]
  have d: "x \<notin> set as" "x \<notin> set cs" using pool_distinct[OF pc] by (auto simp: xs)
  obtain l where l: "memory_block_detach p x = p\<lparr>mlink := l\<rparr>" "buckets (mblk p) l (as @ cs)" "ring l (Link x) []"
    using inv[unfolded xs] by (rule block_detach)
  let ?p = "p\<lparr>mblk := (mblk p)(x := b)\<rparr>"
  have tk: "pool_chain ?p xs" "map (abs_block (mblk ?p)) xs = carve (unat x) (unat n) (pool_blocks p)"
    using take_in_place[OF pc x free n, of b] pool_blocks_chain[OF pc] by (simp_all add: b)
  have "buckets (mblk ?p) l (as @ cs)" by (rule buckets_change[OF l(2)]) (use d in auto)
  then obtain l' where l': "memory_block_attach (?p\<lparr>mlink := l\<rparr>) None x = Some (?p\<lparr>mlink := l'\<rparr>)"
      "buckets (mblk ?p) l' xs"
    using block_attach[of ?p as x cs l] tk(1) l(3) unfolding xs by metis
  have "block_inv (?p\<lparr>mlink := l'\<rparr>) xs"
    using tk(1) l'(2) block_inv_parts(3)[OF inv] by (auto simp: block_inv_def b)
  moreover have "pool_blocks (?p\<lparr>mlink := l'\<rparr>) = carve (unat x) (unat n) (pool_blocks p)"
    using pool_blocks_chain[of "?p\<lparr>mlink := l'\<rparr>" xs] tk by simp
  ultimately show ?thesis using l'(1) by (auto simp: l(1) mlink_mblk_swap pool_arena_def)
qed

lemma block_alloc_split:
  assumes inv: "block_inv p (as @ x # cs)" and used: "blk_used (mblk p x) \<noteq> 0"
    and n: "n \<le> blk_remain (mblk p x)" "32 \<le> unat n" "8 dvd unat n" and ne: "blk_remain (mblk p x) \<noteq> n"
  defines "new \<equiv> x + blk_used (mblk p x)"
  shows "\<exists>p1 p'. memory_block_attach ((memory_block_detach p x)\<lparr>mblk := mem_split (mblk p) x n\<rparr>) None new
             = Some p1 \<and> memory_block_attach p1 None x = Some p' \<and>
           block_inv p' (as @ x # new # cs) \<and> pool_arena p' = pool_arena p \<and>
           pool_blocks p' = carve (unat x) (unat n) (pool_blocks p)"
proof -
  note pc = block_inv_parts(1)[OF inv]
  let ?m = "mem_split (mblk p) x n" and ?ys = "as @ x # new # cs"
  let ?p = "p\<lparr>mblk := ?m\<rparr>"
  note st = split_store[OF pc used n(1,2), folded new_def]
  have rem: "\<forall>y \<in> set (as @ cs). blk_remain (?m y) = blk_remain (mblk p y)"
    using st(3-5) by (cases cs) auto
  have pc': "pool_chain ?p ?ys" using split_block[OF pc used n] by (simp add: new_def)
  have so: "sorted_wrt (<) ?ys" by (rule pool_sorted[OF pc'])
  obtain l where l: "memory_block_detach p x = p\<lparr>mlink := l\<rparr>" "buckets (mblk p) l (as @ cs)" "ring l (Link x) []"
    using inv by (rule block_detach)
  have "blk_remain (?m new) \<noteq> 0" using st(1) ne by simp
  then obtain l1 where l1: "memory_block_attach (?p\<lparr>mlink := l\<rparr>) None new = Some (?p\<lparr>mlink := l1\<rparr>)"
      "buckets ?m l1 (as @ new # cs)" "\<And>y. y \<notin> set (as @ new # cs) \<Longrightarrow> l1 (Link y) = l (Link y)"
    using attach_buckets[of "?p\<lparr>mlink := l\<rparr>" as cs new] buckets_change[OF l(2) rem] so
    by (auto simp: sorted_wrt_append)
  have "x \<notin> set (as @ new # cs)" using pool_distinct[OF pc'] by auto
  then have self: "ring l1 (Link x) []" using l1(3)[of x] l(3) ring_frame[of l "Link x" "[]" l1] by simp
  obtain l2 where l2: "memory_block_attach (?p\<lparr>mlink := l1\<rparr>) None x = Some (?p\<lparr>mlink := l2\<rparr>)"
      "buckets ?m l2 ?ys"
    using block_attach[of ?p as x "new # cs" l1] pc' l1(2) self by auto
  have "magic (?m y) = MEMORY_POOL_MAGIC" if "y \<in> set ?ys" "blk_used (?m y) \<noteq> 0" for y
  proof -
    have "blk_used (?m y) = blk_used (mblk p y) \<and> magic (?m y) = magic (mblk p y)" if "y \<in> set (as @ cs)"
      using that st(3-5) by (cases cs) (auto simp: blk_used_def)
    then show ?thesis using that st(1,2) block_inv_parts(3)[OF inv] used by auto
  qed
  then have "block_inv (?p\<lparr>mlink := l2\<rparr>) ?ys" using pc' l2(2) by (simp add: block_inv_def)
  moreover have "pool_blocks (?p\<lparr>mlink := l2\<rparr>) = carve (unat x) (unat n) (pool_blocks p)"
    using pool_blocks_chain[of "?p\<lparr>mlink := l2\<rparr>" ?ys] pc' split_abs[OF pc used n(1,2)]
      pool_blocks_chain[OF pc] by (simp add: new_def)
  ultimately show ?thesis using l1(1) l2(1) by (auto simp: l(1) mlink_mblk_swap pool_arena_def)
qed

subsection \<open>Release\<close>

lemma check_employ_memory_live:
  assumes inv: "block_inv p xs" and x: "x \<in> set xs" and used: "blk_used (mblk p x) \<noteq> 0"
  shows "check_employ_memory (mblk p) (x + 32) = x"
  using pool_block(1,9)[OF block_inv_parts(1)[OF inv] x] block_inv_parts(3)[OF inv x used]
  by (simp add: check_employ_memory_def MEM_BLOCK_HEADER_SIZE_def IS_MEMORYPOOL_VALID_def)

lemma block_free_first:
  assumes inv: "block_inv p (x # cs)" and v: "isValid (x + 32)" and used: "blk_used (mblk p x) \<noteq> 0"
  shows "\<exists>p'. free_employ_memory p (x + 32) = Some p' \<and> block_inv p' (x # cs) \<and>
           pool_arena p' = pool_arena p \<and> pool_blocks p' = release (unat x) (pool_blocks p)"
proof -
  let ?m = "mblk p" and ?nx = "blk_next (mblk p x)"
  let ?m' = "?m(x := (?m x)\<lparr>magic := 0, blk_remain := blk_lenth (?m x)\<rparr>)"
  let ?p = "p\<lparr>mblk := ?m'\<rparr>"
  note pc = block_inv_parts(1)[OF inv]
  note pv = pool_valid_chain[OF pc]
  have sl: "blk_prev (?m x) = 0"
    using pool_chain_split_list(4)[of p "[]" x cs] pc by simp
  have d: "distinct (x # cs)" by (rule pool_distinct[OF pc])
  have same: "?m'(?nx := (?m' ?nx)\<lparr>blk_prev := x\<rparr>) = ?m'" if "isValid ?nx"
    by (rule first_back_link[OF pc]) (use d that in auto)
  let ?l = "list_head_del (mlink p) (Link x)"
  have l: "buckets ?m ?l cs" "ring ?l (Link x) []"
    using detach_buckets[of ?m "mlink p" "[]" x cs] block_inv_parts(2)[OF inv] d by simp_all
  have o: "?m' y = ?m y" if "y \<in> set cs" for y using that d by auto
  have rel: "pool_chain ?p (x # cs)"
      "map (abs_block ?m') (x # cs) = release (unat x) (map (abs_block ?m) (x # cs))"
    using release_first_block[where m' = ?m', OF pc _ _ _ _ _ o] by simp_all
  have "buckets ?m' ?l ([] @ cs)" by (rule buckets_change[of ?m]) (use l(1) d in auto)
  then obtain l' where l': "memory_block_attach (?p\<lparr>mlink := ?l\<rparr>) None x = Some (?p\<lparr>mlink := l'\<rparr>)"
      "buckets ?m' l' (x # cs)"
    using block_attach[of ?p "[]" x cs ?l] rel(1) l(2) by auto
  have nz: "x \<noteq> 0" "info_ptr p \<noteq> 0" using pv by (auto simp: isValid_def)
  have fr: "free_employ_memory p (x + 32) = Some (?p\<lparr>mlink := l'\<rparr>)"
    using v nz check_employ_memory_live[OF inv _ used] sl same l'(1)
    by (simp add: free_employ_memory_def Let_def memory_block_detach_def mlink_mblk_swap)
  have "block_inv (?p\<lparr>mlink := l'\<rparr>) (x # cs)"
    using rel(1) l'(2) d block_inv_parts(3)[OF inv] by (auto simp: block_inv_def blk_used_def)
  moreover have "pool_blocks (?p\<lparr>mlink := l'\<rparr>) = release (unat x) (pool_blocks p)"
    using pool_blocks_chain[of "?p\<lparr>mlink := l'\<rparr>" "x # cs"] pool_blocks_chain[OF pc] rel by simp
  ultimately show ?thesis using fr by (auto simp: pool_arena_def)
qed


lemma block_free_later:
  assumes inv: "block_inv p (as @ s # x # cs)" and v: "isValid (x + 32)" and used: "blk_used (mblk p x) \<noteq> 0"
  shows "\<exists>p'. free_employ_memory p (x + 32) = Some p' \<and> block_inv p' (as @ s # cs) \<and>
           pool_arena p' = pool_arena p \<and> pool_blocks p' = release (unat x) (pool_blocks p)"
proof -
  let ?m = "mblk p" and ?nx = "blk_next (mblk p x)" and ?ys = "as @ s # cs"
  let ?m1 = "?m(x := (?m x)\<lparr>magic := 0, blk_remain := blk_lenth (?m x)\<rparr>)"
  let ?m2 = "?m1(s := (?m s)\<lparr>blk_lenth := blk_lenth (?m s) + blk_lenth (?m x),
                blk_remain := blk_remain (?m s) + blk_lenth (?m x), blk_next := ?nx\<rparr>)"
  let ?m3 = "?m2(x := (?m2 x)\<lparr>blk_prev := 0\<rparr>)"
  define m4 where "m4 = (if isValid ?nx then ?m3(?nx := (?m3 ?nx)\<lparr>blk_prev := s\<rparr>) else ?m3)"
  let ?p = "p\<lparr>mblk := m4\<rparr>"
  let ?l1 = "list_head_del (mlink p) (Link x)" and ?l2 = "list_head_del (list_head_del (mlink p) (Link x)) (Link s)"
  note pc = block_inv_parts(1)[OF inv]
  have d: "distinct (as @ s # x # cs)" by (rule pool_distinct[OF pc])
  have vc: "isValid c" if "c \<in> set cs" for c using pool_block(9)[OF pc] that by simp
  have pvx: "blk_prev (?m x) = s" and nx: "?nx = (case cs of [] \<Rightarrow> 0 | c # _ \<Rightarrow> c)"
    using pool_chain_split_list(3,4)[of p "as @ [s]" x cs] pc by simp_all
  have nz: "x \<noteq> 0" "info_ptr p \<noteq> 0" "isValid s"
    using pool_valid_chain[OF pc] by (simp_all add: isValid_def)
  have sx: "s \<noteq> x" using d by simp
  have o: "m4 y = ?m y" if "y \<in> set as" for y using that d nx by (cases cs) (auto simp: m4_def)
  have o1: "m4 c = (?m c)\<lparr>blk_prev := s\<rparr>" if "cs = c # ds" for c ds
    using that d nx vc[of c] by (auto simp: m4_def)
  have o2: "m4 y = ?m y" if "cs = c # ds" "y \<in> set ds" for c ds y
    using that d nx by (auto simp: m4_def)
  have s4: "m4 s = ?m2 s" using d nx by (cases cs) (auto simp: m4_def)
  have rel: "pool_chain ?p ?ys"
      "map (abs_block m4) ?ys = release (unat x) (map (abs_block ?m) (as @ s # x # cs))"
    using release_later_block[where m' = m4, OF pc _ _ _ _ _ o o1 o2] s4 sx by simp_all
  have other: "blk_remain (m4 y) = blk_remain (?m y) \<and> blk_used (m4 y) = blk_used (?m y) \<and> magic (m4 y) = magic (?m y)"
    if "y \<in> set (as @ cs)" for y
    using that o o1 o2 by (cases cs) (auto simp: blk_used_def)
  have us: "blk_used (m4 s) = blk_used (?m s)" "magic (m4 s) = magic (?m s)"
    using s4 sx by (simp_all add: blk_used_def)
  have "buckets ?m ?l1 (as @ s # cs)"
    using detach_buckets(1)[of ?m "mlink p" "as @ [s]" x cs] block_inv_parts(2)[OF inv] d by simp
  then have l2: "buckets ?m ?l2 (as @ cs)" "ring ?l2 (Link s) []"
    using detach_buckets[of ?m ?l1 as s cs] d by simp_all
  have "buckets m4 ?l2 (as @ cs)" by (rule buckets_change[OF l2(1)]) (use other in blast)
  then obtain l' where l': "memory_block_attach (?p\<lparr>mlink := ?l2\<rparr>) None s = Some (?p\<lparr>mlink := l'\<rparr>)"
      "buckets m4 l' ?ys"
    using block_attach[of ?p as s cs ?l2] rel(1) l2(2) by auto
  have "free_employ_memory p (x + 32) = memory_block_attach (?p\<lparr>mlink := ?l2\<rparr>) None s"
    using v nz check_employ_memory_live[OF inv _ used] pvx sx
    by (simp add: free_employ_memory_def Let_def memory_block_detach_def mlink_mblk_swap m4_def)
  note fr = this[unfolded l'(1)]
  have "magic (m4 y) = MEMORY_POOL_MAGIC" if "y \<in> set ?ys" "blk_used (m4 y) \<noteq> 0" for y
    using that other[of y] us block_inv_parts(3)[OF inv, of y] by auto
  then have "block_inv (?p\<lparr>mlink := l'\<rparr>) ?ys" using rel(1) l'(2) by (simp add: block_inv_def)
  moreover have "pool_blocks (?p\<lparr>mlink := l'\<rparr>) = release (unat x) (pool_blocks p)"
    using pool_blocks_chain[of "?p\<lparr>mlink := l'\<rparr>" ?ys] pool_blocks_chain[OF pc] rel by simp
  ultimately show ?thesis using fr by (auto simp: pool_arena_def)
qed


lemma block_free_block:
  assumes inv: "block_inv p xs" and x: "x \<in> set xs" and v: "isValid (x + 32)" and used: "blk_used (mblk p x) \<noteq> 0"
  shows "\<exists>p' ys. free_employ_memory p (x + 32) = Some p' \<and> block_inv p' ys \<and>
           pool_arena p' = pool_arena p \<and> pool_blocks p' = release (unat x) (pool_blocks p)"
proof -
  obtain as cs where xs: "xs = as @ x # cs" using x by (auto dest: split_list)
  show ?thesis
  proof (cases as rule: rev_cases)
    case Nil
    then show ?thesis using block_free_first[of p x cs] inv v used xs by auto
  next
    case (snoc bs s)
    then show ?thesis using block_free_later[of p bs s x cs] inv v used xs by auto
  qed
qed

subsection \<open>Allocation, by cases\<close>

text \<open>
  An exact fit of the remainder of a block in use creates a header whose remainder is 0, which
  \<^const>\<open>memory_block_attach\<close> leaves with an uninitialised link: such requests are not admissible.
\<close>

definition exact_split :: "mem_info \<Rightarrow> u32 \<Rightarrow> bool" where
  "exact_split p n \<longleftrightarrow> (case memory_block_get_avaliable p (request_len n) of
     Some (Some x) \<Rightarrow> blk_used (mblk p x) \<noteq> 0 \<and> blk_remain (mblk p x) = request_len n | _ \<Rightarrow> False)"

definition block_adm :: "mem_info \<Rightarrow> u32 \<Rightarrow> bool" where
  "block_adm p n \<longleftrightarrow> request_fits n \<and> \<not> exact_split p n"

lemma block_alloc_unfold:
  assumes pv: "isValid (info_ptr p)" "sprt_mem p \<noteq> 0"
    and ga: "memory_block_get_avaliable p (request_len n) = Some (Some x)"
  defines "q \<equiv> blk_base (mblk p x) + (blk_lenth (mblk p x) - blk_remain (mblk p x))"
    and "p1 \<equiv> memory_block_detach p x"
  shows "blk_used (mblk p x) = 0 \<Longrightarrow> alloc_spare_memory p n =
           do { p3 \<leftarrow> memory_block_attach (p1\<lparr>mblk := (mblk p)(x := (mblk p x)\<lparr>magic := MEMORY_POOL_MAGIC,
                        blk_remain := blk_remain (mblk p x) - request_len n\<rparr>)\<rparr>) None x; Some (p3, q) }"
    and "blk_used (mblk p x) \<noteq> 0 \<Longrightarrow> alloc_spare_memory p n =
           do { p2 \<leftarrow> memory_block_attach (p1\<lparr>mblk := mem_split (mblk p) x (request_len n)\<rparr>) None
                        (q - MEM_BLOCK_HEADER_SIZE);
                p3 \<leftarrow> memory_block_attach p2 None x; Some (p3, q) }"
  using assms
  by (simp_all add: alloc_spare_memory_def Let_def request_len_def[symmetric] blk_used_def memory_block_detach_def)

lemma block_alloc_cases:
  assumes inv: "block_inv p xs" and adm: "block_adm p n"
  obtains (none) "alloc_spare_memory p n = Some (p, 0)" "\<forall>x\<in>set xs. \<not> request_len n \<le> blk_remain (mblk p x)"
  | (fit) x p' q ys where "x \<in> set xs" and "request_len n \<le> blk_remain (mblk p x)"
      and "alloc_spare_memory p n = Some (p', q)" and "block_inv p' ys"
      and "pool_arena p' = pool_arena p" and "q \<noteq> 0" and "8 dvd unat q"
      and "unat q = unat x + unat (blk_used (mblk p x)) + 32"
      and "pool_blocks p' = carve (unat x) (unat (request_len n)) (pool_blocks p)"
proof -
  note pc = block_inv_parts(1)[OF inv]
  note pv = pool_valid_chain[OF pc]
  have fits: "request_fits n" using adm by (simp add: block_adm_def)
  note rl = request_len_props[OF fits]
  obtain r where r: "memory_block_get_avaliable p (request_len n) = Some r"
    "case r of None \<Rightarrow> \<forall>x\<in>set xs. \<not> request_len n \<le> blk_remain (mblk p x)
     | Some x \<Rightarrow> x \<in> set xs \<and> request_len n \<le> blk_remain (mblk p x)"
    using get_avaliable_spec[OF block_inv_parts(2)[OF inv] rl(2)] by blast
  show thesis
  proof (cases r)
    case None
    then have "alloc_spare_memory p n = Some (p, 0)"
      using pv r(1) by (simp add: alloc_spare_memory_def request_len_def[symmetric])
    then show thesis using none r(2) None by simp
  next
    case (Some x)
    then have x: "x \<in> set xs" and le: "request_len n \<le> blk_remain (mblk p x)" using r(2) by auto
    note un = block_alloc_unfold[OF _ _ r(1)[unfolded Some]] and cp = carve_pointer[OF pc x le rl(2)]
    show thesis
    proof (cases "blk_used (mblk p x) = 0")
      case True
      then show thesis
        using block_alloc_in_place[OF inv x True le rl(2,3) refl] un(1) pv cp x le by (auto intro!: fit)
    next
      case False
      obtain as cs where xs: "xs = as @ x # cs" using x by (auto dest: split_list)
      have "blk_remain (mblk p x) \<noteq> request_len n"
        using adm False r(1) Some by (simp add: block_adm_def exact_split_def)
      from block_alloc_split[OF inv[unfolded xs] False le rl(2,3) this] un(2) pv cp x le False
      show thesis by (auto intro!: fit)
    qed
  qed
qed

subsection \<open>Creation\<close>

lemma init_heads_ring: "i \<in> set is \<Longrightarrow> ring (fold (\<lambda>i h. init_list_head h (Hash i)) is l) (Hash i) []"
proof (induction "is" rule: rev_induct)
  case (snoc j js)
  then show ?case
    using init_list_head_ring ring_frame[of "fold (\<lambda>i h. init_list_head h (Hash i)) js l" "Hash i" "[]"]
    by (cases "i = j") (auto simp: init_list_head_other)
qed simp

lemma block_create_inv:
  assumes ok: "isValid (info_ptr p)" "\<not> isValid (sprt_mem p)"
    and room: "unat mem_addr + unat sz < 4294963200" "40 \<le> unat sz" "0 < unat mem_addr"
  shows "\<exists>p'. memory_block_create p mem_addr sz = Some (p', ER_NORMAL) \<and>
           block_inv p' [mrt_num_align8 mem_addr] \<and> pool_live p' = {} \<and>
           alloc_fn p' = Some BlockMem \<and> free_fn p' = Some BlockMem \<and>
           pool_arena p' = (unat (mrt_num_align8 mem_addr), unat mem_addr + unat sz)"
proof -
  let ?b = "mrt_num_align8 mem_addr"
  let ?len = "sz - (?b - mem_addr)"
  define p1 where "p1 = p\<lparr>info_base := ?b, info_lenth := ?len, mblk := (mblk p)(?b :=
              \<lparr>magic = MEMORY_POOL_MAGIC, blk_base = ?b + MEM_BLOCK_HEADER_SIZE, blk_lenth = ?len,
               blk_remain = ?len, blk_prev = 0, blk_next = 0\<rparr>),
            sprt_mem := ?b, mlink := init_hash_heads (mlink p),
            alloc_fn := Some BlockMem, free_fn := Some BlockMem\<rparr>"
  note al = align8_bounds[of mem_addr]
  have nle: "\<not> sz \<le> MEM_BLOCK_HEADER_SIZE" using room by (simp add: word_le_nat_alt MEM_BLOCK_HEADER_SIZE_def)
  have "unat (?b - mem_addr) = unat ?b - unat mem_addr" using al room by (simp add: u32_sub)
  then have len: "unat ?len = unat sz - (unat ?b - unat mem_addr)" using al room by (simp add: u32_sub)
  then have ar: "pool_arena p1 = (unat ?b, unat mem_addr + unat sz)" using al room by (simp add: pool_arena_def p1_def)
  have pc: "pool_chain p1 ([] @ [?b])"
    using ok nle al room len by (simp add: p1_def pool_chain_def all_used_def blk_used_def MEM_BLOCK_HEADER_SIZE_def)
  have "buckets (mblk p1) (mlink p1) ([] @ [])"
    by (simp add: p1_def buckets_def bucket_def init_hash_heads_def NR_MEM_NUM_def init_heads_ring)
  moreover have "blk_remain (mblk p1 ?b) \<noteq> 0" using len room al by (auto simp: p1_def unat_eq_zero[symmetric])
  ultimately obtain l' where l': "memory_block_attach p1 None ?b = Some (p1\<lparr>mlink := l'\<rparr>)"
      "buckets (mblk p1) l' [?b]"
    using attach_buckets[of p1 "[]" "[]" ?b] by auto
  have "memory_block_create p mem_addr sz = Some (p1\<lparr>mlink := l'\<rparr>, ER_NORMAL)"
    using ok nle l'(1) by (simp add: memory_block_create_def Let_def p1_def)
  moreover have "block_inv (p1\<lparr>mlink := l'\<rparr>) [?b]" using pc l'(2) by (simp add: block_inv_def p1_def[THEN arg_cong[of _ _ mblk]] blk_used_def)
  moreover from this have "pool_live (p1\<lparr>mlink := l'\<rparr>) = {}"
    using pool_blocks_chain[OF block_inv_parts(1)] by (simp add: pool_live_def abs_block_def blk_used_def p1_def)
  moreover have "pool_arena (p1\<lparr>mlink := l'\<rparr>) = pool_arena p1" by (simp add: pool_arena_def)
  moreover have "alloc_fn (p1\<lparr>mlink := l'\<rparr>) = Some BlockMem" "free_fn (p1\<lparr>mlink := l'\<rparr>) = Some BlockMem"
    by (simp_all add: p1_def)
  ultimately show ?thesis using ar by metis
qed

subsection \<open>The block allocator keeps the allocator contract\<close>

interpretation block: chain_allocator block_inv alloc_spare_memory free_employ_memory block_adm
proof unfold_locales
  fix p xs n assume i: "block_inv p xs" "block_adm p n"
  show "(alloc_spare_memory p n = Some (p, 0) \<and> (\<forall>x\<in>set xs. \<not> request_len n \<le> blk_remain (mblk p x))) \<or>
     (\<exists>x\<in>set xs. \<exists>p' q ys. request_len n \<le> blk_remain (mblk p x) \<and> alloc_spare_memory p n = Some (p', q) \<and>
        block_inv p' ys \<and> pool_arena p' = pool_arena p \<and> q \<noteq> 0 \<and> 8 dvd unat q \<and>
        unat q = unat x + unat (blk_used (mblk p x)) + 32 \<and>
        pool_blocks p' = carve (unat x) (unat (request_len n)) (pool_blocks p))"
    by (rule block_alloc_cases[OF i]) blast+
qed (use block_free_block in \<open>blast | simp add: block_adm_def block_inv_parts(1)\<close>)+

subsection \<open>Exact fits\<close>

lemma detach_other_link:
  assumes b: "buckets m l xs" and x: "x \<in> set xs" and y: "y \<notin> set xs"
  shows "list_head_del l (Link x) (Link y) = l (Link y)"
proof (cases "blk_remain (m x) = 0")
  case True
  then have "ring l (Link x) []" using b x by (simp add: buckets_def)
  then show ?thesis by (simp add: del_self_id)
next
  case False
  obtain i where i: "i < 14" "in_class (blk_remain (m x)) i" using get_hash_class by blast
  have "ring l (Hash i) (map Link (bucket m i xs))" using b i by (simp add: buckets_def)
  then show ?thesis by (rule del_other) (use False i x y in \<open>auto simp: bucket_set\<close>)
qed

lemma exact_fit_alloc:
  assumes inv: "block_inv p xs" and fits: "request_fits n" and ex: "exact_split p n"
  shows "\<exists>p' q. alloc_spare_memory p n = Some (p', q) \<and> q \<noteq> 0 \<and>
           blk_remain (mblk p' (q - MEM_BLOCK_HEADER_SIZE)) = 0 \<and>
           mlink p' (Link (q - MEM_BLOCK_HEADER_SIZE)) = mlink p (Link (q - MEM_BLOCK_HEADER_SIZE))"
proof -
  note pc = block_inv_parts(1)[OF inv] and bk = block_inv_parts(2)[OF inv] and rl = request_len_props[OF fits]
  obtain x where ga: "memory_block_get_avaliable p (request_len n) = Some (Some x)"
      and used: "blk_used (mblk p x) \<noteq> 0" and rem: "blk_remain (mblk p x) = request_len n"
    using ex by (auto simp: exact_split_def split: option.splits)
  have x: "x \<in> set xs" using get_avaliable_spec[OF bk rl(2)] ga by auto
  have le: "request_len n \<le> blk_remain (mblk p x)" using rem by simp
  obtain as cs where xs: "xs = as @ x # cs" using x by (auto dest: split_list)
  let ?q = "blk_base (mblk p x) + (blk_lenth (mblk p x) - blk_remain (mblk p x))"
  let ?new = "x + blk_used (mblk p x)" and ?m = "mem_split (mblk p) x (request_len n)"
  note cp = carve_pointer[OF pc x le rl(2)] and st = split_store[OF pc[unfolded xs] used le rl(2)]
    and fr = split_fresh(2)[OF pc[unfolded xs] used le rl(2), folded xs] and pv = pool_valid_chain[OF pc]
  have "blk_remain (?m ?new) = 0" "blk_remain (?m x) = 0" using st(1,2) rem by simp_all
  then have "alloc_spare_memory p n = Some ((memory_block_detach p x)\<lparr>mblk := ?m\<rparr>, ?q)"
    using block_alloc_unfold(2)[OF _ _ ga used] pv cp(4) by (simp add: memory_block_attach_def)
  then show ?thesis
    using cp(3,4) \<open>blk_remain (?m ?new) = 0\<close> detach_other_link[OF bk x fr]
    by (simp add: memory_block_detach_def)
qed

subsection \<open>Properties\<close>

text \<open>C3: the block allocator fails an admissible request (\<open>block_adm\<close>: its length does not wrap round, and it is not
  an exact fit of what is left of a block in use) exactly when no block has enough bytes left: its size
  classes never hide a block that would do.\<close>

theorem block_alloc_complete:
  assumes "block_inv p xs" and "block_adm p n"
  shows "alloc_spare_memory p n = Some (p, 0) \<longleftrightarrow>
         (\<forall>(s, l, u) \<in> set (pool_blocks p). l < u + unat (request_len n))"
  using assms by (rule block.alloc_null_iff_no_room)

text \<open>C4: whatever sequence of admissible requests and releases a freshly created block pool serves,
  the regions it has handed out are pairwise disjoint and lie inside the memory it was given.\<close>

theorem block_run_regions:
  assumes "isValid (info_ptr p)" and "\<not> isValid (sprt_mem p)"
    and "unat mem_addr + unat sz < 4294963200" and "40 \<le> unat sz" and "0 < unat mem_addr"
    and "memory_block_create p mem_addr sz = Some (p', r)"
    and "mem_reach alloc_spare_memory free_employ_memory pool_live block_adm p' t"
  shows "r = ER_NORMAL \<and> pairwise disjoint_regions (pool_live t) \<and>
         (\<forall>(a, k) \<in> pool_live t. unat mem_addr \<le> a \<and> a + k \<le> unat mem_addr + unat sz)"
proof -
  have cr: "r = ER_NORMAL" "block_inv p' [mrt_num_align8 mem_addr]"
      "pool_arena p' = (unat (mrt_num_align8 mem_addr), unat mem_addr + unat sz)"
    using block_create_inv[OF assms(1-5)] assms(6) by auto
  have "unat mem_addr \<le> unat (mrt_num_align8 mem_addr)" using align8_bounds(1)[of mem_addr] assms(3,4) by simp
  moreover have "Ex (block_inv p')" using cr(2) by blast
  note block.reach_regions[OF this assms(7)]
  ultimately show ?thesis using cr(1,3) by fastforce
qed

text \<open>C6: a request that takes exactly the rest of a block in use yields a header whose list link is
  whatever the memory held before: it is neither on a list nor initialised.\<close>

theorem block_exact_fit_link:
  assumes "block_inv p xs" and "request_fits n" and "exact_split p n"
  shows "\<exists>p' q. alloc_spare_memory p n = Some (p', q) \<and> q \<noteq> 0 \<and>
           blk_remain (mblk p' (q - MEM_BLOCK_HEADER_SIZE)) = 0 \<and>
           mlink p' (Link (q - MEM_BLOCK_HEADER_SIZE)) = mlink p (Link (q - MEM_BLOCK_HEADER_SIZE))"
  using assms by (rule exact_fit_alloc)

subsection \<open>Witnesses\<close>

lemmas link_eval = init_list_head_def set_next_def set_prev_def mrt_list_head_empty_def list_head_add_head_def
  list_head_add_tail_def list_head_del_def foreach_list_next_entry_def foreach_next_from.simps

lemmas class_eval = memory_block_get_hash_def NR_MEM_HighLimit_def NR_MEM_LowerLimit_def NR_MEM_HighBytes_def
  NR_MEM_LowerBytes_def NR_MEM_NUM_def

lemma hash_index_values: "hash_index_down 4096 13 = Some 12" "hash_index_down 4048 13 = Some 11"
  "hash_index_down 48 13 = Some 5" "hash_index_down 40 13 = Some 5" "hash_index_down 4008 13 = Some 11"
  "hash_index_down 4128 13 = Some 12"
  by code_simp+

definition one_entry :: "nat \<Rightarrow> u32 \<Rightarrow> mem_link lheap" where
  "one_entry i b = (\<lambda>l. \<lparr>sprt_prev = l, sprt_next = l\<rparr>)
     (Hash i := \<lparr>sprt_prev = Link b, sprt_next = Link b\<rparr>, Link b := \<lparr>sprt_prev = Hash i, sprt_next = Hash i\<rparr>)"

definition block0 :: mem_info where
  "block0 = demo_info\<lparr>info_base := 8192, info_lenth := 4096, mblk := (\<lambda>_. zero_block)(8192 :=
     \<lparr>magic = MEMORY_POOL_MAGIC, blk_base = 8224, blk_lenth = 4096, blk_remain = 4096, blk_prev = 0, blk_next = 0\<rparr>),
     sprt_mem := 8192, mlink := one_entry 12 8192, alloc_fn := Some BlockMem, free_fn := Some BlockMem\<rparr>"

definition block1 :: mem_info where
  "block1 = block0\<lparr>mblk := (mblk block0)(8192 := (mblk block0 8192)\<lparr>blk_remain := 4048\<rparr>), mlink := one_entry 11 8192\<rparr>"

definition block2 :: mem_info where
  "block2 = block1\<lparr>mblk := mem_split (mblk block1) 8192 40, mlink := one_entry 11 8240\<rparr>"

lemma block0: "memory_block_create demo_info 0x2000 0x1000 = Some (block0, ER_NORMAL)"
  by (simp add: block0_def memory_block_create_def mem_eval demo_info_def memory_block_attach_def class_eval
      hash_index_values init_hash_heads_def link_eval upt_rec one_entry_def fun_eq_iff)

lemma block1: "alloc_spare_memory block0 16 = Some (block1, 8224)"
  by (simp add: block1_def block0_def alloc_spare_memory_def mem_eval demo_info_def memory_block_attach_def class_eval
      hash_index_values link_eval one_entry_def fun_eq_iff memory_block_get_avaliable_def get_avaliable_in_def
      get_avaliable_up.simps memory_block_detach_def)

lemma block2: "alloc_spare_memory block1 8 = Some (block2, 8272)"
  by (simp add: block2_def block1_def block0_def alloc_spare_memory_def mem_eval demo_info_def memory_block_attach_def class_eval
      hash_index_values link_eval one_entry_def fun_eq_iff memory_block_get_avaliable_def get_avaliable_in_def
      get_avaliable_up.simps memory_block_detach_def mem_split_def)

lemmas search_eval = mem_eval demo_info_def class_eval hash_index_values link_eval one_entry_def
  memory_block_get_avaliable_def get_avaliable_in_def get_avaliable_up.simps exact_split_def request_len_def

lemma block_adm_values: "block_adm block0 16" "block_adm block1 8"
  by (simp_all add: block_adm_def request_fits_def block1_def block0_def search_eval)

lemma demo_valid: "isValid (info_ptr demo_info)" "\<not> isValid (sprt_mem demo_info)"
  by (simp_all add: demo_info_def isValid_iff)

lemma block0_inv: "block_inv block0 [mrt_num_align8 0x2000]"
  using block_create_inv[OF demo_valid, of "0x2000" "0x1000"] block0 by auto

lemma block1_inv: "Ex (block_inv block1)"
  using block.alloc_region[OF exI[of "block_inv block0", OF block0_inv] block_adm_values(1) block1] by simp

lemma block1_blocks: "pool_blocks block1 = [(8192, 4096, 48)]"
  by (simp add: block1_def block0_def mem_eval demo_info_def pool_blocks_def chain_walk.simps abs_block_def blk_used_def)

theorem block_alloc_complete_witness: "alloc_spare_memory block1 8 \<noteq> Some (block1, 0) \<and> alloc_spare_memory block1 4096 = Some (block1, 0)"
proof -
  obtain xs where i: "block_inv block1 xs" using block1_inv by blast
  have "block_adm block1 4096"
    by (simp add: block_adm_def request_fits_def block1_def block0_def search_eval)
  then show ?thesis
    using block_alloc_complete[OF i block_adm_values(2)] block_alloc_complete[OF i, of 4096]
    by (simp add: block1_blocks request_len_def mem_eval)
qed

theorem block_run_regions_witness: "pairwise disjoint_regions (pool_live block2) \<and> pool_live block2 = {(8224, 16), (8272, 8)}"
proof -
  let ?R = "mem_reach alloc_spare_memory free_employ_memory pool_live block_adm"
  have "?R block0 block0" by (rule reach_refl)
  then have "?R block0 block1" by (rule reach_alloc) (rule block_adm_values(1) block1)+
  then have r: "?R block0 block2" by (rule reach_alloc) (rule block_adm_values(2) block2)+
  have "pool_live block2 = {(8224, 16), (8272, 8)}"
    by (simp add: block2_def block1_def block0_def mem_eval demo_info_def pool_live_def pool_blocks_def
        chain_walk.simps mem_split_def abs_block_def blk_used_def)
  then show ?thesis using block_run_regions[OF demo_valid _ _ _ block0 r] by simp
qed

theorem block_exact_fit_link_witness:
  "\<exists>p' q. alloc_spare_memory block1 4016 = Some (p', q) \<and>
     mlink p' (Link (q - MEM_BLOCK_HEADER_SIZE)) = mlink block1 (Link (q - MEM_BLOCK_HEADER_SIZE))"
proof -
  obtain xs where i: "block_inv block1 xs" using block1_inv by blast
  have "exact_split block1 4016"
    by (simp add: block1_def block0_def search_eval blk_used_def)
  then show ?thesis using block_exact_fit_link[OF i, of 4016] by (auto simp: request_fits_def)
qed

end
