(* ===== verification/Locks.thy ===== *)
theory Locks
  imports Prelude
begin

text \<open>
  The lock primitives: \<^verbatim>\<open>include/common/atomic_types.h\<close>, the preemption counter of
  \<^verbatim>\<open>include/kernel/kernel.h\<close>, \<^verbatim>\<open>kernel/spinlock.c\<close>, \<^verbatim>\<open>kernel/mutex.c\<close> and \<^verbatim>\<open>kernel/semaphore.c\<close>.
  The operations are functions on the core and the lock; a wait that cannot end while no
  other thread runs is \<open>None\<close>. Their interleavings on one core are step relations whose
  steps are the memory accesses the operations consist of.
\<close>

subsection \<open>Atomic counters, the preemption counter and the interrupt mask\<close>

record atomic =
  counter :: u32

definition ATOMIC_SET :: "u32 \<Rightarrow> atomic \<Rightarrow> atomic" where "ATOMIC_SET val a = a\<lparr>counter := val\<rparr>"
definition ATOMIC_READ :: "atomic \<Rightarrow> u32" where "ATOMIC_READ a = counter a"
definition atomic_add :: "u32 \<Rightarrow> atomic \<Rightarrow> atomic" where "atomic_add i a = a\<lparr>counter := counter a + i\<rparr>"
definition atomic_sub :: "u32 \<Rightarrow> atomic \<Rightarrow> atomic" where "atomic_sub i a = a\<lparr>counter := counter a - i\<rparr>"
definition atomic_mul :: "u32 \<Rightarrow> atomic \<Rightarrow> atomic" where "atomic_mul i a = a\<lparr>counter := counter a * i\<rparr>"
definition atomic_inc :: "atomic \<Rightarrow> atomic" where "atomic_inc a = atomic_add 1 a"
definition atomic_dec :: "atomic \<Rightarrow> atomic" where "atomic_dec a = atomic_sub 1 a"

text \<open>\<^verbatim>\<open>atomic_udiv\<close> divides by repeated subtraction; a zero divisor never leaves the loop.\<close>

partial_function (option) atomic_udiv_loop :: "u32 \<Rightarrow> atomic \<Rightarrow> atomic \<Rightarrow> (atomic \<times> atomic) option" where
  "atomic_udiv_loop i a temp =
     (if counter a \<ge> i then atomic_udiv_loop i (atomic_sub i a) (atomic_add 1 temp) else Some (a, temp))"

definition atomic_udiv :: "u32 \<Rightarrow> atomic \<Rightarrow> atomic option" where
  "atomic_udiv i a = do {
     (b, temp) \<leftarrow> atomic_udiv_loop i a \<lparr>counter = 0\<rparr>;
     Some (b\<lparr>counter := counter temp\<rparr>)
   }"

definition COUNT_INC :: "u32 \<Rightarrow> u32" where "COUNT_INC x = x + 1"
definition COUNT_DEC :: "u32 \<Rightarrow> u32" where "COUNT_DEC x = (if x \<noteq> 0 then x - 1 else x)"

definition CPSR_BIT_I :: u32 where "CPSR_BIT_I = push_bit 7 1"

record cpu =
  g_sched_preempt_cnt :: u32
  cpsr :: u32

definition mrt_preempt_enable :: "cpu \<Rightarrow> cpu" where
  "mrt_preempt_enable c = c\<lparr>g_sched_preempt_cnt := COUNT_DEC (g_sched_preempt_cnt c)\<rparr>"

definition mrt_preempt_disable :: "cpu \<Rightarrow> cpu" where
  "mrt_preempt_disable c = c\<lparr>g_sched_preempt_cnt := COUNT_INC (g_sched_preempt_cnt c)\<rparr>"

definition mrt_preempt_is_locked :: "cpu \<Rightarrow> bool" where
  "mrt_preempt_is_locked c \<longleftrightarrow> g_sched_preempt_cnt c \<noteq> 0"

definition mrt_disable_cpu_irq :: "cpu \<Rightarrow> cpu" where
  "mrt_disable_cpu_irq c = c\<lparr>cpsr := cpsr c OR CPSR_BIT_I\<rparr>"

definition mrt_enable_cpu_irq :: "cpu \<Rightarrow> cpu" where
  "mrt_enable_cpu_irq c = c\<lparr>cpsr := cpsr c AND NOT CPSR_BIT_I\<rparr>"

definition local_irq_save :: "cpu \<Rightarrow> cpu \<times> u32" where
  "local_irq_save c = (mrt_disable_cpu_irq c, cpsr c)"

definition local_irq_restore :: "u32 \<Rightarrow> cpu \<Rightarrow> cpu" where
  "local_irq_restore flags c = (if flags AND CPSR_BIT_I = 0 then mrt_enable_cpu_irq c else c)"

subsection \<open>Spin locks\<close>

record srt_spin_lock =
  sgrt_atc :: atomic
  flag :: u32

definition spin_is_locked :: "srt_spin_lock \<Rightarrow> bool" where
  "spin_is_locked l \<longleftrightarrow> ATOMIC_READ (sgrt_atc l) \<noteq> 0"

definition spin_lock_init :: "srt_spin_lock \<Rightarrow> srt_spin_lock" where
  "spin_lock_init l = l\<lparr>sgrt_atc := ATOMIC_SET 0 (sgrt_atc l)\<rparr>"

definition spin_lock :: "cpu \<Rightarrow> srt_spin_lock \<Rightarrow> (cpu \<times> srt_spin_lock) option" where
  "spin_lock c l =
     (if spin_is_locked l then None
      else Some (mrt_preempt_disable c, l\<lparr>sgrt_atc := atomic_inc (sgrt_atc l)\<rparr>))"

definition spin_unlock :: "cpu \<Rightarrow> srt_spin_lock \<Rightarrow> cpu \<times> srt_spin_lock" where
  "spin_unlock c l =
     (if \<not> spin_is_locked l then (c, l)
      else (mrt_preempt_enable c, l\<lparr>sgrt_atc := atomic_dec (sgrt_atc l)\<rparr>))"

definition spin_try_lock :: "cpu \<Rightarrow> srt_spin_lock \<Rightarrow> cpu \<times> srt_spin_lock \<times> int" where
  "spin_try_lock c l =
     (if spin_is_locked l then (c, l, - ER_LOCKED)
      else (mrt_preempt_disable c, l\<lparr>sgrt_atc := atomic_inc (sgrt_atc l)\<rparr>, ER_NORMAL))"

definition spin_lock_irq :: "cpu \<Rightarrow> srt_spin_lock \<Rightarrow> (cpu \<times> srt_spin_lock) option" where
  "spin_lock_irq c l = do { (c, l) \<leftarrow> spin_lock c l; Some (mrt_disable_cpu_irq c, l) }"

definition spin_try_lock_irq :: "cpu \<Rightarrow> srt_spin_lock \<Rightarrow> cpu \<times> srt_spin_lock \<times> int" where
  "spin_try_lock_irq c l =
     (let (c, l, r) = spin_try_lock c l in
      if r \<noteq> 0 then (c, l, - ER_LOCKED) else (mrt_disable_cpu_irq c, l, ER_NORMAL))"

definition spin_unlock_irq :: "cpu \<Rightarrow> srt_spin_lock \<Rightarrow> cpu \<times> srt_spin_lock" where
  "spin_unlock_irq c l =
     (if \<not> spin_is_locked l then (c, l)
      else let (c, l) = spin_unlock c l in (mrt_enable_cpu_irq c, l))"

definition spin_lock_irqsave :: "cpu \<Rightarrow> srt_spin_lock \<Rightarrow> (cpu \<times> srt_spin_lock) option" where
  "spin_lock_irqsave c l = do {
     (c, l) \<leftarrow> spin_lock c l;
     Some (mrt_disable_cpu_irq c, l\<lparr>flag := cpsr c\<rparr>)
   }"

definition spin_try_lock_irqsave :: "cpu \<Rightarrow> srt_spin_lock \<Rightarrow> cpu \<times> srt_spin_lock \<times> int" where
  "spin_try_lock_irqsave c l =
     (let (c, l, r) = spin_try_lock c l in
      if r \<noteq> 0 then (c, l, - ER_LOCKED)
      else (mrt_disable_cpu_irq c, l\<lparr>flag := cpsr c AND CPSR_BIT_I\<rparr>, ER_NORMAL))"

definition spin_unlock_irqrestore :: "cpu \<Rightarrow> srt_spin_lock \<Rightarrow> cpu \<times> srt_spin_lock" where
  "spin_unlock_irqrestore c l =
     (if \<not> spin_is_locked l then (c, l)
      else let (c, l) = spin_unlock c l;
               c = (if flag l AND CPSR_BIT_I = 0 then mrt_enable_cpu_irq c else c)
           in (c, l\<lparr>flag := 0\<rparr>))"

subsection \<open>Mutexes and semaphores\<close>

text \<open>\<open>cur\<close> says that a thread is running (\<^verbatim>\<open>mrt_current\<close> is not null).\<close>

record srt_mutex_lock =
  mutex_atc :: atomic

definition mutex_is_locked :: "srt_mutex_lock \<Rightarrow> bool" where
  "mutex_is_locked l \<longleftrightarrow> ATOMIC_READ (mutex_atc l) \<noteq> 0"

definition mutex_init :: "srt_mutex_lock \<Rightarrow> srt_mutex_lock" where
  "mutex_init l = l\<lparr>mutex_atc := ATOMIC_SET 0 (mutex_atc l)\<rparr>"

definition mutex_lock :: "bool \<Rightarrow> srt_mutex_lock \<Rightarrow> srt_mutex_lock option" where
  "mutex_lock cur l =
     (if \<not> cur then Some l
      else if mutex_is_locked l then None
      else Some (l\<lparr>mutex_atc := atomic_inc (mutex_atc l)\<rparr>))"

definition mutex_try_lock :: "bool \<Rightarrow> srt_mutex_lock \<Rightarrow> srt_mutex_lock \<times> int" where
  "mutex_try_lock cur l =
     (if \<not> cur then (l, - ER_FORBID)
      else if mutex_is_locked l then (l, - ER_BUSY)
      else (l\<lparr>mutex_atc := atomic_inc (mutex_atc l)\<rparr>, ER_NORMAL))"

definition mutex_unlock :: "bool \<Rightarrow> srt_mutex_lock \<Rightarrow> srt_mutex_lock" where
  "mutex_unlock cur l =
     (if \<not> cur \<or> \<not> mutex_is_locked l then l else l\<lparr>mutex_atc := atomic_dec (mutex_atc l)\<rparr>)"

record semaphore =
  sema_atc :: atomic

definition sema_is_locked :: "semaphore \<Rightarrow> bool" where
  "sema_is_locked s \<longleftrightarrow> ATOMIC_READ (sema_atc s) = 0"

definition sema_init :: "semaphore \<Rightarrow> u32 \<Rightarrow> semaphore" where
  "sema_init s val = s\<lparr>sema_atc := ATOMIC_SET val (sema_atc s)\<rparr>"

definition sema_down :: "bool \<Rightarrow> semaphore \<Rightarrow> semaphore option" where
  "sema_down cur s =
     (if \<not> cur then Some s
      else if sema_is_locked s then None
      else Some (s\<lparr>sema_atc := atomic_dec (sema_atc s)\<rparr>))"

definition sema_down_try_lock :: "bool \<Rightarrow> semaphore \<Rightarrow> semaphore \<times> int" where
  "sema_down_try_lock cur s =
     (if \<not> cur then (s, - ER_FORBID)
      else if sema_is_locked s then (s, - ER_BUSY)
      else (s\<lparr>sema_atc := atomic_dec (sema_atc s)\<rparr>, ER_NORMAL))"

definition sema_up :: "bool \<Rightarrow> semaphore \<Rightarrow> semaphore" where
  "sema_up cur s =
     (if \<not> cur \<or> \<not> sema_is_locked s then s else s\<lparr>sema_atc := atomic_inc (sema_atc s)\<rparr>)"

lemmas atomic_simps = ATOMIC_SET_def ATOMIC_READ_def atomic_add_def atomic_sub_def atomic_inc_def
  atomic_dec_def COUNT_INC_def COUNT_DEC_def

lemmas preempt_simps = mrt_preempt_enable_def mrt_preempt_disable_def mrt_preempt_is_locked_def

subsection \<open>Threads taking one spin lock on one core\<close>

datatype spin_pc = Out | Testing | Passed | Disabled | Holding | Releasing | Released

record spin_sys =
  core :: cpu
  lck :: srt_spin_lock
  pcs :: "nat \<Rightarrow> spin_pc"
  running :: nat

definition spin_goto :: "spin_pc \<Rightarrow> spin_sys \<Rightarrow> spin_sys" where
  "spin_goto pc s = s\<lparr>pcs := (pcs s)(running s := pc)\<rparr>"

text \<open>
  The accesses of \<^verbatim>\<open>spin_lock\<close> (test, disable preemption, increment) and \<^verbatim>\<open>spin_unlock\<close> (test,
  decrement, enable preemption), and the switch to another thread, which the tick makes only
  while the preemption counter is 0.
\<close>

inductive spin_step :: "spin_sys \<Rightarrow> spin_sys \<Rightarrow> bool" where
  enter: "pcs s (running s) = Out \<Longrightarrow> spin_step s (spin_goto Testing s)"
| test_busy: "pcs s (running s) = Testing \<Longrightarrow> spin_is_locked (lck s) \<Longrightarrow> spin_step s s"
| test_free: "pcs s (running s) = Testing \<Longrightarrow> \<not> spin_is_locked (lck s) \<Longrightarrow> spin_step s (spin_goto Passed s)"
| disable: "pcs s (running s) = Passed \<Longrightarrow>
     spin_step s (spin_goto Disabled (s\<lparr>core := mrt_preempt_disable (core s)\<rparr>))"
| inc: "pcs s (running s) = Disabled \<Longrightarrow>
     spin_step s (spin_goto Holding (s\<lparr>lck := (lck s)\<lparr>sgrt_atc := atomic_inc (sgrt_atc (lck s))\<rparr>\<rparr>))"
| leave: "pcs s (running s) = Holding \<Longrightarrow> spin_is_locked (lck s) \<Longrightarrow> spin_step s (spin_goto Releasing s)"
| leave_free: "pcs s (running s) = Holding \<Longrightarrow> \<not> spin_is_locked (lck s) \<Longrightarrow> spin_step s (spin_goto Out s)"
| dec: "pcs s (running s) = Releasing \<Longrightarrow>
     spin_step s (spin_goto Released (s\<lparr>lck := (lck s)\<lparr>sgrt_atc := atomic_dec (sgrt_atc (lck s))\<rparr>\<rparr>))"
| enable: "pcs s (running s) = Released \<Longrightarrow>
     spin_step s (spin_goto Out (s\<lparr>core := mrt_preempt_enable (core s)\<rparr>))"
| switch: "\<not> mrt_preempt_is_locked (core s) \<Longrightarrow> spin_step s (s\<lparr>running := t\<rparr>)"

definition spin_start :: "spin_sys \<Rightarrow> bool" where
  "spin_start s \<longleftrightarrow> pcs s = (\<lambda>_. Out) \<and> g_sched_preempt_cnt (core s) = 0 \<and> \<not> spin_is_locked (lck s)"

definition outside :: "spin_pc \<Rightarrow> bool" where
  "outside pc \<longleftrightarrow> pc \<in> {Out, Testing, Passed}"

definition spin_inv :: "spin_sys \<Rightarrow> bool" where
  "spin_inv s \<longleftrightarrow> (\<forall>t. t \<noteq> running s \<longrightarrow> outside (pcs s t)) \<and>
     (case pcs s (running s) of
        Disabled \<Rightarrow> g_sched_preempt_cnt (core s) = 1 \<and> counter (sgrt_atc (lck s)) = 0
      | Holding \<Rightarrow> g_sched_preempt_cnt (core s) = 1 \<and> counter (sgrt_atc (lck s)) = 1
      | Releasing \<Rightarrow> g_sched_preempt_cnt (core s) = 1 \<and> counter (sgrt_atc (lck s)) = 1
      | Released \<Rightarrow> g_sched_preempt_cnt (core s) = 1 \<and> counter (sgrt_atc (lck s)) = 0
      | _ \<Rightarrow> g_sched_preempt_cnt (core s) = 0 \<and> counter (sgrt_atc (lck s)) = 0)"

lemma spin_inv_start: "spin_start s \<Longrightarrow> spin_inv s"
  by (simp add: spin_start_def spin_inv_def outside_def spin_is_locked_def atomic_simps)

lemma spin_inv_all_outside:
  assumes "\<forall>t. outside (pcs s t)"
  shows "spin_inv s \<longleftrightarrow> g_sched_preempt_cnt (core s) = 0 \<and> counter (sgrt_atc (lck s)) = 0"
proof -
  have "outside (pcs s (running s))" using assms by blast
  then show ?thesis using assms by (cases "pcs s (running s)") (auto simp: spin_inv_def outside_def)
qed

lemma spin_inv_step: "spin_step s s' \<Longrightarrow> spin_inv s \<Longrightarrow> spin_inv s'"
proof (induction rule: spin_step.induct)
  case (switch s t)
  then have "outside (pcs s (running s))"
    by (auto simp: spin_inv_def outside_def preempt_simps split: spin_pc.splits)
  then have "\<forall>t. outside (pcs s t)" using switch unfolding spin_inv_def by metis
  then show ?case using switch spin_inv_all_outside[of s] spin_inv_all_outside[of "s\<lparr>running := t\<rparr>"] by simp
qed (auto simp: spin_inv_def spin_goto_def outside_def spin_is_locked_def atomic_simps preempt_simps)

lemma spin_inv_reach: "spin_step\<^sup>*\<^sup>* s s' \<Longrightarrow> spin_inv s \<Longrightarrow> spin_inv s'"
  by (induction rule: rtranclp_induct) (auto intro: spin_inv_step)

text \<open>The steps of one thread from the test to the critical section are \<^const>\<open>spin_lock\<close>.\<close>

lemma spin_steps_lock:
  assumes "pcs s (running s) = Testing" and "spin_lock (core s) (lck s) = Some (c', l')"
  shows "spin_step\<^sup>*\<^sup>* s (spin_goto Holding (s\<lparr>core := c', lck := l'\<rparr>))"
proof -
  let ?a = "spin_goto Passed s"
  let ?b = "spin_goto Disabled (?a\<lparr>core := mrt_preempt_disable (core ?a)\<rparr>)"
  let ?c = "spin_goto Holding (?b\<lparr>lck := (lck ?b)\<lparr>sgrt_atc := atomic_inc (sgrt_atc (lck ?b))\<rparr>\<rparr>)"
  have free: "\<not> spin_is_locked (lck s)" using assms(2) by (auto simp: spin_lock_def split: if_splits)
  have "spin_step s ?a" using assms(1) free by (rule test_free)
  moreover have "spin_step ?a ?b" by (rule disable) (simp add: spin_goto_def)
  moreover have "spin_step ?b ?c" by (rule inc) (simp add: spin_goto_def)
  moreover have "?c = spin_goto Holding (s\<lparr>core := c', lck := l'\<rparr>)"
    using assms(2) free by (auto simp: spin_lock_def spin_goto_def)
  ultimately show ?thesis by (metis converse_rtranclp_into_rtranclp rtranclp.rtrancl_refl)
qed

lemma spin_steps_unlock:
  assumes "pcs s (running s) = Holding" and "spin_is_locked (lck s)"
    and "spin_unlock (core s) (lck s) = (c', l')"
  shows "spin_step\<^sup>*\<^sup>* s (spin_goto Out (s\<lparr>core := c', lck := l'\<rparr>))"
proof -
  let ?a = "spin_goto Releasing s"
  let ?b = "spin_goto Released (?a\<lparr>lck := (lck ?a)\<lparr>sgrt_atc := atomic_dec (sgrt_atc (lck ?a))\<rparr>\<rparr>)"
  let ?c = "spin_goto Out (?b\<lparr>core := mrt_preempt_enable (core ?b)\<rparr>)"
  have "spin_step s ?a" using assms(1,2) by (rule leave)
  moreover have "spin_step ?a ?b" by (rule dec) (simp add: spin_goto_def)
  moreover have "spin_step ?b ?c" by (rule enable) (simp add: spin_goto_def)
  moreover have "?c = spin_goto Out (s\<lparr>core := c', lck := l'\<rparr>)"
    using assms(2,3) by (auto simp: spin_unlock_def spin_goto_def)
  ultimately show ?thesis by (metis converse_rtranclp_into_rtranclp rtranclp.rtrancl_refl)
qed


subsection \<open>Threads taking one mutex on one core\<close>

datatype mutex_pc = MOut | MTesting | MPassed | MHolding | MReleasing

record mutex_sys =
  mlck :: srt_mutex_lock
  mpcs :: "nat \<Rightarrow> mutex_pc"
  mrunning :: nat

definition mutex_goto :: "mutex_pc \<Rightarrow> mutex_sys \<Rightarrow> mutex_sys" where
  "mutex_goto pc s = s\<lparr>mpcs := (mpcs s)(mrunning s := pc)\<rparr>"

text \<open>
  The accesses of \<^verbatim>\<open>mutex_lock\<close> and \<^verbatim>\<open>mutex_unlock\<close>. A thread that finds the mutex locked calls
  \<^verbatim>\<open>schedule_thread\<close>, and a thread outside of both functions may give up the core; with
  \<open>preemptive\<close> the tick may also switch threads between any two accesses.
\<close>

inductive mutex_step :: "bool \<Rightarrow> mutex_sys \<Rightarrow> mutex_sys \<Rightarrow> bool" for preemptive where
  m_enter: "mpcs s (mrunning s) = MOut \<Longrightarrow> mutex_step preemptive s (mutex_goto MTesting s)"
| m_busy: "mpcs s (mrunning s) = MTesting \<Longrightarrow> mutex_is_locked (mlck s) \<Longrightarrow>
     mutex_step preemptive s (s\<lparr>mrunning := t\<rparr>)"
| m_free: "mpcs s (mrunning s) = MTesting \<Longrightarrow> \<not> mutex_is_locked (mlck s) \<Longrightarrow>
     mutex_step preemptive s (mutex_goto MPassed s)"
| m_inc: "mpcs s (mrunning s) = MPassed \<Longrightarrow>
     mutex_step preemptive s
       (mutex_goto MHolding (s\<lparr>mlck := (mlck s)\<lparr>mutex_atc := atomic_inc (mutex_atc (mlck s))\<rparr>\<rparr>))"
| m_leave: "mpcs s (mrunning s) = MHolding \<Longrightarrow> mutex_is_locked (mlck s) \<Longrightarrow>
     mutex_step preemptive s (mutex_goto MReleasing s)"
| m_leave_free: "mpcs s (mrunning s) = MHolding \<Longrightarrow> \<not> mutex_is_locked (mlck s) \<Longrightarrow>
     mutex_step preemptive s (mutex_goto MOut s)"
| m_dec: "mpcs s (mrunning s) = MReleasing \<Longrightarrow>
     mutex_step preemptive s
       (mutex_goto MOut (s\<lparr>mlck := (mlck s)\<lparr>mutex_atc := atomic_dec (mutex_atc (mlck s))\<rparr>\<rparr>))"
| m_yield: "mpcs s (mrunning s) \<in> {MOut, MHolding} \<Longrightarrow> mutex_step preemptive s (s\<lparr>mrunning := t\<rparr>)"
| m_preempt: "preemptive \<Longrightarrow> mutex_step preemptive s (s\<lparr>mrunning := t\<rparr>)"

definition mutex_start :: "mutex_sys \<Rightarrow> bool" where
  "mutex_start s \<longleftrightarrow> mpcs s = (\<lambda>_. MOut) \<and> \<not> mutex_is_locked (mlck s)"

definition holders :: "mutex_sys \<Rightarrow> nat set" where
  "holders s = {t. mpcs s t \<in> {MHolding, MReleasing}}"

definition at_most_one :: "'a set \<Rightarrow> bool" where
  "at_most_one A \<longleftrightarrow> (\<forall>t\<in>A. \<forall>u\<in>A. t = u)"

lemma at_most_one_simps [simp]: "at_most_one {}" "at_most_one {x}"
  by (simp_all add: at_most_one_def)

lemma at_most_one_member: "at_most_one A \<Longrightarrow> x \<in> A \<Longrightarrow> A = {x}"
  unfolding at_most_one_def by blast

definition mutex_inv :: "mutex_sys \<Rightarrow> bool" where
  "mutex_inv s \<longleftrightarrow>
     (\<forall>t. t \<noteq> mrunning s \<longrightarrow> mpcs s t \<notin> {MPassed, MReleasing}) \<and>
     (mpcs s (mrunning s) = MPassed \<longrightarrow> counter (mutex_atc (mlck s)) = 0) \<and>
     counter (mutex_atc (mlck s)) = (if holders s = {} then 0 else 1) \<and>
     at_most_one (holders s)"

lemma mutex_inv_start: "mutex_start s \<Longrightarrow> mutex_inv s"
  by (simp add: mutex_start_def mutex_inv_def holders_def mutex_is_locked_def atomic_simps)

lemma holders_goto: "holders (mutex_goto pc s) =
    (if pc \<in> {MHolding, MReleasing} then insert (mrunning s) (holders s) else holders s - {mrunning s})"
  by (auto simp: holders_def mutex_goto_def split: if_splits)

lemma holders_upd [simp]: "holders (s\<lparr>mlck := l\<rparr>) = holders s" "holders (s\<lparr>mrunning := t\<rparr>) = holders s"
  by (simp_all add: holders_def)

lemma goto_upd [simp]: "mlck (mutex_goto pc s) = mlck s" "mrunning (mutex_goto pc s) = mrunning s"
  "mpcs (mutex_goto pc s) = (mpcs s)(mrunning s := pc)"
  by (simp_all add: mutex_goto_def)

lemma in_holders: "t \<in> holders s \<longleftrightarrow> mpcs s t \<in> {MHolding, MReleasing}"
  by (simp add: holders_def)

lemma mutex_inv_holder:
  "mutex_inv s \<Longrightarrow> mpcs s (mrunning s) \<in> {MHolding, MReleasing} \<Longrightarrow>
   holders s = {mrunning s} \<and> counter (mutex_atc (mlck s)) = 1"
  using in_holders[of "mrunning s" s] at_most_one_member[of "holders s" "mrunning s"]
  by (auto simp: mutex_inv_def)

lemma mutex_inv_switch:
  "mutex_inv s \<Longrightarrow> mpcs s (mrunning s) \<notin> {MPassed, MReleasing} \<Longrightarrow> mutex_inv (s\<lparr>mrunning := t\<rparr>)"
  unfolding mutex_inv_def by (simp, metis)

lemma mutex_inv_step: "mutex_step False s s' \<Longrightarrow> mutex_inv s \<Longrightarrow> mutex_inv s'"
proof (induction rule: mutex_step.induct)
  case (m_enter s)
  then have "mrunning s \<notin> holders s" by (simp add: in_holders)
  then show ?case using m_enter by (simp add: mutex_inv_def holders_goto)
next
  case (m_free s)
  then have "mrunning s \<notin> holders s" by (simp add: in_holders)
  then show ?case using m_free
    by (simp add: mutex_inv_def holders_goto mutex_is_locked_def atomic_simps)
next
  case (m_inc s)
  then have "holders s = {}" by (auto simp: mutex_inv_def split: if_splits)
  then show ?case using m_inc by (simp add: mutex_inv_def holders_goto atomic_simps)
next
  case (m_leave s)
  then have "holders s = {mrunning s}" "counter (mutex_atc (mlck s)) = 1" using mutex_inv_holder[of s] by blast+
  then show ?case using m_leave by (simp add: mutex_inv_def holders_goto)
next
  case (m_leave_free s)
  then show ?case using mutex_inv_holder[of s] by (simp add: mutex_is_locked_def atomic_simps)
next
  case (m_dec s)
  then have "holders s = {mrunning s}" "counter (mutex_atc (mlck s)) = 1" using mutex_inv_holder[of s] by blast+
  then show ?case using m_dec by (simp add: mutex_inv_def holders_goto atomic_simps)
next
  case (m_busy s t)
  then show ?case by (intro mutex_inv_switch) simp_all
next
  case (m_yield s t)
  then show ?case by (intro mutex_inv_switch) auto
next
  case (m_preempt s t)
  then show ?case by simp
qed

lemma mutex_inv_reach: "(mutex_step False)\<^sup>*\<^sup>* s s' \<Longrightarrow> mutex_inv s \<Longrightarrow> mutex_inv s'"
  by (induction rule: rtranclp_induct) (auto intro: mutex_inv_step)


lemma atomic_udiv_loop_result:
  assumes i: "i \<noteq> 0"
  shows "atomic_udiv_loop i a temp =
    Some (a\<lparr>counter := word_of_nat (unat (counter a) mod unat i)\<rparr>,
          temp\<lparr>counter := counter temp + word_of_nat (unat (counter a) div unat i)\<rparr>)"
proof (induction "unat (counter a)" arbitrary: a temp rule: less_induct)
  case less
  have pos: "0 < unat i" using i by (simp add: unat_gt_0)
  show ?case
  proof (cases "counter a \<ge> i")
    case True
    let ?a = "atomic_sub i a"
    have le: "unat i \<le> unat (counter a)" using True by (simp add: word_le_nat_alt)
    then have c: "unat (counter ?a) = unat (counter a) - unat i" by (simp add: atomic_sub_def u32_sub)
    then have "unat (counter ?a) < unat (counter a)" using le pos by simp
    note ih = less[OF this, of "atomic_add 1 temp"]
    have "unat (counter a) div unat i = Suc (unat (counter ?a) div unat i)"
      "unat (counter a) mod unat i = unat (counter ?a) mod unat i"
      using le pos by (simp_all add: c le_div_geq le_mod_geq)
    then show ?thesis using True ih
      by (subst atomic_udiv_loop.simps) (simp add: atomic_sub_def atomic_add_def)
  next
    case False
    then have "unat (counter a) < unat i" by (simp add: word_le_nat_alt)
    then show ?thesis using False by (subst atomic_udiv_loop.simps) simp
  qed
qed

lemma atomic_udiv_loop_needs_divisor: "atomic_udiv_loop i a temp = Some r \<Longrightarrow> i \<noteq> 0"
  by (rule atomic_udiv_loop.raw_induct[where P = "\<lambda>i _ _ _. i \<noteq> 0", rotated]) (auto split: if_splits)

lemma unsigned_quotient_positive:
  fixes a i :: u32
  assumes "sint a < 0" and "1 < sint i"
  shows "0 < sint (a div i)"
proof -
  have a: "2147483648 \<le> uint a" "uint a < 4294967296" using assms(1) u32_uint[of a]
    by (simp_all add: u32_sint split: if_splits)
  have i: "2 \<le> uint i" "uint i < 2147483648" using assms(2) u32_uint[of i] by (simp_all add: u32_sint split: if_splits)
  have "uint a div uint i \<le> uint a div 2" by (rule zdiv_mono2) (use a i in simp_all)
  moreover have "1 \<le> uint a div uint i" using a i by (simp add: pos_imp_zdiv_pos_iff int_one_le_iff_zero_less)
  ultimately show ?thesis using a by (simp add: u32_sint uint_div)
qed

lemma irq_bit: "(x :: u32) AND CPSR_BIT_I \<noteq> 0 \<longleftrightarrow> bit x 7"
  unfolding CPSR_BIT_I_def bit_iff_and_push_bit_not_eq_0 ..

lemma bit_CPSR_BIT_I: "bit CPSR_BIT_I n \<longleftrightarrow> n = 7"
  unfolding CPSR_BIT_I_def bit_push_bit_iff bit_1_iff by auto

lemma restore_mask: "(x :: u32) AND CPSR_BIT_I = 0 \<Longrightarrow> (x OR CPSR_BIT_I) AND NOT CPSR_BIT_I = x"
  by (rule bit_word_eqI) (use irq_bit[of x] in \<open>auto simp: bit_CPSR_BIT_I bit_or_iff bit_and_iff bit_not_iff\<close>)

lemma restore_masked: "(x :: u32) AND CPSR_BIT_I \<noteq> 0 \<Longrightarrow> x OR CPSR_BIT_I = x"
  by (rule bit_word_eqI) (use irq_bit[of x] in \<open>auto simp: bit_CPSR_BIT_I bit_or_iff bit_and_iff bit_not_iff\<close>)

lemma irqsave_restores:
  assumes "spin_lock_irqsave c l = Some (c', l')" and "g_sched_preempt_cnt c \<noteq> - 1"
  shows "spin_unlock_irqrestore c' l' = (c, l\<lparr>flag := 0\<rparr>)"
proof -
  have free: "counter (sgrt_atc l) = 0" and c': "c' = mrt_disable_cpu_irq (mrt_preempt_disable c)"
    and l': "l' = l\<lparr>sgrt_atc := atomic_inc (sgrt_atc l), flag := cpsr c\<rparr>"
    using assms(1) by (auto simp: spin_lock_irqsave_def spin_lock_def spin_is_locked_def atomic_simps preempt_simps
        split: if_splits)
  have "g_sched_preempt_cnt c + 1 \<noteq> 0" using assms(2) by (metis add.commute minus_unique)
  then show ?thesis
    using free restore_mask[of "cpsr c"] restore_masked[of "cpsr c"]
    by (cases "cpsr c AND CPSR_BIT_I = 0")
      (simp_all add: spin_unlock_irqrestore_def spin_unlock_def spin_is_locked_def c' l' atomic_simps
        preempt_simps mrt_disable_cpu_irq_def mrt_enable_cpu_irq_def)
qed

subsection \<open>Properties\<close>

text \<open>C8: on one core, where the tick switches threads only while the preemption counter is 0,
  no interleaving of threads entering and leaving a spin lock puts two of them into the
  critical section at once.\<close>

theorem spin_mutual_exclusion:
  assumes "spin_start s" and "spin_step\<^sup>*\<^sup>* s s'" and "pcs s' t = Holding" and "pcs s' u = Holding"
  shows "t = u"
proof -
  have "\<forall>v. v \<noteq> running s' \<longrightarrow> outside (pcs s' v)"
    using spin_inv_reach[OF assms(2) spin_inv_start[OF assms(1)]] by (simp add: spin_inv_def)
  moreover have "\<not> outside Holding" by (simp add: outside_def)
  ultimately show ?thesis using assms(3,4) by metis
qed

text \<open>C9: \<^verbatim>\<open>spin_unlock_irqrestore\<close> after \<^verbatim>\<open>spin_lock_irqsave\<close> gives back the core as it was: the
  preemption counter and the interrupt mask, masked or not.\<close>

theorem spin_irqsave_roundtrip:
  assumes "spin_lock_irqsave c l = Some (c', l')" and "g_sched_preempt_cnt c \<noteq> - 1"
  shows "spin_unlock_irqrestore c' l' = (c, l\<lparr>flag := 0\<rparr>)"
  using assms by (rule irqsave_restores)

text \<open>C10: without preemption between the test and the increment, no interleaving of threads that
  take and release a mutex puts two of them into the critical section at once.\<close>

theorem mutex_cooperative_exclusion:
  assumes "mutex_start s" and "(mutex_step False)\<^sup>*\<^sup>* s s'" and "mpcs s' t = MHolding" and "mpcs s' u = MHolding"
  shows "t = u"
proof -
  have "at_most_one (holders s')"
    using mutex_inv_reach[OF assms(2) mutex_inv_start[OF assms(1)]] by (simp add: mutex_inv_def)
  moreover have "t \<in> holders s'" "u \<in> holders s'" using assms(3,4) by (simp_all add: in_holders)
  ultimately show ?thesis unfolding at_most_one_def by blast
qed

text \<open>C11: \<^verbatim>\<open>atomic_udiv\<close> leaves the quotient of the unsigned counter for every divisor but 0, and does not end for
  0. Its comment calls it a signed division: a counter that is negative as a signed number, divided by a positive
  divisor greater than 1, becomes positive.\<close>

theorem atomic_udiv_quotient:
  "(if i = 0 then atomic_udiv i a = None else atomic_udiv i a = Some (a\<lparr>counter := counter a div i\<rparr>)) \<and>
   (sint (counter a) < 0 \<longrightarrow> 1 < sint i \<longrightarrow> (\<exists>b. atomic_udiv i a = Some b \<and> 0 < sint (counter b)))"
proof -
  have z: "atomic_udiv 0 a = None"
    using atomic_udiv_loop_needs_divisor[of 0 a "\<lparr>counter = 0\<rparr>"]
    by (cases "atomic_udiv_loop 0 a \<lparr>counter = 0\<rparr>") (auto simp: atomic_udiv_def)
  have q: "atomic_udiv i a = Some (a\<lparr>counter := counter a div i\<rparr>)" if "i \<noteq> 0"
    by (simp add: atomic_udiv_def atomic_udiv_loop_result[OF that] flip: unat_div_distrib)
  have "0 < sint (counter a div i)" if "sint (counter a) < 0" "1 < sint i"
    using unsigned_quotient_positive[OF that] .
  then show ?thesis using z q by auto
qed

text \<open>C12: with preemption between the test and the increment of \<^verbatim>\<open>mutex_lock\<close>, two threads can hold
  the mutex at once.\<close>

theorem mutex_preemptive_race:
  "\<exists>s s'. mutex_start s \<and> (mutex_step True)\<^sup>*\<^sup>* s s' \<and> mpcs s' 0 = MHolding \<and> mpcs s' 1 = MHolding"
proof -
  let ?s0 = "\<lparr>mlck = \<lparr>mutex_atc = \<lparr>counter = 0\<rparr>\<rparr>, mpcs = (\<lambda>_. MOut), mrunning = 0\<rparr>"
  let ?s2 = "mutex_goto MPassed (mutex_goto MTesting ?s0)"
  let ?s3 = "?s2\<lparr>mrunning := 1\<rparr>"
  let ?s5 = "mutex_goto MPassed (mutex_goto MTesting ?s3)"
  let ?inc = "\<lambda>s. mutex_goto MHolding (s\<lparr>mlck := (mlck s)\<lparr>mutex_atc := atomic_inc (mutex_atc (mlck s))\<rparr>\<rparr>)"
  let ?s7 = "(?inc ?s5)\<lparr>mrunning := 0\<rparr>"
  have free: "\<not> mutex_is_locked (mlck ?s0)" by (simp add: mutex_is_locked_def ATOMIC_READ_def)
  have a: "mutex_step True ?s0 (mutex_goto MTesting ?s0)" by (rule m_enter) simp
  have b: "mutex_step True (mutex_goto MTesting ?s0) ?s2" by (rule m_free) (use free in simp_all)
  have c: "mutex_step True ?s2 ?s3" by (rule m_preempt) simp
  have d: "mutex_step True ?s3 (mutex_goto MTesting ?s3)" by (rule m_enter) simp
  have e: "mutex_step True (mutex_goto MTesting ?s3) ?s5" by (rule m_free) (use free in simp_all)
  have f: "mutex_step True ?s5 (?inc ?s5)" by (rule m_inc) simp
  have g: "mutex_step True (?inc ?s5) ?s7" by (rule m_preempt) simp
  have h: "mutex_step True ?s7 (?inc ?s7)" by (rule m_inc) simp
  note go = converse_rtranclp_into_rtranclp[where r = "mutex_step True"]
  have "(mutex_step True)\<^sup>*\<^sup>* ?s0 (?inc ?s7)"
    by (rule go[OF a] go[OF b]
        go[OF c] go[OF d]
        go[OF e] go[OF f]
        go[OF g] go[OF h] rtranclp.rtrancl_refl)+
  moreover have "mutex_start ?s0" using free by (simp add: mutex_start_def)
  moreover have "mpcs (?inc ?s7) 0 = MHolding" "mpcs (?inc ?s7) 1 = MHolding" by simp_all
  ultimately show ?thesis by blast
qed

text \<open>C13: \<^verbatim>\<open>sema_up\<close> gives a permit back only when none is left: after a \<^verbatim>\<open>sema_down\<close> of a semaphore with
  several permits, \<^verbatim>\<open>sema_up\<close> does nothing and that permit is gone.\<close>

theorem sema_up_drops_permit:
  assumes "1 < counter (sema_atc s)" and "sema_down True s = Some s'"
  shows "sema_up True s' = s' \<and> counter (sema_atc s') = counter (sema_atc s) - 1"
  using assms
  by (auto simp: sema_down_def sema_up_def sema_is_locked_def atomic_simps split: if_splits)

subsection \<open>Witnesses\<close>

definition spin_sys0 :: spin_sys where
  "spin_sys0 = \<lparr>core = \<lparr>g_sched_preempt_cnt = 0, cpsr = 0\<rparr>, lck = \<lparr>sgrt_atc = \<lparr>counter = 0\<rparr>, flag = 0\<rparr>,
                pcs = (\<lambda>_. Out), running = 3\<rparr>"

definition spin_sys1 :: spin_sys where
  "spin_sys1 = spin_goto Holding ((spin_goto Testing spin_sys0)
     \<lparr>core := \<lparr>g_sched_preempt_cnt = 1, cpsr = 0\<rparr>, lck := \<lparr>sgrt_atc = \<lparr>counter = 1\<rparr>, flag = 0\<rparr>\<rparr>)"

lemma spin_sys1_reached: "spin_start spin_sys0" "spin_step\<^sup>*\<^sup>* spin_sys0 spin_sys1" "pcs spin_sys1 3 = Holding"
proof -
  show "spin_start spin_sys0" by (simp add: spin_start_def spin_sys0_def spin_is_locked_def ATOMIC_READ_def)
  show "pcs spin_sys1 3 = Holding" by (simp add: spin_sys1_def spin_sys0_def spin_goto_def)
  have "spin_step spin_sys0 (spin_goto Testing spin_sys0)" by (rule enter) (simp add: spin_sys0_def)
  moreover have "spin_step\<^sup>*\<^sup>* (spin_goto Testing spin_sys0) spin_sys1"
    unfolding spin_sys1_def
    by (rule spin_steps_lock) (simp_all add: spin_goto_def spin_sys0_def spin_lock_def spin_is_locked_def
        atomic_simps preempt_simps)
  ultimately show "spin_step\<^sup>*\<^sup>* spin_sys0 spin_sys1" by (rule converse_rtranclp_into_rtranclp)
qed

theorem spin_mutual_exclusion_witness: "{u. pcs spin_sys1 u = Holding} = {3}"
  using spin_mutual_exclusion[OF spin_sys1_reached(1,2) _ spin_sys1_reached(3)] spin_sys1_reached(3) by blast

theorem spin_irqsave_roundtrip_witness:
  "spin_unlock_irqrestore \<lparr>g_sched_preempt_cnt = 3, cpsr = 0x93\<rparr> \<lparr>sgrt_atc = \<lparr>counter = 1\<rparr>, flag = 0x13\<rparr>
   = (\<lparr>g_sched_preempt_cnt = 2, cpsr = 0x13\<rparr>, \<lparr>sgrt_atc = \<lparr>counter = 0\<rparr>, flag = 0\<rparr>)"
  using spin_irqsave_roundtrip[of "\<lparr>g_sched_preempt_cnt = 2, cpsr = 0x13\<rparr>"
      "\<lparr>sgrt_atc = \<lparr>counter = 0\<rparr>, flag = 0\<rparr>" "\<lparr>g_sched_preempt_cnt = 3, cpsr = 0x93\<rparr>"
      "\<lparr>sgrt_atc = \<lparr>counter = 1\<rparr>, flag = 0x13\<rparr>"]
  by (simp add: spin_lock_irqsave_def spin_lock_def spin_is_locked_def atomic_simps preempt_simps
      mrt_disable_cpu_irq_def CPSR_BIT_I_def)

theorem mutex_cooperative_exclusion_witness:
  "\<exists>s s'. mutex_start s \<and> (mutex_step False)\<^sup>*\<^sup>* s s' \<and> {u. mpcs s' u = MHolding} = {0}"
proof -
  let ?s0 = "\<lparr>mlck = \<lparr>mutex_atc = \<lparr>counter = 0\<rparr>\<rparr>, mpcs = (\<lambda>_. MOut), mrunning = 0\<rparr>"
  let ?s1 = "mutex_goto MTesting ?s0" and ?s2 = "mutex_goto MPassed (mutex_goto MTesting ?s0)"
  let ?s3 = "mutex_goto MHolding (?s2\<lparr>mlck := (mlck ?s2)\<lparr>mutex_atc := atomic_inc (mutex_atc (mlck ?s2))\<rparr>\<rparr>)"
  have st: "mutex_start ?s0" by (simp add: mutex_start_def mutex_is_locked_def ATOMIC_READ_def)
  have a: "mutex_step False ?s0 ?s1" by (rule m_enter) simp
  have b: "mutex_step False ?s1 ?s2" by (rule m_free) (simp_all add: mutex_is_locked_def ATOMIC_READ_def)
  have c: "mutex_step False ?s2 ?s3" by (rule m_inc) simp
  note go = converse_rtranclp_into_rtranclp[where r = "mutex_step False"]
  have r: "(mutex_step False)\<^sup>*\<^sup>* ?s0 ?s3"
    by (rule go[OF a] go[OF b]
        go[OF c] rtranclp.rtrancl_refl)+
  have h: "mpcs ?s3 0 = MHolding" by simp
  have "{u. mpcs ?s3 u = MHolding} = {0}" using mutex_cooperative_exclusion[OF st r _ h] h by blast
  then show ?thesis using st r by blast
qed

theorem atomic_udiv_quotient_witness:
  "atomic_udiv 7 \<lparr>counter = 100\<rparr> = Some \<lparr>counter = 14\<rparr> \<and>
   (\<exists>b. atomic_udiv 2 \<lparr>counter = - 2\<rparr> = Some b \<and> 0 < sint (counter b))"
  using atomic_udiv_quotient[of 7 "\<lparr>counter = 100\<rparr>"] atomic_udiv_quotient[of 2 "\<lparr>counter = - 2\<rparr>"] by simp

theorem sema_up_drops_permit_witness:
  "sema_up True \<lparr>sema_atc = \<lparr>counter = 1\<rparr>\<rparr> = \<lparr>sema_atc = \<lparr>counter = 1\<rparr>\<rparr>"
  using sema_up_drops_permit[of "\<lparr>sema_atc = \<lparr>counter = 2\<rparr>\<rparr>" "\<lparr>sema_atc = \<lparr>counter = 1\<rparr>\<rparr>"]
  by (simp add: sema_down_def sema_is_locked_def atomic_simps)

end
