(* ===== verification/Mempool.thy ===== *)
theory Mempool
  imports Mem_Simple Mem_Block Locks
begin

text \<open>
  \<^verbatim>\<open>src/platform/mem/fwk_mempool.c\<close>, the kernel heap over four pools, and \<^verbatim>\<open>src/common/mempool/mem_malloc.c\<close>,
  the heap of \<^verbatim>\<open>malloc\<close>. Every pool has its own headers, links and spin lock; the bounds of the
  memory regions come from the linker script and are arguments.
\<close>

subsection \<open>Pools and flags\<close>

definition NR_KMEM_ZERO :: u32 where "NR_KMEM_ZERO = push_bit 0 1"
definition NR_KMEM_WAIT :: u32 where "NR_KMEM_WAIT = push_bit 1 1"
definition NR_KMEM_NORMAL :: u32 where "NR_KMEM_NORMAL = push_bit 25 1"
definition NR_KMEM_FBUFFER :: u32 where "NR_KMEM_FBUFFER = push_bit 26 1"
definition NR_KMEM_FIXDATA :: u32 where "NR_KMEM_FIXDATA = push_bit 27 1"
definition NR_KMEM_SK_BUFF :: u32 where "NR_KMEM_SK_BUFF = push_bit 28 1"
definition GFP_KERNEL :: u32 where "GFP_KERNEL = NR_KMEM_WAIT OR NR_KMEM_NORMAL"

definition FWK_MEMPOOL_FIXDATA :: nat where "FWK_MEMPOOL_FIXDATA = 0"
definition FWK_MEMPOOL_KERNEL :: nat where "FWK_MEMPOOL_KERNEL = 1"
definition FWK_MEMPOOL_FB_DRAM :: nat where "FWK_MEMPOOL_FB_DRAM = 2"
definition FWK_MEMPOOL_SK_BUFF :: nat where "FWK_MEMPOOL_SK_BUFF = 3"
definition FWK_MEMPOOL_TYPE_MAX :: nat where "FWK_MEMPOOL_TYPE_MAX = 4"

record fwk_mempool =
  pool_mask :: u32
  pool_info :: mem_info
  pool_lock :: srt_spin_lock

record mempool_sys =
  pools :: "fwk_mempool list"
  mcpu :: cpu

definition info_alloc :: "mem_kind \<Rightarrow> mem_info \<Rightarrow> u32 \<Rightarrow> (mem_info \<times> u32) option" where
  "info_alloc k = (case k of SimpleMem \<Rightarrow> alloc_spare_simple_memory | BlockMem \<Rightarrow> alloc_spare_memory)"

definition info_free :: "mem_kind \<Rightarrow> mem_info \<Rightarrow> u32 \<Rightarrow> mem_info option" where
  "info_free k = (case k of SimpleMem \<Rightarrow> free_employ_simple_memory | BlockMem \<Rightarrow> free_employ_memory)"

text \<open>
  The loop that picks the pool of some flags: \<open>None\<close> when a second pool matches (the callers
  return at once), otherwise the index of the matching pool, if any.
\<close>

fun select_pool :: "u32 \<Rightarrow> fwk_mempool list \<Rightarrow> nat \<Rightarrow> nat option \<Rightarrow> nat option option" where
  "select_pool flags [] index sel = Some sel"
| "select_pool flags (q # qs) index sel =
     (if flags AND pool_mask q \<noteq> 0
      then (case sel of None \<Rightarrow> select_pool flags qs (Suc index) (Some index) | Some _ \<Rightarrow> None)
      else select_pool flags qs (Suc index) sel)"

subsection \<open>Creating and destroying the pools\<close>

definition pool_create :: "(mem_info \<Rightarrow> (mem_info \<times> int) option) \<Rightarrow> nat \<Rightarrow> mempool_sys \<Rightarrow> (mempool_sys \<times> int) option" where
  "pool_create f i s = do {
     (info, retval) \<leftarrow> f (pool_info (pools s ! i));
     Some (s\<lparr>pools := (pools s)[i := (pools s ! i)\<lparr>pool_info := info\<rparr>]\<rparr>, retval)
   }"

definition pool_init_lock :: "nat \<Rightarrow> mempool_sys \<Rightarrow> mempool_sys" where
  "pool_init_lock i s =
     s\<lparr>pools := (pools s)[i := (pools s ! i)\<lparr>pool_lock := spin_lock_init (pool_lock (pools s ! i))\<rparr>]\<rparr>"

definition fwk_mempool_initial ::
  "u32 \<times> u32 \<Rightarrow> u32 \<times> u32 \<Rightarrow> u32 \<times> u32 \<Rightarrow> mempool_sys \<Rightarrow> (mempool_sys \<times> bool) option" where
  "fwk_mempool_initial kpool fbuf skb s = do {
     (s, retval) \<leftarrow> pool_create (\<lambda>p. memory_block_create p (fst kpool) (snd kpool)) FWK_MEMPOOL_KERNEL s;
     (if retval \<noteq> 0 then Some (s, False)
      else do {
        let s = pool_init_lock FWK_MEMPOOL_KERNEL s;
        (s, _) \<leftarrow> pool_create (\<lambda>p. Some (memory_simple_block_create p (fst fbuf) (snd fbuf))) FWK_MEMPOOL_FB_DRAM s;
        let s = pool_init_lock FWK_MEMPOOL_FB_DRAM s;
        (s, _) \<leftarrow> pool_create (\<lambda>p. memory_block_create p (fst skb) (snd skb)) FWK_MEMPOOL_SK_BUFF s;
        Some (pool_init_lock FWK_MEMPOOL_SK_BUFF s, True)
      })
   }"

text \<open>Signed flags: negative ones name the kernel heap.\<close>

definition select_signed :: "32 word \<Rightarrow> fwk_mempool list \<Rightarrow> nat option option" where
  "select_signed flags ps =
     (if sint flags < 0 then Some (Some FWK_MEMPOOL_KERNEL) else select_pool flags ps 0 None)"

definition memory_block_self_defines :: "u32 \<Rightarrow> u32 \<Rightarrow> u32 \<Rightarrow> mempool_sys \<Rightarrow> mempool_sys \<times> bool" where
  "memory_block_self_defines flags base sz s =
     (case select_signed flags (pools s) of
        None \<Rightarrow> (s, False)
      | Some None \<Rightarrow> (s, False)
      | Some (Some i) \<Rightarrow>
          let info = pool_info (pools s ! i) in
          if isValid (sprt_mem info) then (s, False)
          else (pool_init_lock i (s\<lparr>pools := (pools s)[i := (pools s ! i)
                  \<lparr>pool_info := fst (memory_simple_block_create info base sz)\<rparr>]\<rparr>), True))"

definition memory_block_self_destroy :: "u32 \<Rightarrow> mempool_sys \<Rightarrow> mempool_sys" where
  "memory_block_self_destroy flags s =
     (case select_signed flags (pools s) of
        None \<Rightarrow> s
      | Some None \<Rightarrow> s
      | Some (Some i) \<Rightarrow>
          let info = pool_info (pools s ! i) in
          if \<not> isValid (sprt_mem info) then s
          else pool_init_lock i (s\<lparr>pools := (pools s)[i := (pools s ! i)
                 \<lparr>pool_info := memory_simple_block_destroy info\<rparr>]\<rparr>))"

definition kmget_size :: "u32 \<Rightarrow> mempool_sys \<Rightarrow> int" where
  "kmget_size flags s =
     (case select_pool flags (pools s) 0 None of
        None \<Rightarrow> - ER_UNVALID
      | Some None \<Rightarrow> - ER_NOTFOUND
      | Some (Some i) \<Rightarrow> sint (info_lenth (pool_info (pools s ! i))))"

subsection \<open>Allocating and freeing\<close>

text \<open>
  \<^verbatim>\<open>wait_event\<close> on a held lock waits for another thread, as \<^verbatim>\<open>spin_lock_irqsave\<close> does: both are \<open>None\<close>
  here, where no other thread runs.
\<close>

definition kmalloc :: "u32 \<Rightarrow> u32 \<Rightarrow> mempool_sys \<Rightarrow> (mempool_sys \<times> u32) option" where
  "kmalloc sz flags s =
     (case select_pool flags (pools s) 0 None of
        None \<Rightarrow> Some (s, 0)
      | Some None \<Rightarrow> Some (s, 0)
      | Some (Some i) \<Rightarrow>
          let pool = pools s ! i; info = pool_info pool in
          if flags AND NR_KMEM_WAIT \<noteq> 0 \<and> spin_is_locked (pool_lock pool) then None
          else do {
            (c, l) \<leftarrow> spin_lock_irqsave (mcpu s) (pool_lock pool);
            (info, p) \<leftarrow>
              (case alloc_fn info of
                 None \<Rightarrow> Some (info, 0)
               | Some k \<Rightarrow> do {
                   (info, p) \<leftarrow> info_alloc k info sz;
                   Some (if \<not> isValid p then (info, 0)
                         else if flags AND NR_KMEM_ZERO \<noteq> 0
                         then (info\<lparr>mblk := kmemzero_blocks (mblk info) p sz\<rparr>, p)
                         else (info, p))
                 });
            let (c, l) = spin_unlock_irqrestore c l;
            Some (s\<lparr>pools := (pools s)[i := pool\<lparr>pool_info := info, pool_lock := l\<rparr>], mcpu := c\<rparr>, p)
          })"

definition kcalloc :: "u32 \<Rightarrow> u32 \<Rightarrow> u32 \<Rightarrow> mempool_sys \<Rightarrow> (mempool_sys \<times> u32) option" where
  "kcalloc sz n flags = kmalloc (sz * n) flags"

definition kzalloc :: "u32 \<Rightarrow> u32 \<Rightarrow> mempool_sys \<Rightarrow> (mempool_sys \<times> u32) option" where
  "kzalloc sz flags = kmalloc sz (flags OR NR_KMEM_ZERO)"

definition default_malloc :: "u32 \<Rightarrow> mempool_sys \<Rightarrow> (mempool_sys \<times> u32) option" where
  "default_malloc sz = kmalloc sz GFP_KERNEL"

text \<open>The loop of \<^verbatim>\<open>kfree\<close>: the first pool whose bounds contain the address.\<close>

fun pool_of :: "u32 \<Rightarrow> fwk_mempool list \<Rightarrow> nat \<Rightarrow> nat option" where
  "pool_of ptr [] index = None"
| "pool_of ptr (q # qs) index =
     (if ptr \<ge> info_base (pool_info q) \<and> ptr < info_base (pool_info q) + info_lenth (pool_info q)
      then Some index else pool_of ptr qs (Suc index))"

definition kfree :: "u32 \<Rightarrow> mempool_sys \<Rightarrow> mempool_sys option" where
  "kfree ptr s =
     (case pool_of ptr (pools s) 0 of
        None \<Rightarrow> Some s
      | Some i \<Rightarrow>
          let pool = pools s ! i; info = pool_info pool in
          do {
            (c, l) \<leftarrow> spin_lock_irqsave (mcpu s) (pool_lock pool);
            info \<leftarrow> (case free_fn info of None \<Rightarrow> Some info | Some k \<Rightarrow> info_free k info ptr);
            let (c, l) = spin_unlock_irqrestore c l;
            Some (s\<lparr>pools := (pools s)[i := pool\<lparr>pool_info := info, pool_lock := l\<rparr>], mcpu := c\<rparr>)
          })"

subsection \<open>The heap of \<open>malloc\<close>\<close>

definition sbrk :: "u32 \<Rightarrow> u32 \<Rightarrow> u32 \<Rightarrow> u32 \<Rightarrow> u32 \<times> u32" where
  "sbrk MEMORY_HEAP_START MEMORY_HEAP_END ptr_heapHead incr =
     (let ptr_heapHead = (if ptr_heapHead = 0 then MEMORY_HEAP_START else ptr_heapHead);
          prev_heap = ptr_heapHead
      in if ptr_heapHead + incr \<le> MEMORY_HEAP_END \<and> prev_heap \<noteq> 0
         then (ptr_heapHead + incr, prev_heap)
         else (ptr_heapHead, - 1))"

definition malloc_block_self_defines :: "u32 \<Rightarrow> u32 \<Rightarrow> mem_info \<Rightarrow> (mem_info \<times> bool) option" where
  "malloc_block_self_defines base sz sgrt_infoMalloc =
     (if isValid (sprt_mem sgrt_infoMalloc) then Some (sgrt_infoMalloc, False)
      else do { (info, _) \<leftarrow> memory_block_create sgrt_infoMalloc base sz; Some (info, True) })"

definition malloc_block_initial :: "u32 \<Rightarrow> u32 \<Rightarrow> mem_info \<Rightarrow> (mem_info \<times> bool) option" where
  "malloc_block_initial MEMORY_HEAP_START MEMORY_HEAP_END sgrt_infoMalloc =
     (if isValid (sprt_mem sgrt_infoMalloc) then Some (sgrt_infoMalloc, False)
      else do {
        (info, _) \<leftarrow> memory_block_create sgrt_infoMalloc MEMORY_HEAP_START (MEMORY_HEAP_END - MEMORY_HEAP_START);
        Some (info, True)
      })"

definition malloc_block_destroy :: "mem_info \<Rightarrow> mem_info" where
  "malloc_block_destroy sgrt_infoMalloc = memory_block_destroy sgrt_infoMalloc"

definition malloc :: "u32 \<Rightarrow> mem_info \<Rightarrow> (mem_info \<times> u32) option" where
  "malloc sz sgrt_infoMalloc =
     (case alloc_fn sgrt_infoMalloc of Some k \<Rightarrow> info_alloc k sgrt_infoMalloc sz
      | None \<Rightarrow> Some (sgrt_infoMalloc, 0))"

definition free :: "u32 \<Rightarrow> mem_info \<Rightarrow> mem_info option" where
  "free ptr sgrt_infoMalloc =
     (case free_fn sgrt_infoMalloc of Some k \<Rightarrow> info_free k sgrt_infoMalloc ptr
      | None \<Rightarrow> Some sgrt_infoMalloc)"

subsection \<open>Zeroing an allocated region keeps the headers\<close>

lemma kmemzero_keeps_headers:
  assumes pc: "pool_chain p xs" and live: "(unat q, k) \<in> pool_live p" and n: "unat n \<le> k" and x: "x \<in> set xs"
  shows "kmemzero_blocks (mblk p) q n x = mblk p x"
proof -
  obtain b where b: "b \<in> set xs" "unat q = unat b + 32" "k = unat (blk_used (mblk p b)) - 32"
      "blk_used (mblk p b) \<noteq> 0"
    using live_block[OF pc live] by metis
  note pb = pool_block[OF pc b(1)]
  have used: "32 \<le> unat (blk_used (mblk p b))" using pb(8) b(4) by simp
  have "unat q + unat n \<le> unat b + unat (blk_lenth (mblk p b))" using b n used pb(10) by simp
  then have e: "unat (q + n) = unat q + unat n"
    using pb(4) pc by (intro u32_add) (simp add: pool_chain_def)
  have "unat x < unat q \<or> unat q + unat n \<le> unat x"
  proof (cases "x = b")
    case True
    then show ?thesis using b(2) by simp
  next
    case False
    then have "unat b + unat (blk_lenth (mblk p b)) \<le> unat x \<or> unat x + unat (blk_lenth (mblk p x)) \<le> unat b"
      using blocks_apart[OF pool_tiles[OF pc] pool_block_abs[OF pc b(1)] pool_block_abs[OF pc x]]
      by (auto simp: u32_eq_iff)
    then show ?thesis using \<open>unat q + unat n \<le> unat b + unat (blk_lenth (mblk p b))\<close> b(2) by auto
  qed
  then show ?thesis
    using e by (auto simp: kmemzero_blocks_def word_le_nat_alt word_less_nat_alt)
qed

lemma pool_chain_cong:
  assumes "pool_chain p xs" and "\<forall>x\<in>set xs. m' x = mblk p x"
  shows "pool_chain (p\<lparr>mblk := m'\<rparr>) xs"
proof -
  have "map (abs_block m') xs = map (abs_block (mblk p)) xs" using assms(2) by (simp add: abs_block_def)
  moreover have "chain m' 0 (sprt_mem p) xs (last xs) 0 = chain (mblk p) 0 (sprt_mem p) xs (last xs) 0"
    by (rule chain_cong) (use assms(2) in simp)
  ultimately show ?thesis using assms(1) by (simp add: pool_chain_def del: map_eq_conv)
qed

lemma pool_blocks_cong:
  assumes "pool_chain p xs" and "\<forall>x\<in>set xs. m' x = mblk p x"
  shows "pool_blocks (p\<lparr>mblk := m'\<rparr>) = pool_blocks p"
  using pool_blocks_chain[OF pool_chain_cong[OF assms]] pool_blocks_chain[OF assms(1)] assms(2)
  by (simp add: abs_block_def)

lemma simple_inv_cong: "simple_inv p xs \<Longrightarrow> \<forall>x\<in>set xs. m' x = mblk p x \<Longrightarrow> simple_inv (p\<lparr>mblk := m'\<rparr>) xs"
  using pool_chain_cong[of p xs m'] by (simp add: simple_inv_def)

lemma block_inv_cong: "block_inv p xs \<Longrightarrow> \<forall>x\<in>set xs. m' x = mblk p x \<Longrightarrow> block_inv (p\<lparr>mblk := m'\<rparr>) xs"
  using pool_chain_cong[of p xs m'] buckets_change[of "mblk p" "mlink p" xs m'] by (simp add: block_inv_def)

subsection \<open>One pool, whichever allocator it has\<close>

definition kind_inv :: "mem_kind \<Rightarrow> mem_info \<Rightarrow> u32 list \<Rightarrow> bool" where
  "kind_inv k = (case k of SimpleMem \<Rightarrow> simple_inv | BlockMem \<Rightarrow> block_inv)"

definition kind_adm :: "mem_kind \<Rightarrow> mem_info \<Rightarrow> u32 \<Rightarrow> bool" where
  "kind_adm k = (case k of SimpleMem \<Rightarrow> simple_adm | BlockMem \<Rightarrow> block_adm)"

interpretation kind: chain_allocator "kind_inv k" "info_alloc k" "info_free k" "kind_adm k" for k
  by (cases k) (simp_all add: kind_inv_def info_alloc_def info_free_def kind_adm_def
      simple.chain_allocator_axioms block.chain_allocator_axioms)

lemma kind_inv_chain: "kind_inv k p xs \<Longrightarrow> pool_chain p xs"
  by (rule kind.inv_chain)

lemma kind_inv_cong: "kind_inv k p xs \<Longrightarrow> \<forall>x\<in>set xs. m' x = mblk p x \<Longrightarrow> kind_inv k (p\<lparr>mblk := m'\<rparr>) xs"
  by (cases k) (simp_all add: kind_inv_def simple_inv_cong block_inv_cong)

lemma kmemzero_keeps_pool:
  assumes "kind_inv k p xs" and "(unat q, r) \<in> pool_live p" and "unat n \<le> r"
  defines "p' \<equiv> p\<lparr>mblk := kmemzero_blocks (mblk p) q n\<rparr>"
  shows "kind_inv k p' xs" and "pool_live p' = pool_live p" and "pool_arena p' = pool_arena p"
proof -
  have s: "\<forall>x\<in>set xs. kmemzero_blocks (mblk p) q n x = mblk p x"
    using kmemzero_keeps_headers[OF kind_inv_chain[OF assms(1)] assms(2,3)] by blast
  show "kind_inv k p' xs" unfolding p'_def by (rule kind_inv_cong[OF assms(1) s])
  show "pool_live p' = pool_live p"
    using pool_blocks_cong[OF kind_inv_chain[OF assms(1)] s] by (simp add: pool_live_def p'_def)
  show "pool_arena p' = pool_arena p" by (simp add: pool_arena_def p'_def)
qed


lemma attach_keeps_fns: "memory_block_attach p h x = Some p' \<Longrightarrow> alloc_fn p' = alloc_fn p \<and> free_fn p' = free_fn p"
  by (auto simp: memory_block_attach_def Let_def bind_eq_Some_conv split: if_splits option.splits)

lemma alloc_keeps_fns: "info_alloc k p n = Some (p', q) \<Longrightarrow> alloc_fn p' = alloc_fn p \<and> free_fn p' = free_fn p"
proof (cases k)
  case SimpleMem
  assume "info_alloc k p n = Some (p', q)"
  then show ?thesis using SimpleMem
    by (auto simp: info_alloc_def alloc_spare_simple_memory_def Let_def bind_eq_Some_conv
        split: if_splits option.splits)
next
  case BlockMem
  assume "info_alloc k p n = Some (p', q)"
  then show ?thesis using BlockMem
    by (auto simp: info_alloc_def alloc_spare_memory_def Let_def bind_eq_Some_conv memory_block_detach_def
        split: if_splits option.splits dest!: attach_keeps_fns)
qed

lemma free_keeps_fns: "info_free k p q = Some p' \<Longrightarrow> alloc_fn p' = alloc_fn p \<and> free_fn p' = free_fn p"
proof (cases k)
  case SimpleMem
  assume "info_free k p q = Some p'"
  then show ?thesis using SimpleMem
    by (auto simp: info_free_def free_employ_simple_memory_def Let_def bind_eq_Some_conv split: if_splits)
next
  case BlockMem
  assume "info_free k p q = Some p'"
  then show ?thesis using BlockMem
    by (auto simp: info_free_def free_employ_memory_def Let_def memory_block_detach_def
        split: if_splits prod.splits dest!: attach_keeps_fns)
qed

subsection \<open>The pools together\<close>

definition pool_ok :: "fwk_mempool \<Rightarrow> bool" where
  "pool_ok q \<longleftrightarrow> counter (sgrt_atc (pool_lock q)) = 0 \<and> flag (pool_lock q) = 0 \<and>
     (case alloc_fn (pool_info q) of
        None \<Rightarrow> free_fn (pool_info q) = None \<and> sprt_mem (pool_info q) = 0 \<and> info_lenth (pool_info q) = 0
      | Some k \<Rightarrow> free_fn (pool_info q) = Some k \<and> Ex (kind_inv k (pool_info q)))"

definition arenas_apart :: "fwk_mempool list \<Rightarrow> bool" where
  "arenas_apart qs \<longleftrightarrow> (\<forall>i < length qs. \<forall>j < length qs. i \<noteq> j \<longrightarrow>
     snd (pool_arena (pool_info (qs ! i))) \<le> fst (pool_arena (pool_info (qs ! j))) \<or>
     snd (pool_arena (pool_info (qs ! j))) \<le> fst (pool_arena (pool_info (qs ! i))))"

definition sys_wf :: "mempool_sys \<Rightarrow> bool" where
  "sys_wf s \<longleftrightarrow> (\<forall>q \<in> set (pools s). pool_ok q) \<and> arenas_apart (pools s) \<and> g_sched_preempt_cnt (mcpu s) \<noteq> - 1 \<and>
     (\<forall>i < length (pools s). \<forall>(a, k) \<in> pool_live (pool_info (pools s ! i)). 0 < k)"

definition sys_live :: "mempool_sys \<Rightarrow> (nat \<times> nat) set" where
  "sys_live s = (\<Union>i < length (pools s). pool_live (pool_info (pools s ! i)))"

text \<open>The addresses of all pools.\<close>

definition sys_zone :: "mempool_sys \<Rightarrow> nat set" where
  "sys_zone s = (\<Union>i < length (pools s). {fst (pool_arena (pool_info (pools s ! i))) ..< snd (pool_arena (pool_info (pools s ! i)))})"

definition kmalloc_adm :: "u32 \<Rightarrow> mempool_sys \<Rightarrow> u32 \<Rightarrow> bool" where
  "kmalloc_adm flags s n \<longleftrightarrow> n \<noteq> 0 \<and>
     (case select_pool flags (pools s) 0 None of
        Some (Some i) \<Rightarrow> (case alloc_fn (pool_info (pools s ! i)) of Some k \<Rightarrow> kind_adm k (pool_info (pools s ! i)) n
                          | None \<Rightarrow> True)
      | _ \<Rightarrow> True)"

lemma select_pool_bound: "select_pool flags qs i sel = Some (Some j) \<Longrightarrow> sel = Some j \<or> i \<le> j \<and> j < i + length qs"
proof (induction qs arbitrary: i sel)
  case (Cons q qs)
  then show ?case by (fastforce split: if_splits option.splits)
qed simp

lemma lock_cycle:
  assumes "pool_ok q" and "g_sched_preempt_cnt c \<noteq> - 1"
  obtains c' l' where "spin_lock_irqsave c (pool_lock q) = Some (c', l')"
    and "spin_unlock_irqrestore c' l' = (c, pool_lock q)"
proof -
  have free: "\<not> spin_is_locked (pool_lock q)"
    using assms(1) by (simp add: pool_ok_def spin_is_locked_def ATOMIC_READ_def)
  then obtain c' l' where s: "spin_lock_irqsave c (pool_lock q) = Some (c', l')"
    by (auto simp: spin_lock_irqsave_def spin_lock_def)
  have "spin_unlock_irqrestore c' l' = (c, (pool_lock q)\<lparr>flag := 0\<rparr>)" by (rule irqsave_restores[OF s assms(2)])
  moreover have "(pool_lock q)\<lparr>flag := 0\<rparr> = pool_lock q" using assms(1) by (simp add: pool_ok_def srt_spin_lock.equality)
  ultimately show thesis using that s by simp
qed

definition fresh_region :: "mem_info \<Rightarrow> mem_info \<Rightarrow> u32 \<Rightarrow> u32 \<Rightarrow> bool" where
  "fresh_region info info' n p \<longleftrightarrow> 8 dvd unat p \<and> pool_arena info' = pool_arena info \<and>
     (\<exists>r \<ge> unat n. pool_live info' = insert (unat p, r) (pool_live info) \<and> (unat p, r) \<notin> pool_live info \<and>
        (\<forall>x \<in> pool_live info. disjoint_regions (unat p, r) x))"

lemma pool_kmalloc:
  fixes flags :: u32
  assumes ok: "free_fn info = Some k" "alloc_fn info = Some k" "Ex (kind_inv k info)" and adm: "kind_adm k info n"
  defines "finish \<equiv> \<lambda>(info, p). if \<not> isValid p then (info, 0)
             else if flags AND NR_KMEM_ZERO \<noteq> 0 then (info\<lparr>mblk := kmemzero_blocks (mblk info) p n\<rparr>, p)
             else (info, p)"
  shows "\<exists>info' p. do { (info, p) \<leftarrow> info_alloc k info n; Some (finish (info, p)) } = Some (info', p) \<and>
    (p = 0 \<and> info' = info \<or>
     p \<noteq> 0 \<and> free_fn info' = Some k \<and> alloc_fn info' = Some k \<and> Ex (kind_inv k info') \<and> fresh_region info info' n p)"
proof -
  obtain info1 p where al: "info_alloc k info n = Some (info1, p)" using kind.alloc_returns[OF ok(3) adm] by blast
  show ?thesis
  proof (cases "p = 0")
    case True
    then have "info1 = info" using kind.alloc_null[OF ok(3) adm] al by blast
    then show ?thesis using al True by (auto simp: finish_def)
  next
    case False
    note r = kind.alloc_region[OF ok(3) adm al False]
    obtain xs where xs: "kind_inv k info1 xs" using r by blast
    obtain m where m: "unat n \<le> m" "pool_live info1 = insert (unat p, m) (pool_live info)"
      "(unat p, m) \<notin> pool_live info" "\<forall>x\<in>pool_live info. disjoint_regions (unat p, m) x" using r by blast
    have lv: "(unat p, m) \<in> pool_live info1" using m(2) by simp
    have v: "isValid p" by (rule live_block[OF kind_inv_chain[OF xs] lv])
    note z = kmemzero_keeps_pool[OF xs lv m(1)]
    have fns: "alloc_fn info1 = Some k" "free_fn info1 = Some k" using alloc_keeps_fns[OF al] ok by simp_all
    define info2 where "info2 = fst (finish (info1, p))"
    have "kind_inv k info2 xs" "pool_live info2 = pool_live info1" "pool_arena info2 = pool_arena info1"
        "alloc_fn info2 = Some k" "free_fn info2 = Some k"
      using v xs z fns by (simp_all add: info2_def finish_def)
    moreover have "finish (info1, p) = (info2, p)" using v by (simp add: info2_def finish_def)
    ultimately show ?thesis using al False r m by (auto simp: fresh_region_def)
  qed
qed

lemma sys_wf_pool: "sys_wf s \<Longrightarrow> i < length (pools s) \<Longrightarrow> pool_ok (pools s ! i)"
  by (simp add: sys_wf_def)

lemma pool_ok_wf: "pool_ok q \<Longrightarrow> alloc_fn (pool_info q) = Some k \<Longrightarrow>
    free_fn (pool_info q) = Some k \<and> Ex (kind_inv k (pool_info q))"
  by (simp add: pool_ok_def)

lemma kmalloc_cases:
  assumes wf: "sys_wf s" and adm: "kmalloc_adm flags s n"
  obtains (null) "kmalloc n flags s = Some (s, 0)"
  | (region) i info p where "i < length (pools s)" and "p \<noteq> 0"
      and "kmalloc n flags s = Some (s\<lparr>pools := (pools s)[i := (pools s ! i)\<lparr>pool_info := info\<rparr>]\<rparr>, p)"
      and "pool_ok ((pools s ! i)\<lparr>pool_info := info\<rparr>)" and "fresh_region (pool_info (pools s ! i)) info n p"
proof (cases "\<exists>i. select_pool flags (pools s) 0 None = Some (Some i)")
  case False
  then show thesis using null by (auto simp: kmalloc_def split: option.splits)
next
  case True
  then obtain i where sel: "select_pool flags (pools s) 0 None = Some (Some i)" by blast
  have i: "i < length (pools s)" using select_pool_bound[OF sel] by simp
  let ?q = "pools s ! i"
  note ok = sys_wf_pool[OF wf i]
  obtain c l where cl: "spin_lock_irqsave (mcpu s) (pool_lock ?q) = Some (c, l)"
      "spin_unlock_irqrestore c l = (mcpu s, pool_lock ?q)"
    using lock_cycle[OF ok] wf by (auto simp: sys_wf_def)
  have unl: "\<not> spin_is_locked (pool_lock ?q)"
    using ok by (simp add: pool_ok_def spin_is_locked_def ATOMIC_READ_def)
  have same: "s\<lparr>pools := (pools s)[i := ?q\<lparr>pool_lock := pool_lock ?q\<rparr>], mcpu := mcpu s\<rparr> = s"
    by (simp add: mempool_sys.equality)
  show thesis
  proof (cases "alloc_fn (pool_info ?q)")
    case None
    then show thesis using null sel unl cl same by (simp add: kmalloc_def Let_def)
  next
    case (Some k)
    note okk = pool_ok_wf[OF ok Some]
    have ka: "kind_adm k (pool_info ?q) n" using adm sel Some by (simp add: kmalloc_adm_def)
    obtain info' p where al: "do { (info, p) \<leftarrow> info_alloc k (pool_info ?q) n;
          Some (if \<not> isValid p then (info, 0) else if flags AND NR_KMEM_ZERO \<noteq> 0
                then (info\<lparr>mblk := kmemzero_blocks (mblk info) p n\<rparr>, p) else (info, p)) } = Some (info', p)"
        "p = 0 \<and> info' = pool_info ?q \<or> p \<noteq> 0 \<and> free_fn info' = Some k \<and> alloc_fn info' = Some k \<and>
          Ex (kind_inv k info') \<and> fresh_region (pool_info ?q) info' n p"
      using pool_kmalloc[OF conjunct1[OF okk] Some conjunct2[OF okk] ka, of flags] by auto
    have res: "kmalloc n flags s = Some (s\<lparr>pools := (pools s)[i := ?q\<lparr>pool_info := info'\<rparr>]\<rparr>, p)"
      using sel unl cl al(1) Some by (simp add: kmalloc_def Let_def)
    show thesis
    proof (cases "p = 0")
      case True
      then show thesis using res al(2) null same by simp
    next
      case False
      then have "pool_ok (?q\<lparr>pool_info := info'\<rparr>)" using ok al(2) by (auto simp: pool_ok_def)
      then show thesis using region[OF i False res] al(2) False by blast
    qed
  qed
qed


lemma pool_ok_region:
  assumes ok: "pool_ok q" and r: "(a, k) \<in> pool_live (pool_info q)"
  shows "unat (info_base (pool_info q)) \<le> a \<and> a + k \<le> unat (info_base (pool_info q)) + unat (info_lenth (pool_info q))"
    and "unat (info_base (pool_info q)) + unat (info_lenth (pool_info q)) < 4294963200"
    and "\<exists>f. free_fn (pool_info q) = Some f \<and> Ex (kind_inv f (pool_info q))"
proof -
  have "alloc_fn (pool_info q) \<noteq> None"
  proof
    assume "alloc_fn (pool_info q) = None"
    then have "sprt_mem (pool_info q) = 0" using ok by (simp add: pool_ok_def)
    then have "pool_blocks (pool_info q) = []" by (simp add: pool_blocks_def chain_walk.simps)
    then show False using r by (simp add: pool_live_def)
  qed
  then obtain f where f: "free_fn (pool_info q) = Some f" "Ex (kind_inv f (pool_info q))"
    using ok by (auto simp: pool_ok_def split: option.splits)
  then show "\<exists>f. free_fn (pool_info q) = Some f \<and> Ex (kind_inv f (pool_info q))" by blast
  show "unat (info_base (pool_info q)) \<le> a \<and> a + k \<le> unat (info_base (pool_info q)) + unat (info_lenth (pool_info q))"
    using kind.live_arena[OF f(2) r] by (simp add: pool_arena_def)
  show "unat (info_base (pool_info q)) + unat (info_lenth (pool_info q)) < 4294963200"
    using f(2) kind_inv_chain unfolding pool_chain_def by blast
qed

lemma arenas_apartD:
  assumes "sys_wf s" and "i < length (pools s)" and "j < length (pools s)" and "i \<noteq> j"
  shows "unat (info_base (pool_info (pools s ! i))) + unat (info_lenth (pool_info (pools s ! i)))
           \<le> unat (info_base (pool_info (pools s ! j))) \<or>
         unat (info_base (pool_info (pools s ! j))) + unat (info_lenth (pool_info (pools s ! j)))
           \<le> unat (info_base (pool_info (pools s ! i)))"
  using assms by (simp add: sys_wf_def arenas_apart_def pool_arena_def)

lemma regions_of_two_pools:
  assumes wf: "sys_wf s" and ij: "i < length (pools s)" "j < length (pools s)" "i \<noteq> j"
    and r: "(a, k) \<in> pool_live (pool_info (pools s ! i))" "(b, m) \<in> pool_live (pool_info (pools s ! j))"
  shows "disjoint_regions (a, k) (b, m)"
  using pool_ok_region(1)[OF sys_wf_pool[OF wf ij(1)] r(1)] pool_ok_region(1)[OF sys_wf_pool[OF wf ij(2)] r(2)]
    arenas_apartD[OF wf ij] by (auto simp: disjoint_regions_def)

lemma pool_of_first:
  "i < length qs \<Longrightarrow> ptr \<ge> info_base (pool_info (qs ! i)) \<and> ptr < info_base (pool_info (qs ! i)) + info_lenth (pool_info (qs ! i))
   \<Longrightarrow> \<forall>j < i. \<not> (ptr \<ge> info_base (pool_info (qs ! j)) \<and> ptr < info_base (pool_info (qs ! j)) + info_lenth (pool_info (qs ! j)))
   \<Longrightarrow> pool_of ptr qs n = Some (n + i)"
proof (induction qs arbitrary: i n)
  case (Cons q qs)
  show ?case
  proof (cases i)
    case 0
    then show ?thesis using Cons.prems by simp
  next
    case (Suc i')
    have "pool_of ptr qs (Suc n) = Some (Suc n + i')"
      using Cons.prems Suc by (intro Cons.IH) auto
    moreover have "\<not> (ptr \<ge> info_base (pool_info q) \<and> ptr < info_base (pool_info q) + info_lenth (pool_info q))"
      using Cons.prems(3) Suc by (metis nth_Cons_0 zero_less_Suc)
    ultimately show ?thesis using Suc by simp
  qed
qed simp

lemma arena_words:
  assumes "pool_ok q"
  shows "ptr \<ge> info_base (pool_info q) \<and> ptr < info_base (pool_info q) + info_lenth (pool_info q) \<longleftrightarrow>
    unat (info_base (pool_info q)) \<le> unat ptr \<and>
    unat ptr < unat (info_base (pool_info q)) + unat (info_lenth (pool_info q))"
proof (cases "alloc_fn (pool_info q)")
  case None
  then have "info_lenth (pool_info q) = 0" using assms by (simp add: pool_ok_def)
  then show ?thesis by (auto simp: word_le_nat_alt word_less_nat_alt)
next
  case (Some k)
  then have "unat (info_base (pool_info q)) + unat (info_lenth (pool_info q)) < 4294963200"
    using pool_ok_wf[OF assms Some] kind_inv_chain unfolding pool_chain_def by blast
  then show ?thesis by (simp add: word_le_nat_alt word_less_nat_alt u32_add)
qed

lemma pool_of_live:
  assumes wf: "sys_wf s" and i: "i < length (pools s)" and r: "(unat ptr, k) \<in> pool_live (pool_info (pools s ! i))"
  shows "pool_of ptr (pools s) 0 = Some i"
proof -
  let ?in = "\<lambda>j. unat (info_base (pool_info (pools s ! j))) \<le> unat ptr \<and>
    unat ptr < unat (info_base (pool_info (pools s ! j))) + unat (info_lenth (pool_info (pools s ! j)))"
  have "0 < k" using wf i r by (auto simp: sys_wf_def)
  then have ini: "?in i" using pool_ok_region(1)[OF sys_wf_pool[OF wf i] r] by auto
  moreover have "\<not> ?in j" if "j < i" for j
    using arenas_apartD[OF wf i, of j] ini that i by auto
  ultimately have "pool_of ptr (pools s) 0 = Some (0 + i)"
    using i by (intro pool_of_first) (simp_all only: arena_words[OF sys_wf_pool[OF wf]], auto simp: arena_words[OF sys_wf_pool[OF wf]])
  then show ?thesis by simp
qed

text \<open>Replacing the allocator state of one pool.\<close>

lemma sys_live_upd:
  assumes "i < length (pools s)"
  shows "sys_live (s\<lparr>pools := (pools s)[i := (pools s ! i)\<lparr>pool_info := info\<rparr>]\<rparr>) =
    pool_live info \<union> (\<Union>j \<in> {..<length (pools s)} - {i}. pool_live (pool_info (pools s ! j)))"
  using assms by (auto simp: sys_live_def nth_list_update split: if_splits)

lemma sys_live_split:
  assumes "i < length (pools s)"
  shows "sys_live s = pool_live (pool_info (pools s ! i)) \<union>
    (\<Union>j \<in> {..<length (pools s)} - {i}. pool_live (pool_info (pools s ! j)))"
  using assms by (auto simp: sys_live_def)

lemma sys_wf_upd:
  assumes wf: "sys_wf s" and i: "i < length (pools s)" and ok: "pool_ok ((pools s ! i)\<lparr>pool_info := info\<rparr>)"
    and ar: "pool_arena info = pool_arena (pool_info (pools s ! i))" and pos: "\<forall>(a, k) \<in> pool_live info. 0 < k"
  shows "sys_wf (s\<lparr>pools := (pools s)[i := (pools s ! i)\<lparr>pool_info := info\<rparr>]\<rparr>)"
proof -
  let ?qs = "(pools s)[i := (pools s ! i)\<lparr>pool_info := info\<rparr>]"
  have arena: "pool_arena (pool_info (?qs ! j)) = pool_arena (pool_info (pools s ! j))" if "j < length (pools s)" for j
    using that ar i by (cases "j = i") simp_all
  have "\<forall>q\<in>set ?qs. pool_ok q" using wf ok set_update_subset_insert[of "pools s" i] by (auto simp: sys_wf_def)
  moreover have "arenas_apart ?qs"
    using wf arena by (simp add: sys_wf_def arenas_apart_def)
  moreover have "\<forall>(a, k)\<in>pool_live (pool_info (?qs ! j)). 0 < k" if "j < length (pools s)" for j
    using that pos wf i by (cases "j = i") (simp_all add: sys_wf_def)
  ultimately show ?thesis using wf by (simp add: sys_wf_def)
qed

lemma sys_zone_upd:
  "pool_arena info = pool_arena (pool_info (pools s ! i)) \<Longrightarrow>
   sys_zone (s\<lparr>pools := (pools s)[i := (pools s ! i)\<lparr>pool_info := info\<rparr>]\<rparr>) = sys_zone s"
proof -
  assume "pool_arena info = pool_arena (pool_info (pools s ! i))"
  then have "pool_arena (pool_info ((pools s)[i := (pools s ! i)\<lparr>pool_info := info\<rparr>] ! j)) = pool_arena (pool_info (pools s ! j))"
    if "j < length (pools s)" for j using that by (cases "j = i") simp_all
  then show ?thesis by (simp add: sys_zone_def)
qed

lemma kfree_live:
  assumes wf: "sys_wf s" and r: "(unat ptr, k) \<in> sys_live s"
  shows "\<exists>s'. kfree ptr s = Some s' \<and> sys_wf s' \<and> sys_live s' = sys_live s - {(unat ptr, k)} \<and> mcpu s' = mcpu s \<and>
           sys_zone s' = sys_zone s"
proof -
  obtain i where i: "i < length (pools s)" and ri: "(unat ptr, k) \<in> pool_live (pool_info (pools s ! i))"
    using r by (auto simp: sys_live_def)
  let ?q = "pools s ! i"
  note ok = sys_wf_pool[OF wf i]
  obtain f where f: "free_fn (pool_info ?q) = Some f" "Ex (kind_inv f (pool_info ?q))"
    using pool_ok_region(3)[OF ok ri] by blast
  have af: "alloc_fn (pool_info ?q) = Some f" using ok f(1) by (auto simp: pool_ok_def split: option.splits)
  obtain info where info: "info_free f (pool_info ?q) ptr = Some info" "Ex (kind_inv f info)"
      "pool_arena info = pool_arena (pool_info ?q)" "pool_live info = pool_live (pool_info ?q) - {(unat ptr, k)}"
    using kind.free_region[OF f(2) ri] by blast
  obtain c l where cl: "spin_lock_irqsave (mcpu s) (pool_lock ?q) = Some (c, l)"
      "spin_unlock_irqrestore c l = (mcpu s, pool_lock ?q)"
    using lock_cycle[OF ok] wf by (auto simp: sys_wf_def)
  let ?s = "s\<lparr>pools := (pools s)[i := ?q\<lparr>pool_info := info\<rparr>]\<rparr>"
  have kf: "kfree ptr s = Some ?s"
    using pool_of_live[OF wf i ri] cl info(1) f(1) by (simp add: kfree_def Let_def)
  have okk: "pool_ok (?q\<lparr>pool_info := info\<rparr>)"
    using ok free_keeps_fns[OF info(1)] f af info(2) by (simp add: pool_ok_def)
  have "\<forall>(a, k)\<in>pool_live info. 0 < k" using wf i info(4) by (auto simp: sys_wf_def)
  note wf' = sys_wf_upd[OF wf i okk info(3) this]
  have "(unat ptr, k) \<notin> pool_live (pool_info (pools s ! j))" if "j < length (pools s)" "j \<noteq> i" for j
  proof
    assume "(unat ptr, k) \<in> pool_live (pool_info (pools s ! j))"
    then have "disjoint_regions (unat ptr, k) (unat ptr, k)" using regions_of_two_pools[OF wf i that(1) _ ri] that(2) by auto
    moreover have "0 < k" using wf i ri by (auto simp: sys_wf_def)
    ultimately show False by (simp add: disjoint_regions_def)
  qed
  then have "sys_live ?s = sys_live s - {(unat ptr, k)}"
    unfolding sys_live_upd[OF i] sys_live_split[OF i] info(4) by blast
  then show ?thesis using kf wf' sys_zone_upd[OF info(3)] by auto
qed

interpretation kheap: region_allocator sys_wf "\<lambda>s n. kmalloc n flags s" "\<lambda>s ptr. kfree ptr s" sys_live
  "\<lambda>s. (0, 4294967296)" "kmalloc_adm flags" for flags
proof unfold_locales
  fix s n assume wf: "sys_wf s" and adm: "kmalloc_adm flags s n"
  show "\<exists>s' q. kmalloc n flags s = Some (s', q)" by (rule kmalloc_cases[OF wf adm]) auto
  fix s' assume null: "kmalloc n flags s = Some (s', 0)"
  show "s' = s" by (rule kmalloc_cases[OF wf adm]) (use null in auto)
next
  fix s n s' q assume wf: "sys_wf s" and adm: "kmalloc_adm flags s n"
    and al: "kmalloc n flags s = Some (s', q)" "q \<noteq> 0"
  show "sys_wf s' \<and> (0, 4294967296) = (0, 4294967296 :: nat) \<and> 8 dvd unat q \<and>
      (\<exists>k\<ge>unat n. sys_live s' = insert (unat q, k) (sys_live s) \<and> (unat q, k) \<notin> sys_live s \<and>
        (\<forall>r\<in>sys_live s. disjoint_regions (unat q, k) r))"
  proof (rule kmalloc_cases[OF wf adm])
    assume "kmalloc n flags s = Some (s, 0)"
    then show ?thesis using al by simp
  next
    fix i info p
    assume i: "i < length (pools s)" and p: "p \<noteq> 0" and ok: "pool_ok ((pools s ! i)\<lparr>pool_info := info\<rparr>)"
      and res: "kmalloc n flags s = Some (s\<lparr>pools := (pools s)[i := (pools s ! i)\<lparr>pool_info := info\<rparr>]\<rparr>, p)"
      and fr: "fresh_region (pool_info (pools s ! i)) info n p"
    obtain k where k: "unat n \<le> k" "pool_live info = insert (unat p, k) (pool_live (pool_info (pools s ! i)))"
        "(unat p, k) \<notin> pool_live (pool_info (pools s ! i))"
        "\<forall>x\<in>pool_live (pool_info (pools s ! i)). disjoint_regions (unat p, k) x"
      using fr by (auto simp: fresh_region_def)
    have s': "s' = s\<lparr>pools := (pools s)[i := (pools s ! i)\<lparr>pool_info := info\<rparr>]\<rparr>" "q = p" using al res by auto
    have "0 < unat n" using adm by (simp add: kmalloc_adm_def unat_gt_0)
    then have kpos: "0 < k" using k(1) by simp
    have wf': "sys_wf s'" unfolding s'
      by (rule sys_wf_upd[OF wf i ok]) (use fr k(2) kpos wf i in \<open>auto simp: fresh_region_def sys_wf_def\<close>)
    have "disjoint_regions (unat p, k) x" if "j < length (pools s)" "j \<noteq> i" "x \<in> pool_live (pool_info (pools s ! j))" for j x
    proof (cases x)
      case (Pair a b)
      then show ?thesis
        using regions_of_two_pools[OF wf', of i j "unat p" k a b] i that k(2) by (simp add: s')
    qed
    then have d: "\<forall>r\<in>sys_live s. disjoint_regions (unat p, k) r"
      using k(4) unfolding sys_live_split[OF i] by blast
    then have "(unat p, k) \<notin> sys_live s" using kpos by (force simp: disjoint_regions_def)
    moreover have "sys_live s' = insert (unat p, k) (sys_live s)"
      unfolding s' sys_live_upd[OF i] sys_live_split[OF i] k(2) by blast
    ultimately show ?thesis using wf' d fr k(1) s'(2) by (auto simp: fresh_region_def)
  qed
next
  fix s a k assume wf: "sys_wf s" and r: "(a, k) \<in> sys_live s"
  then obtain i where "i < length (pools s)" "(a, k) \<in> pool_live (pool_info (pools s ! i))" by (auto simp: sys_live_def)
  then show "fst (0, 4294967296) \<le> a \<and> a + k \<le> snd (0, 4294967296)"
    using pool_ok_region(1,2)[OF sys_wf_pool[OF wf]] by fastforce
next
  fix s r r' assume wf: "sys_wf s" and r: "r \<in> sys_live s" "r' \<in> sys_live s" "r \<noteq> r'"
  obtain i j where ij: "i < length (pools s)" "r \<in> pool_live (pool_info (pools s ! i))"
    "j < length (pools s)" "r' \<in> pool_live (pool_info (pools s ! j))" using r by (auto simp: sys_live_def)
  show "disjoint_regions r r'"
  proof (cases "i = j")
    case True
    obtain f where "Ex (kind_inv f (pool_info (pools s ! i)))"
      using pool_ok_region(3)[OF sys_wf_pool[OF wf ij(1)], of "fst r" "snd r"] ij(2) by auto
    then show ?thesis using kind.live_apart ij r(3) True by blast
  next
    case False
    then show ?thesis
      using regions_of_two_pools[OF wf ij(1,3) False, of "fst r" "snd r" "fst r'" "snd r'"] ij by simp
  qed
next
  fix s k and q :: u32 assume "sys_wf s" "(unat q, k) \<in> sys_live s"
  then show "\<exists>s'. kfree q s = Some s' \<and> sys_wf s' \<and> (0, 4294967296) = (0, 4294967296 :: nat) \<and> sys_live s' = sys_live s - {(unat q, k)}"
    using kfree_live by blast
qed

lemma live_zone:
  assumes "sys_wf s" and "(a, k) \<in> sys_live s"
  shows "a \<in> sys_zone s" and "a + k < 4294963200" and "0 < k"
proof -
  obtain i where i: "i < length (pools s)" "(a, k) \<in> pool_live (pool_info (pools s ! i))" using assms(2) by (auto simp: sys_live_def)
  show k: "0 < k" using assms(1) i by (auto simp: sys_wf_def)
  note r = pool_ok_region(1,2)[OF sys_wf_pool[OF assms(1) i(1)] i(2)]
  show "a + k < 4294963200" using r by linarith
  have "a \<in> {fst (pool_arena (pool_info (pools s ! i))) ..< snd (pool_arena (pool_info (pools s ! i)))}"
    using r k by (simp add: pool_arena_def)
  then show "a \<in> sys_zone s" using i(1) unfolding sys_zone_def by blast
qed

text \<open>A request as its client sees it: null and nothing has changed, or a valid address in the pools at which no
  region began before.\<close>

lemma kmalloc_request:
  assumes "sys_wf s" and "kmalloc_adm flags s n"
  shows "\<exists>s' q. kmalloc n flags s = Some (s', q) \<and> mcpu s' = mcpu s \<and> sys_wf s' \<and> sys_zone s' = sys_zone s \<and> (q = 0 \<longrightarrow> s' = s) \<and>
           (q \<noteq> 0 \<longrightarrow> isValid q \<and> unat q \<in> sys_zone s \<and>
              (\<exists>k\<ge>unat n. sys_live s' = insert (unat q, k) (sys_live s) \<and> (\<forall>x\<in>sys_live s. fst x \<noteq> unat q)))"
proof -
  obtain s' q where al: "kmalloc n flags s = Some (s', q)" "mcpu s' = mcpu s" "sys_zone s' = sys_zone s" "q = 0 \<longrightarrow> s' = s"
  proof (rule kmalloc_cases[OF assms])
    assume "kmalloc n flags s = Some (s, 0)"
    then show thesis by (rule that) simp_all
  next
    fix i info p
    assume "p \<noteq> 0" "kmalloc n flags s = Some (s\<lparr>pools := (pools s)[i := (pools s ! i)\<lparr>pool_info := info\<rparr>]\<rparr>, p)"
      "fresh_region (pool_info (pools s ! i)) info n p"
    then show thesis using that[of "s\<lparr>pools := (pools s)[i := (pools s ! i)\<lparr>pool_info := info\<rparr>]\<rparr>" p] sys_zone_upd[of info s i]
      by (simp add: fresh_region_def)
  qed
  show ?thesis
  proof (cases "q = 0")
    case False
    obtain k where k: "sys_wf s'" "unat n \<le> k" "sys_live s' = insert (unat q, k) (sys_live s)"
        "\<forall>r\<in>sys_live s. disjoint_regions (unat q, k) r"
      using kheap.alloc_region[OF assms al(1) False] by blast
    note z = live_zone[OF k(1), of "unat q" k]
    have "fst x \<noteq> unat q" if x: "x \<in> sys_live s" for x
    proof -
      have "0 < snd x" using live_zone(3)[OF assms(1), of "fst x" "snd x"] x by simp
      then show ?thesis using k(4) x z(3) k(3) by (fastforce simp: disjoint_regions_def)
    qed
    then show ?thesis using al k z False by (auto simp: isValid_iff unat_gt_0)
  qed (use al assms(1) in auto)
qed

subsection \<open>Setting up the pools\<close>

definition blank_pool :: "fwk_mempool \<Rightarrow> bool" where
  "blank_pool q \<longleftrightarrow> counter (sgrt_atc (pool_lock q)) = 0 \<and> flag (pool_lock q) = 0 \<and>
     isValid (info_ptr (pool_info q)) \<and> info_base (pool_info q) = 0 \<and> info_lenth (pool_info q) = 0 \<and>
     sprt_mem (pool_info q) = 0 \<and> alloc_fn (pool_info q) = None \<and> free_fn (pool_info q) = None"

definition good_range :: "u32 \<times> u32 \<Rightarrow> bool" where
  "good_range r \<longleftrightarrow> 0 < unat (fst r) \<and> 40 \<le> unat (snd r) \<and> unat (fst r) + unat (snd r) < 4294963200"

definition range_of :: "u32 \<times> u32 \<Rightarrow> nat \<times> nat" where
  "range_of r = (unat (fst r), unat (snd r))"

lemma created_block:
  assumes "blank_pool q" and "good_range r"
  obtains info where "memory_block_create (pool_info q) (fst r) (snd r) = Some (info, ER_NORMAL)"
    and "pool_ok (q\<lparr>pool_info := info\<rparr>)" and "pool_live info = {}"
    and "unat (fst r) \<le> fst (pool_arena info)" and "snd (pool_arena info) = unat (fst r) + unat (snd r)"
proof -
  obtain info where info: "memory_block_create (pool_info q) (fst r) (snd r) = Some (info, ER_NORMAL)"
      "block_inv info [mrt_num_align8 (fst r)]" "pool_live info = {}" "alloc_fn info = Some BlockMem"
      "free_fn info = Some BlockMem" "pool_arena info = (unat (mrt_num_align8 (fst r)), unat (fst r) + unat (snd r))"
    using block_create_inv[of "pool_info q" "fst r" "snd r"] assms by (auto simp: blank_pool_def good_range_def)
  moreover have "pool_ok (q\<lparr>pool_info := info\<rparr>)"
    using info assms(1) by (auto simp: pool_ok_def blank_pool_def kind_inv_def)
  moreover have "unat (fst r) \<le> unat (mrt_num_align8 (fst r))"
    using align8_bounds(1)[of "fst r"] assms(2) by (simp add: good_range_def)
  ultimately show thesis using that by simp
qed

lemma created_simple:
  assumes "blank_pool q" and "good_range r"
  defines "info \<equiv> fst (memory_simple_block_create (pool_info q) (fst r) (snd r))"
  shows "pool_ok (q\<lparr>pool_info := info\<rparr>)" and "pool_live info = {}"
    and "unat (fst r) \<le> fst (pool_arena info)" and "snd (pool_arena info) = unat (fst r) + unat (snd r)"
proof -
  have bl: "isValid (info_ptr (pool_info q))" "\<not> isValid (sprt_mem (pool_info q))"
    and rg: "unat (fst r) + unat (snd r) < 4294963200" "40 \<le> unat (snd r)" "0 < unat (fst r)"
    using assms(1,2) by (simp_all add: blank_pool_def good_range_def)
  note cr = simple_create_inv[OF bl rg, folded info_def]
  have "\<not> snd r \<le> MEM_BLOCK_HEADER_SIZE" using rg by (simp add: word_le_nat_alt MEM_BLOCK_HEADER_SIZE_def)
  then have "alloc_fn info = Some SimpleMem" "free_fn info = Some SimpleMem"
    using bl by (simp_all add: info_def memory_simple_block_create_def Let_def)
  then show "pool_ok (q\<lparr>pool_info := info\<rparr>)"
    using cr(1) assms(1) by (auto simp: pool_ok_def blank_pool_def kind_inv_def)
  show "pool_live info = {}" by (rule cr(3))
  show "unat (fst r) \<le> fst (pool_arena info)" "snd (pool_arena info) = unat (fst r) + unat (snd r)"
    using cr(4) align8_bounds(1)[of "fst r"] rg by simp_all
qed

lemma init_lock_blank: "counter (sgrt_atc l) = 0 \<Longrightarrow> spin_lock_init l = l"
  by (simp add: spin_lock_init_def ATOMIC_SET_def)

lemma mempool_initial_sets_up:
  assumes ps: "pools s = [q0, q1, q2, q3]" and bl: "blank_pool q0" "blank_pool q1" "blank_pool q2" "blank_pool q3"
    and g: "good_range kp" "good_range fb" "good_range sk" and cnt: "g_sched_preempt_cnt (mcpu s) \<noteq> - 1"
    and d: "disjoint_regions (range_of kp) (range_of fb)" "disjoint_regions (range_of kp) (range_of sk)"
      "disjoint_regions (range_of fb) (range_of sk)"
  shows "\<exists>s'. fwk_mempool_initial kp fb sk s = Some (s', True) \<and> sys_wf s' \<and> sys_live s' = {}"
proof -
  obtain i1 where i1: "memory_block_create (pool_info q1) (fst kp) (snd kp) = Some (i1, ER_NORMAL)"
      "pool_ok (q1\<lparr>pool_info := i1\<rparr>)" "pool_live i1 = {}" "unat (fst kp) \<le> fst (pool_arena i1)"
      "snd (pool_arena i1) = unat (fst kp) + unat (snd kp)"
    by (rule created_block[OF bl(2) g(1)])
  obtain i3 where i3: "memory_block_create (pool_info q3) (fst sk) (snd sk) = Some (i3, ER_NORMAL)"
      "pool_ok (q3\<lparr>pool_info := i3\<rparr>)" "pool_live i3 = {}" "unat (fst sk) \<le> fst (pool_arena i3)"
      "snd (pool_arena i3) = unat (fst sk) + unat (snd sk)"
    by (rule created_block[OF bl(4) g(3)])
  define i2 where "i2 = fst (memory_simple_block_create (pool_info q2) (fst fb) (snd fb))"
  note i2 = created_simple[OF bl(3) g(2), folded i2_def]
  let ?s = "s\<lparr>pools := [q0, q1\<lparr>pool_info := i1\<rparr>, q2\<lparr>pool_info := i2\<rparr>, q3\<lparr>pool_info := i3\<rparr>]\<rparr>"
  have lk: "q\<lparr>pool_info := i, pool_lock := spin_lock_init (pool_lock q)\<rparr> = q\<lparr>pool_info := i\<rparr>" if "blank_pool q" for q i
    using that by (simp add: blank_pool_def init_lock_blank fwk_mempool.equality)
  have "fwk_mempool_initial kp fb sk s = Some (?s, True)"
    using i1(1) i3(1) lk[OF bl(2)] lk[OF bl(3)] lk[OF bl(4)]
    by (simp add: fwk_mempool_initial_def pool_create_def pool_init_lock_def ps FWK_MEMPOOL_KERNEL_def
        FWK_MEMPOOL_FB_DRAM_def FWK_MEMPOOL_SK_BUFF_def ER_NORMAL_def Let_def i2_def case_prod_beta)
  moreover have q0: "pool_ok q0" "pool_live (pool_info q0) = {}" "pool_arena (pool_info q0) = (0, 0)"
    using bl(1) by (simp_all add: pool_ok_def blank_pool_def pool_live_def pool_blocks_def chain_walk.simps pool_arena_def)
  moreover have "arenas_apart (pools ?s)"
    using i1(4,5) i2(3,4) i3(4,5) q0(3) d
    by (auto simp: arenas_apart_def nth_Cons disjoint_regions_def range_of_def split: nat.splits)
  ultimately show ?thesis
    using i1(2,3) i2(1,2) i3(2,3) cnt
    by (auto simp: sys_wf_def sys_live_def nth_Cons split: nat.splits)
qed

text \<open>The requests of a client one after the other: all of them admissible, and none of them refused.\<close>

fun requests_adm :: "(u32 \<times> u32) list \<Rightarrow> mempool_sys \<Rightarrow> bool" where
  "requests_adm [] m = True"
| "requests_adm ((n, flags) # rs) m \<longleftrightarrow> kmalloc_adm flags m n \<and>
     (case kmalloc n flags m of Some (m, q) \<Rightarrow> q \<noteq> 0 \<longrightarrow> requests_adm rs m | None \<Rightarrow> True)"

fun served :: "(u32 \<times> u32) list \<Rightarrow> mempool_sys \<Rightarrow> bool" where
  "served [] m = True"
| "served ((n, flags) # rs) m = (case kmalloc n flags m of Some (m, q) \<Rightarrow> q \<noteq> 0 \<and> served rs m | None \<Rightarrow> False)"

subsection \<open>Properties\<close>

text \<open>C1: an admissible \<^verbatim>\<open>kmalloc\<close> (\<open>kmalloc_adm\<close>) returns. It gives null and changes nothing, or it gives an
  8-byte aligned region of at least the requested size that overlaps no region handed out by any
  pool before; the heap stays well formed.\<close>

theorem kmalloc_region:
  assumes "sys_wf s" and "kmalloc_adm flags s n"
  shows "kmalloc n flags s = Some (s, 0) \<or>
    (\<exists>s' q k. kmalloc n flags s = Some (s', q) \<and> q \<noteq> 0 \<and> 8 dvd unat q \<and> unat n \<le> k \<and> sys_wf s' \<and>
       sys_live s' = insert (unat q, k) (sys_live s) \<and> pairwise disjoint_regions (sys_live s'))"
proof -
  obtain s' q where al: "kmalloc n flags s = Some (s', q)" using kheap.alloc_returns[OF assms] by blast
  show ?thesis
  proof (cases "q = 0")
    case True
    then show ?thesis using kheap.alloc_null[OF assms] al by simp
  next
    case False
    note r = kheap.alloc_region[OF assms al False]
    then have "pairwise disjoint_regions (sys_live s')" using kheap.live_apart[of s'] by (simp add: pairwise_def)
    then show ?thesis using al False r by blast
  qed
qed

text \<open>C2: \<^verbatim>\<open>kfree\<close> of what \<^verbatim>\<open>kmalloc\<close> returned for an admissible request gives the heap back its regions. A request
  is admissible (\<open>kmalloc_adm\<close>) if it is not for 0 bytes, its rounded size with the header does not wrap round in 32
  bits, and it is not an exact fit of what is left of a block in use, for which \<^verbatim>\<open>kfree\<close> is not covered: the header
  split off there has a stale link.\<close>

theorem kmalloc_kfree:
  assumes "sys_wf s" and "kmalloc_adm flags s n" and "kmalloc n flags s = Some (s', q)" and "q \<noteq> 0"
  shows "\<exists>s''. kfree q s' = Some s'' \<and> sys_wf s'' \<and> sys_live s'' = sys_live s"
  using assms by (rule kheap.alloc_then_free)

text \<open>C14: \<^verbatim>\<open>fwk_mempool_initial\<close> on blank pools and three disjoint memory ranges succeeds and leaves a
  well-formed heap with nothing handed out.\<close>

theorem mempool_initial_wf:
  assumes "pools s = [q0, q1, q2, q3]" and "blank_pool q0" "blank_pool q1" "blank_pool q2" "blank_pool q3"
    and "good_range kp" "good_range fb" "good_range sk" and "g_sched_preempt_cnt (mcpu s) \<noteq> - 1"
    and "disjoint_regions (range_of kp) (range_of fb)" "disjoint_regions (range_of kp) (range_of sk)"
      "disjoint_regions (range_of fb) (range_of sk)"
  shows "\<exists>s'. fwk_mempool_initial kp fb sk s = Some (s', True) \<and> sys_wf s' \<and> sys_live s' = {}"
  using assms by (rule mempool_initial_sets_up)

subsection \<open>Witnesses\<close>

definition demo_pool :: "u32 \<Rightarrow> mem_info \<Rightarrow> fwk_mempool" where
  "demo_pool msk info = \<lparr>pool_mask = msk, pool_info = info, pool_lock = \<lparr>sgrt_atc = \<lparr>counter = 0\<rparr>, flag = 0\<rparr>\<rparr>"

definition heap_with :: "mem_info \<Rightarrow> mempool_sys" where
  "heap_with info = \<lparr>pools = [demo_pool NR_KMEM_FIXDATA demo_info, demo_pool NR_KMEM_NORMAL info,
      demo_pool NR_KMEM_FBUFFER demo_info, demo_pool NR_KMEM_SK_BUFF demo_info],
    mcpu = \<lparr>g_sched_preempt_cnt = 0, cpsr = 0x13\<rparr>\<rparr>"

lemmas gfp_eval = GFP_KERNEL_def NR_KMEM_ZERO_def NR_KMEM_WAIT_def NR_KMEM_NORMAL_def NR_KMEM_FBUFFER_def
  NR_KMEM_FIXDATA_def NR_KMEM_SK_BUFF_def

lemma demo_blank: "blank_pool (demo_pool msk demo_info)"
  by (simp add: blank_pool_def demo_pool_def demo_info_def isValid_iff)

lemma blank_ok: "blank_pool q \<Longrightarrow> pool_ok q \<and> pool_live (pool_info q) = {} \<and> pool_arena (pool_info q) = (0, 0)"
  by (simp add: pool_ok_def blank_pool_def pool_live_def pool_blocks_def chain_walk.simps pool_arena_def)

lemma heap0_wf: "sys_wf (heap_with block0)"
proof -
  have ok: "pool_ok (demo_pool NR_KMEM_NORMAL block0)"
    using block0_inv by (auto simp: pool_ok_def demo_pool_def block0_def kind_inv_def)
  have live: "pool_live block0 = {}"
    by (simp add: pool_live_def block0_def demo_info_def pool_blocks_def chain_walk.simps abs_block_def blk_used_def mem_eval)
  have ar: "pool_arena block0 = (8192, 12288)" by (simp add: pool_arena_def block0_def)
  note b = blank_ok[OF demo_blank]
  have d: "pool_info (demo_pool msk info) = info" for msk info by (simp add: demo_pool_def)
  show ?thesis using ok b ar live
    by (auto simp: sys_wf_def heap_with_def arenas_apart_def nth_Cons d split: nat.splits)
qed

lemma block0_alloc_fn: "alloc_fn block0 = Some BlockMem"
  by (simp add: block0_def)

lemma heap0_adm: "kmalloc_adm GFP_KERNEL (heap_with block0) 16"
  using block_adm_values(1)
  by (simp add: kmalloc_adm_def heap_with_def demo_pool_def gfp_eval kind_adm_def block0_alloc_fn)

lemma heap1: "kmalloc 16 GFP_KERNEL (heap_with block0) = Some (heap_with block1, 8224)"
  using block1
  by (simp add: kmalloc_def heap_with_def demo_pool_def gfp_eval spin_is_locked_def spin_lock_irqsave_def spin_lock_def
      spin_unlock_irqrestore_def spin_unlock_def atomic_simps preempt_simps mrt_disable_cpu_irq_def mrt_enable_cpu_irq_def
      CPSR_BIT_I_def Let_def info_alloc_def isValid_iff block0_alloc_fn)

theorem kmalloc_region_witness:
  "kmalloc 16 GFP_KERNEL (heap_with block0) = Some (heap_with block1, 8224) \<and>
   pairwise disjoint_regions (sys_live (heap_with block1))"
  using kmalloc_region[OF heap0_wf heap0_adm] heap1 by auto

theorem kmalloc_kfree_witness:
  "\<exists>s''. kfree 8224 (heap_with block1) = Some s'' \<and> sys_live s'' = sys_live (heap_with block0)"
  using kmalloc_kfree[OF heap0_wf heap0_adm heap1] by auto

theorem mempool_initial_wf_witness:
  "\<exists>s'. fwk_mempool_initial (0x10000, 0x1000) (0x20000, 0x1000) (0x30000, 0x2000) (heap_with demo_info) = Some (s', True) \<and>
     sys_live s' = {}"
proof -
  have p: "pools (heap_with demo_info) = [demo_pool NR_KMEM_FIXDATA demo_info, demo_pool NR_KMEM_NORMAL demo_info,
      demo_pool NR_KMEM_FBUFFER demo_info, demo_pool NR_KMEM_SK_BUFF demo_info]" by (simp add: heap_with_def)
  have "g_sched_preempt_cnt (mcpu (heap_with demo_info)) \<noteq> - 1" by (simp add: heap_with_def)
  then show ?thesis
    using mempool_initial_wf[OF p demo_blank demo_blank demo_blank demo_blank,
        of "(0x10000, 0x1000)" "(0x20000, 0x1000)" "(0x30000, 0x2000)"]
    by (auto simp: good_range_def range_of_def disjoint_regions_def)
qed

end
