(* ===== verification/Generic.thy ===== *)
theory Generic
  imports Locks
begin

text \<open>
  \<^verbatim>\<open>common/generic/generic.c\<close> and the bit and byte-order helpers of
  \<^verbatim>\<open>include/common/generic.h\<close>: division by repeated subtraction, conversion of numbers to and
  from text, bit reversal. Text lives in a byte store; a pointer is a 32-bit address and an
  access never leaves the store, so only a null pointer that the source tests is special.
\<close>

type_synonym bmem = "u32 \<Rightarrow> u8"

subsection \<open>Division by repeated subtraction\<close>

partial_function (option) udiv_loop :: "u32 \<Rightarrow> u32 \<Rightarrow> u32 \<Rightarrow> u32 option" where
  "udiv_loop divied dv count =
     (if divied \<ge> dv then udiv_loop (divied - dv) dv (count + 1) else Some count)"

definition udiv_integer :: "u32 \<Rightarrow> u32 \<Rightarrow> u32 option" where
  "udiv_integer divied dv = udiv_loop divied dv 0"

partial_function (option) udiv_remainder :: "u32 \<Rightarrow> u32 \<Rightarrow> u32 option" where
  "udiv_remainder divied dv =
     (if divied \<ge> dv then udiv_remainder (divied - dv) dv else Some divied)"

definition mrt_abs :: "u32 \<Rightarrow> u32" where
  "mrt_abs a = (if a <s 0 then - a else a)"

partial_function (option) sdiv_loop :: "u32 \<Rightarrow> u32 \<Rightarrow> u32 \<Rightarrow> u32 option" where
  "sdiv_loop number1 number2 count =
     (if number2 \<le>s number1 then sdiv_loop (number1 - number2) number2 (count + 1) else Some count)"

definition sdiv_integer :: "u32 \<Rightarrow> u32 \<Rightarrow> u32 option" where
  "sdiv_integer divied dv = do {
     count \<leftarrow> sdiv_loop (mrt_abs divied) (mrt_abs dv) 0;
     Some (if divied XOR dv <s 0 then - count else count)
   }"

subsection \<open>Numbers as text\<close>

text \<open>
  The do-while loops that fill \<^verbatim>\<open>temp\<close>, the least significant digit first, and the loop that
  copies it to the buffer in reverse.
\<close>

definition hex_char :: "bool \<Rightarrow> u32 \<Rightarrow> u8" where
  "hex_char mode result =
     (if result \<ge> 10 then ucast result - 10 + (if mode then 65 else 97) else ucast result + 48)"

function hex_digits :: "bool \<Rightarrow> u32 \<Rightarrow> u8 list \<Rightarrow> u8 list" where
  "hex_digits mode number temp =
     (let result = number - push_bit 4 (drop_bit 4 number);
          number = drop_bit 4 number;
          temp = temp @ [hex_char mode result]
      in if number \<noteq> 0 then hex_digits mode number temp else temp)"
  by pat_completeness auto

function bin_digits :: "u32 \<Rightarrow> u8 list \<Rightarrow> u8 list" where
  "bin_digits number temp =
     (let result = number - push_bit 1 (drop_bit 1 number);
          number = drop_bit 1 number;
          temp = temp @ [ucast result + 48]
      in if number \<noteq> 0 then bin_digits number temp else temp)"
  by pat_completeness auto

definition put_reversed :: "u32 \<Rightarrow> u8 list \<Rightarrow> bmem \<Rightarrow> bmem" where
  "put_reversed buf temp m =
     fold (\<lambda>idx m. m(buf + of_nat idx + 2 := temp ! (length temp - idx - 1))) [0..<length temp] m"

text \<open>The lemma that makes the digit loops end, and their termination proofs.\<close>

lemma drop_bit_decreases:
  assumes "drop_bit (Suc n) (w :: u32) \<noteq> 0"
  shows "unat (drop_bit (Suc n) w) < unat w"
proof -
  have "unat w \<noteq> 0" using assms by (metis drop_bit_of_0 unat_eq_zero)
  then have "unat w div 2 ^ Suc n < unat w" by (intro div_less_dividend one_less_power) auto
  then show ?thesis by (simp only: unat_drop_bit_eq drop_bit_nat_def)
qed

termination hex_digits
  using drop_bit_decreases[of 3] by (relation "measure (\<lambda>(_, n, _). unat n)") (auto simp: eval_nat_numeral)

termination bin_digits
  using drop_bit_decreases[of 0] by (relation "measure (\<lambda>(n, _). unat n)") auto

declare hex_digits.simps [simp del] bin_digits.simps [simp del]

definition dec_to_hex :: "u32 \<Rightarrow> u32 \<Rightarrow> bool \<Rightarrow> bmem \<Rightarrow> bmem \<times> u32" where
  "dec_to_hex buf number mode m =
     (let temp = hex_digits mode number [];
          m = (if buf = 0 then m
               else put_reversed buf temp (m(buf := 48, buf + 1 := (if mode then 88 else 120))))
      in (m, of_nat (length temp) + 2))"

definition dec_to_binary :: "u32 \<Rightarrow> u32 \<Rightarrow> bmem \<Rightarrow> bmem \<times> u32" where
  "dec_to_binary buf number m =
     (let temp = bin_digits number [];
          m = (if buf = 0 then m else put_reversed buf temp (m(buf := 48, buf + 1 := 98)))
      in (m, of_nat (length temp) + 2))"

text \<open>
  \<^verbatim>\<open>ascii_to_dec\<close>: one step of the switch (\<open>None\<close> is the jump to \<^verbatim>\<open>fail\<close>) and the loop over the
  characters. The accumulator is 32 bits wide and wraps.
\<close>

definition ascii_step :: "u8 \<Rightarrow> u32 \<Rightarrow> u8 \<Rightarrow> u32 option" where
  "ascii_step type val c =
     (if type = 2 then
        (if c \<noteq> 48 \<and> c \<noteq> 49 then None else Some (push_bit 1 val + ucast c - 48))
      else if type = 10 then
        (if c < 48 \<or> c > 57 then None else Some (push_bit 1 val + push_bit 3 val + ucast c - 48))
      else if type = 16 then
        (if c \<ge> 48 \<and> c \<le> 57 then Some (push_bit 4 val + ucast c - 48)
         else if c \<ge> 97 \<and> c \<le> 122 then Some (push_bit 4 val + ucast c - 97 + 10)
         else if c \<ge> 65 \<and> c \<le> 90 then Some (push_bit 4 val + ucast c - 65 + 10)
         else None)
      else None)"

partial_function (option) ascii_loop :: "bmem \<Rightarrow> u8 \<Rightarrow> u32 \<Rightarrow> u32 \<Rightarrow> u32 option" where
  "ascii_loop m type val p =
     (if m p = 0 then Some val
      else case ascii_step type val (m p) of
             None \<Rightarrow> Some (- 1)
           | Some val' \<Rightarrow> ascii_loop m type val' (p + 1))"

definition ascii_type :: "bmem \<Rightarrow> u32 \<Rightarrow> u8" where
  "ascii_type m p =
     (if m p = 48 \<and> (m (p + 1) = 88 \<or> m (p + 1) = 120) then 16
      else if m p = 48 \<and> (m (p + 1) = 66 \<or> m (p + 1) = 98) then 2
      else 10)"

definition ascii_to_dec :: "bmem \<Rightarrow> u32 \<Rightarrow> u32 option" where
  "ascii_to_dec m str =
     (if str = 0 then Some 0
      else let type = ascii_type m str; p = (if type \<noteq> 10 then str + 2 else str)
           in if type \<noteq> 10 \<and> m p = 0 then Some (- 1) else ascii_loop m type 0 p)"

subsection \<open>Bits and bytes\<close>

definition isPower2 :: "u32 \<Rightarrow> bool" where
  "isPower2 number \<longleftrightarrow> number \<noteq> 0 \<and> number AND (number - 1) = 0"

fun reverse_bit_loop :: "nat \<Rightarrow> u8 \<Rightarrow> u8 \<Rightarrow> u8" where
  "reverse_bit_loop 0 result val = result"
| "reverse_bit_loop (Suc i) result val =
     reverse_bit_loop i (push_bit 1 result OR (val AND 1)) (drop_bit 1 val)"

definition reverse_bit :: "u8 \<Rightarrow> u8" where
  "reverse_bit val = reverse_bit_loop 8 0 val"

definition TO_CONVERT_BIT8 :: "u8 \<Rightarrow> u8" where
  "TO_CONVERT_BIT8 x =
     push_bit 7 (x AND 0x01) OR push_bit 5 (x AND 0x02) OR push_bit 3 (x AND 0x04) OR
     push_bit 1 (x AND 0x08) OR drop_bit 1 (x AND 0x10) OR drop_bit 3 (x AND 0x20) OR
     drop_bit 5 (x AND 0x40) OR drop_bit 7 (x AND 0x80)"

definition TO_CONVERT_BYTE16 :: "u16 \<Rightarrow> u16" where
  "TO_CONVERT_BYTE16 x = push_bit 8 (x AND 0x00ff) OR drop_bit 8 (x AND 0xff00)"

definition TO_CONVERT_BYTE32 :: "u32 \<Rightarrow> u32" where
  "TO_CONVERT_BYTE32 x =
     push_bit 24 (x AND 0x000000ff) OR push_bit 8 (x AND 0x0000ff00) OR
     drop_bit 8 (x AND 0x00ff0000) OR drop_bit 24 (x AND 0xff000000)"

record common_random_state =
  rand_lock :: srt_spin_lock
  rand_value :: u32

definition random_val :: "u32 \<Rightarrow> cpu \<Rightarrow> common_random_state \<Rightarrow> (cpu \<times> common_random_state \<times> u32) option" where
  "random_val jiffies c r = do {
     (c, l) \<leftarrow> spin_lock_irqsave c (rand_lock r);
     let val = (jiffies mod 32767) * (rand_value r + 345977126) XOR 4298547119;
     let (c, l) = spin_unlock_irqrestore c l;
     Some (c, r\<lparr>rand_lock := l, rand_value := val\<rparr>, val)
   }"


subsection \<open>Division\<close>

lemma udiv_loop_eq:
  "dv \<noteq> 0 \<Longrightarrow> udiv_loop a dv count = Some (count + a div dv)"
proof (induction "unat a" arbitrary: a count rule: less_induct)
  case less
  show ?case
  proof (cases "dv \<le> a")
    case True
    have le: "unat dv \<le> unat a" "0 < unat dv" using True less.prems by (auto simp: word_le_nat_alt unat_gt_0)
    then have "unat (a - dv) < unat a" by (simp add: u32_sub)
    then have "udiv_loop (a - dv) dv (count + 1) = Some (count + 1 + (a - dv) div dv)"
      using less.hyps less.prems by blast
    moreover have "a div dv = 1 + (a - dv) div dv"
    proof (rule word_unat_eq_iff[THEN iffD2])
      have d: "unat a div unat dv = Suc ((unat a - unat dv) div unat dv)"
        using le by (simp add: le_div_geq)
      have "unat a div unat dv < 4294967296" using u32_less[of a] by (meson div_le_dividend le_less_trans)
      then show "unat (a div dv) = unat (1 + (a - dv) div dv)"
        using le d by (simp add: unat_div u32_sub u32_add)
    qed
    ultimately show ?thesis using True by (subst udiv_loop.simps) simp
  next
    case False
    then have "a div dv = 0" by (simp add: word_unat_eq_iff unat_div word_le_nat_alt)
    then show ?thesis using False by (subst udiv_loop.simps) simp
  qed
qed

lemma udiv_integer_eq: "dv \<noteq> 0 \<Longrightarrow> udiv_integer a dv = Some (a div dv)"
  by (simp add: udiv_integer_def udiv_loop_eq)

lemma udiv_loop_needs_divisor: "udiv_loop a dv count = Some r \<Longrightarrow> dv \<noteq> 0"
  by (rule udiv_loop.raw_induct[where P = "\<lambda>_ dv _ _. dv \<noteq> 0", rotated]) (auto split: if_splits)

lemma udiv_remainder_eq: "dv \<noteq> 0 \<Longrightarrow> udiv_remainder a dv = Some (a mod dv)"
proof (induction "unat a" arbitrary: a rule: less_induct)
  case less
  show ?case
  proof (cases "dv \<le> a")
    case True
    have le: "unat dv \<le> unat a" "0 < unat dv" using True less.prems by (auto simp: word_le_nat_alt unat_gt_0)
    then have "unat (a - dv) < unat a" by (simp add: u32_sub)
    then have "udiv_remainder (a - dv) dv = Some ((a - dv) mod dv)" using less.hyps less.prems by blast
    moreover have "(a - dv) mod dv = a mod dv"
      using le by (simp add: word_unat_eq_iff unat_mod u32_sub le_mod_geq)
    ultimately show ?thesis using True by (subst udiv_remainder.simps) simp
  next
    case False
    then have "a mod dv = a" by (simp add: word_unat_eq_iff unat_mod word_le_nat_alt)
    then show ?thesis using False by (subst udiv_remainder.simps) simp
  qed
qed

lemma udiv_remainder_needs_divisor: "udiv_remainder a dv = Some r \<Longrightarrow> dv \<noteq> 0"
  by (rule udiv_remainder.raw_induct[where P = "\<lambda>_ dv _. dv \<noteq> 0", rotated]) (auto split: if_splits)

lemma sdiv_loop_eq:
  assumes "dv \<noteq> 0" and "uint a < 2147483648" and "uint dv < 2147483648"
  shows "sdiv_loop a dv count = Some (count + a div dv)"
proof -
  have "sdiv_loop a dv count = udiv_loop a dv count"
    using assms
  proof (induction "unat a" arbitrary: a count rule: less_induct)
    case less
    have cmp: "dv \<le>s a \<longleftrightarrow> dv \<le> a"
      using less.prems by (simp add: word_sle_eq u32_sint word_le_def)
    show ?case
    proof (cases "dv \<le> a")
      case True
      have le: "unat dv \<le> unat a" "0 < unat dv" using True less.prems by (auto simp: word_le_nat_alt unat_gt_0)
      then have "unat (a - dv) < unat a" by (simp add: u32_sub)
      moreover have "uint (a - dv) = uint a - uint dv" using True by (simp add: uint_sub_if' word_le_def)
      then have "uint (a - dv) < 2147483648" using less.prems u32_uint(1)[of dv] by linarith
      ultimately have "sdiv_loop (a - dv) dv (count + 1) = udiv_loop (a - dv) dv (count + 1)"
        using less.hyps[of "a - dv" "count + 1"] less.prems by simp
      then show ?thesis using True cmp by (subst sdiv_loop.simps, subst udiv_loop.simps) simp
    next
      case False
      then show ?thesis using cmp by (subst sdiv_loop.simps, subst udiv_loop.simps) simp
    qed
  qed
  then show ?thesis using assms(1) by (simp add: udiv_loop_eq)
qed

lemma mrt_abs_uint:
  assumes "a \<noteq> 0x80000000"
  shows "uint (mrt_abs a) = \<bar>sint a\<bar>" and "uint (mrt_abs a) < 2147483648"
proof -
  have ne: "uint a \<noteq> 2147483648" using assms by (simp add: word_uint_eq_iff)
  show "uint (mrt_abs a) = \<bar>sint a\<bar>" "uint (mrt_abs a) < 2147483648"
    using ne u32_uint[of a] uint_sub_if'[of 0 a] by (auto simp: mrt_abs_def word_sless_alt u32_sint split: if_splits)
qed

lemma sdiv_integer_eq:
  assumes "a \<noteq> 0x80000000" and "dv \<noteq> 0x80000000" and "dv \<noteq> 0"
  shows "\<exists>r. sdiv_integer a dv = Some r \<and> sint r = sgn (sint a) * sgn (sint dv) * (\<bar>sint a\<bar> div \<bar>sint dv\<bar>)"
proof -
  have A: "uint (mrt_abs a) = \<bar>sint a\<bar>" "uint (mrt_abs a) < 2147483648"
    and D: "uint (mrt_abs dv) = \<bar>sint dv\<bar>" "uint (mrt_abs dv) < 2147483648"
    using mrt_abs_uint assms by auto
  have dv: "sint dv \<noteq> 0" using assms(3) by (simp add: signed_eq_0_iff)
  then have "mrt_abs dv \<noteq> 0" using D by auto
  define q where "q = mrt_abs a div mrt_abs dv"
  have run: "sdiv_integer a dv = Some (if a XOR dv <s 0 then - q else q)"
    using sdiv_loop_eq[OF \<open>mrt_abs dv \<noteq> 0\<close> A(2) D(2), of 0] by (simp add: sdiv_integer_def q_def)
  have q: "uint q = \<bar>sint a\<bar> div \<bar>sint dv\<bar>" using A D by (simp add: q_def uint_div)
  have "q \<le> mrt_abs a" by (simp add: q_def word_le_nat_alt unat_div)
  then have "uint q \<le> uint (mrt_abs a)" by (simp add: word_le_def)
  then have qs: "uint q < 2147483648" using A by simp
  have neg: "sint (- q) = - uint q"
    using qs u32_uint[of q] uint_sub_if'[of 0 q] by (auto simp: u32_sint split: if_splits)
  have sgn: "a XOR dv <s 0 \<longleftrightarrow> (sint a < 0) \<noteq> (sint dv < 0)"
    by (simp add: word_sless_alt signed_xor_eq)
  show ?thesis
  proof (cases "sint a = 0")
    case True
    then have "uint q = 0" using q by simp
    then have "q = 0" by (simp add: word_uint_eq_iff)
    then show ?thesis using run True by simp
  next
    case False
    have "sint (if a XOR dv <s 0 then - q else q) = sgn (sint a) * sgn (sint dv) * uint q"
      using False dv neg qs sgn by (auto simp: u32_sint[of q] sgn_if)
    then show ?thesis using run q by simp
  qed
qed

subsection \<open>Digits and C strings\<close>

text \<open>
  The digits of a number in a base, least significant first, and the two views of the byte
  store the text routines rely on: a run of bytes, and a string closed by a zero byte.
\<close>

function pdigits :: "nat \<Rightarrow> nat \<Rightarrow> nat list" where
  "pdigits b n = (if n < b \<or> b < 2 then [n] else n mod b # pdigits b (n div b))"
  by pat_completeness auto
termination
  by (relation "measure snd") (auto intro!: div_less_dividend)

declare pdigits.simps [simp del]

fun bytes_at :: "bmem \<Rightarrow> u32 \<Rightarrow> u8 list \<Rightarrow> bool" where
  "bytes_at m p [] \<longleftrightarrow> True"
| "bytes_at m p (c # cs) \<longleftrightarrow> m p = c \<and> bytes_at m (p + 1) cs"

definition cstr :: "bmem \<Rightarrow> u32 \<Rightarrow> u8 list \<Rightarrow> bool" where
  "cstr m p cs \<longleftrightarrow> bytes_at m p cs \<and> 0 \<notin> set cs \<and> m (p + of_nat (length cs)) = 0"

lemma pdigits_bound: "2 \<le> b \<Longrightarrow> d \<in> set (pdigits b n) \<Longrightarrow> d < b"
proof (induction b n rule: pdigits.induct)
  case (1 b n)
  then show ?case by (auto simp: pdigits.simps[of b n] split: if_splits)
qed

lemma pdigits_nonempty: "pdigits b n \<noteq> []"
  by (subst pdigits.simps) simp

lemma pdigits_length: "2 \<le> b \<Longrightarrow> n < b ^ Suc k \<Longrightarrow> length (pdigits b n) \<le> Suc k"
proof (induction k arbitrary: n)
  case 0
  then show ?case by (subst pdigits.simps) simp
next
  case (Suc k)
  then have "n div b < b ^ Suc k" by (simp add: less_mult_imp_div_less mult.commute)
  then show ?case using Suc by (subst pdigits.simps) simp
qed

lemma pdigits_value: "2 \<le> b \<Longrightarrow> foldl (\<lambda>v d. v * b + d) 0 (rev (pdigits b n)) = n"
proof (induction b n rule: pdigits.induct)
  case (1 b n)
  then show ?case by (subst pdigits.simps) (auto simp: mult.commute)
qed

lemma foldl_of_nat:
  "foldl (\<lambda>v d. v * of_nat b + of_nat d) (of_nat v) ds = (of_nat (foldl (\<lambda>v d. v * b + d) v ds) :: 'a::comm_semiring_1)"
  by (induction ds arbitrary: v) (simp_all flip: of_nat_add of_nat_mult)

lemma bytes_at_append:
  "bytes_at m p (xs @ ys) \<longleftrightarrow> bytes_at m p xs \<and> bytes_at m (p + of_nat (length xs)) ys"
  by (induction xs arbitrary: p) (simp_all add: algebra_simps)

lemma bytes_at_nth: "bytes_at m p xs \<longleftrightarrow> (\<forall>i < length xs. m (p + of_nat i) = xs ! i)"
proof (induction xs arbitrary: p)
  case (Cons x xs)
  show ?case
    by (auto simp: Cons nth_Cons algebra_simps split: nat.splits)
qed simp

lemma cstr_Nil [simp]: "cstr m p [] \<longleftrightarrow> m p = 0"
  by (simp add: cstr_def)

lemma cstr_Cons [simp]: "cstr m p (c # cs) \<longleftrightarrow> m p = c \<and> c \<noteq> 0 \<and> cstr m (p + 1) cs"
  by (auto simp: cstr_def algebra_simps)

lemma cstr_unique: "cstr m p xs \<Longrightarrow> cstr m p ys \<Longrightarrow> xs = ys"
proof (induction xs arbitrary: p ys)
  case Nil
  then show ?case by (cases ys) auto
next
  case (Cons x xs)
  then show ?case by (cases ys) auto
qed

lemma cstr_bytes: "cstr m p cs \<longleftrightarrow> bytes_at m p (cs @ [0]) \<and> 0 \<notin> set cs"
  by (auto simp: cstr_def bytes_at_append)

lemma u32_offset_inj: "inj_on (\<lambda>i. (p :: u32) + of_nat i) {..<4294967296}"
  by (rule inj_onI) (metis add_left_cancel lessThan_iff u32_of_nat)

lemma fold_store:
  assumes "inj_on a {..<n}"
  shows "j < n \<Longrightarrow> fold (\<lambda>i m. m(a i := v i)) [0..<n] m (a j) = v j"
    and "q \<notin> a ` {..<n} \<Longrightarrow> fold (\<lambda>i m. m(a i := v i)) [0..<n] m q = m q"
  using assms
proof (induction n)
  case (Suc n)
  {
    case 1
    then have "inj_on a {..<n}" by (auto intro: inj_on_subset)
    moreover have "a j = a n \<longleftrightarrow> j = n" using 1 by (auto simp: inj_on_def)
    ultimately show ?case using Suc 1 by (auto simp: less_Suc_eq)
  next
    case 2
    then show ?case using Suc(2) by (auto simp: less_Suc_eq lessThan_Suc intro: inj_on_subset)
  }
qed auto

subsection \<open>The conversions to text and back\<close>

lemma low_bits: "(w :: u32) - push_bit k (drop_bit k w) = take_bit k w"
proof -
  have "w = push_bit k (drop_bit k w) + take_bit k w" using bits_ident[of k w] by simp
  then show ?thesis by (metis add_diff_cancel_left')
qed

lemma take_bit_digit: "take_bit k (w :: u32) = of_nat (unat w mod 2 ^ k)"
proof -
  have "unat (take_bit k w) = unat w mod 2 ^ k" by (simp only: unsigned_take_bit_eq take_bit_nat_def)
  then show ?thesis by (metis of_nat_unat ucast_id)
qed

lemma unat_drop: "unat (drop_bit k (w :: u32)) = unat w div 2 ^ k"
  by (simp only: unat_drop_bit_eq drop_bit_nat_def)

lemma drop_bit_zero_iff: "drop_bit k (w :: u32) = 0 \<longleftrightarrow> unat w < 2 ^ k"
  by (metis div_eq_0_iff power_not_zero unat_drop unat_eq_zero zero_neq_numeral)

lemma ucast_digit: "n < 256 \<Longrightarrow> ucast (of_nat n :: u32) = (of_nat n :: 'a::len word)"
  by (simp add: unsigned_of_nat take_bit_nat_eq_self)

lemma hex_digits_unfold:
  "hex_digits mode w temp =
     (if unat w < 16 then temp @ [hex_char mode (of_nat (unat w mod 16))]
      else hex_digits mode (drop_bit 4 w) (temp @ [hex_char mode (of_nat (unat w mod 16))]))"
proof -
  have p: "(2 :: nat) ^ 4 = 16" by simp
  have low: "w - push_bit 4 (drop_bit 4 w) = of_nat (unat w mod 16)"
    using low_bits[of w 4] take_bit_digit[of 4 w] by (simp only: p)
  have z: "drop_bit 4 w = 0 \<longleftrightarrow> unat w < 16" using drop_bit_zero_iff[of 4 w] by (simp only: p)
  show ?thesis by (subst hex_digits.simps) (simp only: Let_def low z if_not_P if_P split: if_split, blast)
qed

lemma hex_digits_eq:
  "hex_digits mode w temp = temp @ map (\<lambda>d. hex_char mode (of_nat d)) (pdigits 16 (unat w))"
proof (induction "unat w" arbitrary: w temp rule: less_induct)
  case less
  have q: "unat (drop_bit 4 w) = unat w div 16" using unat_drop[of 4 w] by simp
  show ?case
  proof (cases "unat w < 16")
    case True
    then show ?thesis by (subst hex_digits_unfold, subst pdigits.simps) simp
  next
    case False
    then have "hex_digits mode (drop_bit 4 w) (temp @ [hex_char mode (of_nat (unat w mod 16))]) =
      (temp @ [hex_char mode (of_nat (unat w mod 16))]) @
      map (\<lambda>d. hex_char mode (of_nat d)) (pdigits 16 (unat w div 16))"
      using less[of "drop_bit 4 w"] q by simp
    then show ?thesis using False by (subst hex_digits_unfold, subst pdigits.simps) simp
  qed
qed

lemma bin_digits_unfold:
  "bin_digits w temp =
     (if unat w < 2 then temp @ [of_nat (unat w mod 2) + 48]
      else bin_digits (drop_bit 1 w) (temp @ [of_nat (unat w mod 2) + 48]))"
proof -
  have low: "w - push_bit 1 (drop_bit 1 w) = of_nat (unat w mod 2)"
    using low_bits[of w 1] take_bit_digit[of 1 w] by (simp only: power_one_right)
  have c: "ucast (of_nat (unat w mod 2) :: u32) = (of_nat (unat w mod 2) :: u8)"
    by (rule ucast_digit) simp
  have z: "drop_bit 1 w = 0 \<longleftrightarrow> unat w < 2" using drop_bit_zero_iff[of 1 w] by (simp only: power_one_right)
  show ?thesis by (subst bin_digits.simps) (simp only: Let_def low c z if_not_P if_P split: if_split, blast)
qed

lemma bin_digits_eq:
  "bin_digits w temp = temp @ map (\<lambda>d. of_nat d + 48) (pdigits 2 (unat w))"
proof (induction "unat w" arbitrary: w temp rule: less_induct)
  case less
  have half: "unat (drop_bit 1 w) = unat w div 2" using unat_drop[of 1 w] by (simp only: power_one_right)
  show ?case
  proof (cases "unat w < 2")
    case True
    then show ?thesis by (subst bin_digits_unfold, subst pdigits.simps) simp
  next
    case False
    then have "bin_digits (drop_bit 1 w) (temp @ [of_nat (unat w mod 2) + 48]) =
      (temp @ [of_nat (unat w mod 2) + 48]) @ map (\<lambda>d. of_nat d + 48) (pdigits 2 (unat w div 2))"
      using less[of "drop_bit 1 w"] half by (simp only: div_less_dividend)
    then show ?thesis using False by (subst bin_digits_unfold, subst pdigits.simps) simp
  qed
qed

lemma put_reversed_bytes:
  assumes "length temp < 4294967294"
  shows "bytes_at (put_reversed buf temp m) (buf + 2) (rev temp)"
    and "q \<notin> (\<lambda>i. buf + 2 + of_nat i) ` {..<length temp} \<Longrightarrow> put_reversed buf temp m q = m q"
proof -
  have sub: "{..<length temp} \<subseteq> {..<4294967296}" using assms by auto
  have inj: "inj_on (\<lambda>i. buf + of_nat i + 2) {..<length temp}"
    using inj_on_subset[OF u32_offset_inj[of "buf + 2"] sub] by (simp add: add.commute add.left_commute)
  have swap: "buf + 2 + of_nat i = buf + of_nat i + 2" for i by (simp add: add.commute add.left_commute)
  show "bytes_at (put_reversed buf temp m) (buf + 2) (rev temp)"
    unfolding bytes_at_nth put_reversed_def
    using fold_store(1)[OF inj] by (auto simp: swap rev_nth)
  show "put_reversed buf temp m q = m q" if "q \<notin> (\<lambda>i. buf + 2 + of_nat i) ` {..<length temp}"
    unfolding put_reversed_def by (rule fold_store(2)[OF inj]) (use that in \<open>simp add: swap\<close>)
qed

lemma ascii_loop_digits:
  assumes "cstr m p (map f ds)"
    and "\<And>d v. d \<in> set ds \<Longrightarrow> ascii_step type v (f d) = Some (v * of_nat b + of_nat d)"
  shows "ascii_loop m type v p = Some (foldl (\<lambda>v d. v * of_nat b + of_nat d) v ds)"
  using assms
proof (induction ds arbitrary: v p)
  case Nil
  then show ?case by (simp add: ascii_loop.simps)
next
  case (Cons d ds)
  then show ?case by (subst ascii_loop.simps) auto
qed

lemma u8_of_nat:
  assumes "n < 256"
  shows "unat (of_nat n :: u8) = n" and "ucast (of_nat n :: u8) = (of_nat n :: u32)"
  using assms by (simp_all add: unsigned_of_nat take_bit_nat_eq_self)

lemma hex_char_code:
  assumes "d < 16"
  shows "hex_char mode (of_nat d) = of_nat (if d < 10 then d + 48 else if mode then d + 55 else d + 87)"
proof -
  have "(10 :: u32) \<le> of_nat d \<longleftrightarrow> 10 \<le> d" using assms by (simp add: word_le_nat_alt u32_of_nat)
  moreover have "ucast (of_nat d :: u32) = (of_nat d :: u8)" using assms by (intro ucast_digit) simp
  ultimately show ?thesis by (auto simp: hex_char_def not_le)
qed

lemma ascii_step_hex: "d < 16 \<Longrightarrow> ascii_step 16 v (hex_char mode (of_nat d)) = Some (v * of_nat 16 + of_nat d)"
  by (simp add: hex_char_code ascii_step_def word_le_nat_alt u8_of_nat push_bit_eq_mult del: of_nat_add) simp

lemma ascii_step_bin: "d < 2 \<Longrightarrow> ascii_step 2 v (of_nat d + 48) = Some (v * of_nat 2 + of_nat d)"
  by (auto simp: less_2_cases_iff ascii_step_def push_bit_eq_mult)

lemma ascii_step_dec: "d < 10 \<Longrightarrow> ascii_step 10 v (of_nat d + 48) = Some (v * of_nat 10 + of_nat d)"
proof -
  assume d: "d < 10"
  have c: "(of_nat d + 48 :: u8) = of_nat (d + 48)" by simp
  show ?thesis using d
    by (simp only: c) (simp add: ascii_step_def word_less_nat_alt u8_of_nat push_bit_eq_mult del: of_nat_add, simp add: algebra_simps)
qed

lemma hex_char_nonzero: "d < 16 \<Longrightarrow> hex_char mode (of_nat d) \<noteq> 0"
  by (simp add: hex_char_code word_unat_eq_iff u8_of_nat del: of_nat_add)

lemma pdigits_foldl_word:
  "2 \<le> b \<Longrightarrow> foldl (\<lambda>v d. v * of_nat b + of_nat d) 0 (rev (pdigits b n)) = (of_nat n :: u32)"
  using foldl_of_nat[of b 0 "rev (pdigits b n)", where ?'a = u32] by (simp add: pdigits_value)

text \<open>
  What a conversion with a two-character prefix leaves at the buffer, and that reading it back
  gives the digits' value.
\<close>

lemma prefixed_digits_at:
  assumes "length ds < 1000" and "m (buf + 2 + of_nat (length ds)) = 0"
    and "m2 = put_reversed buf ds (m(buf := c0, buf + 1 := c1))"
  shows "bytes_at m2 (buf + 2) (rev ds)" and "m2 (buf + 2 + of_nat (length ds)) = 0"
    and "m2 buf = c0" and "m2 (buf + 1) = c1"
proof -
  have inj: "inj_on (\<lambda>i. buf + of_nat i) {..<4294967296}" by (rule u32_offset_inj)
  have off: "buf + 2 + of_nat i = buf + of_nat (i + 2)" for i by (simp add: add.commute add.left_commute)
  have ne: "buf + of_nat i = buf + of_nat j \<longleftrightarrow> i = j" if "i < 2000" "j < 2000" for i j
    using inj_onD[OF inj, of i j] that by auto
  have fresh: "buf + of_nat j \<notin> (\<lambda>i. buf + 2 + of_nat i) ` {..<length ds}" if "j < 2 \<or> j = length ds + 2" for j
  proof
    assume "buf + of_nat j \<in> (\<lambda>i. buf + 2 + of_nat i) ` {..<length ds}"
    then obtain i where i: "i < length ds" "buf + of_nat j = buf + of_nat (i + 2)" by (auto simp: off)
    then have "j = i + 2" using ne[of j "i + 2"] that assms(1) by auto
    then show False using i that by auto
  qed
  have len: "length ds < 4294967294" using assms(1) by simp
  have keep: "m2 (buf + of_nat j) = (m(buf := c0, buf + 1 := c1)) (buf + of_nat j)"
    if "j < 2 \<or> j = length ds + 2" for j
    unfolding assms(3) using put_reversed_bytes(2)[OF len fresh[OF that]] .
  show "bytes_at m2 (buf + 2) (rev ds)" unfolding assms(3) by (rule put_reversed_bytes(1)[OF len])
  show "m2 buf = c0" using keep[of 0] ne[of 0 1] by simp
  show "m2 (buf + 1) = c1" using keep[of 1] by simp
  show "m2 (buf + 2 + of_nat (length ds)) = 0"
    using keep[of "length ds + 2"] assms(1,2) ne[of "length ds + 2" 0] ne[of "length ds + 2" 1] by (simp add: off del: of_nat_add)
qed

lemma u32_pdigits_length: "length (pdigits 16 (unat (w :: u32))) \<le> 8" "length (pdigits 2 (unat w)) \<le> 32"
  using pdigits_length[of 16 "unat w" 7] pdigits_length[of 2 "unat w" 31] u32_less[of w] by simp_all

lemma dec_to_hex_reads_back:
  assumes "buf \<noteq> 0" and "dec_to_hex buf w mode m = (m', n)" and "m (buf + n) = 0"
  shows "ascii_to_dec m' buf = Some w" and "n \<le> 10"
proof -
  let ?ds = "pdigits 16 (unat w)"
  let ?f = "\<lambda>d. hex_char mode (of_nat d)"
  have n: "n = 2 + of_nat (length (map ?f ?ds))"
    and m': "m' = put_reversed buf (map ?f ?ds) (m(buf := 48, buf + 1 := (if mode then 88 else 120)))"
    using assms(1,2) by (auto simp: dec_to_hex_def Let_def hex_digits_eq)
  have len: "length (map ?f ?ds) < 1000" using u32_pdigits_length(1)[of w] by simp
  have zero: "m (buf + 2 + of_nat (length (map ?f ?ds))) = 0" using assms(3) n by (simp add: add.assoc)
  note at = prefixed_digits_at[OF len zero m']
  have d: "d < 16" if "d \<in> set ?ds" for d using pdigits_bound[OF _ that] by simp
  have str: "cstr m' (buf + 2) (map ?f (rev ?ds))"
    using at(1,2) d hex_char_nonzero[of _ mode] by (auto simp: cstr_def rev_map)
  have "ascii_type m' buf = 16" using at(3,4) by (simp add: ascii_type_def)
  moreover have "m' (buf + 2) \<noteq> 0"
    using str pdigits_nonempty[of 16 "unat w"] by (cases "rev ?ds") auto
  moreover have "ascii_loop m' 16 0 (buf + 2) = Some w"
    using ascii_loop_digits[OF str, of 16 16 0] d ascii_step_hex pdigits_foldl_word[of 16 "unat w"] by simp
  ultimately show "ascii_to_dec m' buf = Some w" using assms(1) by (simp add: ascii_to_dec_def Let_def)
  show "n \<le> 10" using u32_pdigits_length(1)[of w] n by (simp add: word_le_nat_alt u32_add u32_of_nat)
qed

lemma dec_to_binary_reads_back:
  assumes "buf \<noteq> 0" and "dec_to_binary buf w m = (m', n)" and "m (buf + n) = 0"
  shows "ascii_to_dec m' buf = Some w" and "n \<le> 34"
proof -
  let ?ds = "pdigits 2 (unat w)"
  let ?f = "\<lambda>d. of_nat d + 48 :: u8"
  have n: "n = 2 + of_nat (length (map ?f ?ds))"
    and m': "m' = put_reversed buf (map ?f ?ds) (m(buf := 48, buf + 1 := 98))"
    using assms(1,2) by (auto simp: dec_to_binary_def Let_def bin_digits_eq)
  have len: "length (map ?f ?ds) < 1000" using u32_pdigits_length(2)[of w] by simp
  have zero: "m (buf + 2 + of_nat (length (map ?f ?ds))) = 0" using assms(3) n by (simp add: add.assoc)
  note at = prefixed_digits_at[OF len zero m']
  have d: "d < 2" if "d \<in> set ?ds" for d using pdigits_bound[OF _ that] by simp
  have nz: "?f d \<noteq> 0" if "d < 2" for d using that by (auto simp: less_2_cases_iff)
  have str: "cstr m' (buf + 2) (map ?f (rev ?ds))"
    using at(1,2) d nz by (auto simp: cstr_def rev_map)
  have "ascii_type m' buf = 2" using at(3,4) by (simp add: ascii_type_def)
  moreover have "m' (buf + 2) \<noteq> 0"
    using str pdigits_nonempty[of 2 "unat w"] by (cases "rev ?ds") auto
  moreover have "ascii_loop m' 2 0 (buf + 2) = Some w"
    using ascii_loop_digits[OF str, of 2 2 0] d ascii_step_bin pdigits_foldl_word[of 2 "unat w"] by simp
  ultimately show "ascii_to_dec m' buf = Some w" using assms(1) by (simp add: ascii_to_dec_def Let_def)
  show "n \<le> 34" using u32_pdigits_length(2)[of w] n by (simp add: word_le_nat_alt u32_add u32_of_nat)
qed

lemma u8_bit_double: "bit (r * 2 :: u8) k \<longleftrightarrow> 0 < k \<and> k < 8 \<and> bit r (k - 1)"
  using bit_push_bit_iff[of 1 r k] by (auto simp: Suc_le_eq possible_bit_word)

lemma bit_reverse_bit_loop:
  "k < 8 \<Longrightarrow> n \<le> 8 \<Longrightarrow>
   bit (reverse_bit_loop n r v) k \<longleftrightarrow> (if k < n then bit v (n - 1 - k) else bit r (k - n))"
proof (induction n arbitrary: r v)
  case (Suc n)
  show ?case
  proof (cases "k < n")
    case True
    then show ?thesis using Suc by (simp add: bit_simps Suc_diff_Suc flip: drop_bit_eq_div)
  next
    case False
    then show ?thesis using Suc by (cases "k = n") (auto simp: bit_simps u8_bit_double)
  qed
qed simp

lemma bit_reverse_bit: "k < 8 \<Longrightarrow> bit (reverse_bit x) k \<longleftrightarrow> bit x (7 - k)"
  using bit_reverse_bit_loop[of k 8 0 x] by (simp add: reverse_bit_def)

lemma reverse_bit_inv: "reverse_bit (reverse_bit x) = x"
  by (rule bit_word_eqI) (simp add: bit_reverse_bit)

lemma bit_TO_CONVERT_BIT8: "k < 8 \<Longrightarrow> bit (TO_CONVERT_BIT8 x) k \<longleftrightarrow> bit x (7 - k)"
proof -
  assume "k < 8"
  then have "k = 0 \<or> k = 1 \<or> k = 2 \<or> k = 3 \<or> k = 4 \<or> k = 5 \<or> k = 6 \<or> k = 7" by arith
  then show ?thesis by (elim disjE) (simp_all add: TO_CONVERT_BIT8_def bit_simps bit_numeral_rec u8_bit_double)
qed

lemma reverse_bit_eq: "reverse_bit x = TO_CONVERT_BIT8 x"
  by (rule bit_word_eqI) (simp add: bit_reverse_bit bit_TO_CONVERT_BIT8)

lemma byte_masks:
  "(0x000000ff :: u32) = mask 8" "(0x0000ff00 :: u32) = push_bit 8 (mask 8)"
  "(0x00ff0000 :: u32) = push_bit 16 (mask 8)" "(0xff000000 :: u32) = push_bit 24 (mask 8)"
  by (simp_all add: mask_eq_exp_minus_1)

lemma bit_TO_CONVERT_BYTE32:
  "bit (TO_CONVERT_BYTE32 x) n \<longleftrightarrow>
     (if n < 8 then bit x (24 + n) else if n < 16 then bit x (8 + n)
      else if n < 24 then bit x (n - 8) else n < 32 \<and> bit x (n - 24))"
  unfolding TO_CONVERT_BYTE32_def byte_masks by (auto simp: bit_simps)

lemma TO_CONVERT_BYTE32_inv: "TO_CONVERT_BYTE32 (TO_CONVERT_BYTE32 x) = x"
proof (rule bit_word_eqI)
  fix n assume "n < LENGTH(32)"
  then consider "n < 8" | "8 \<le> n" "n < 16" | "16 \<le> n" "n < 24" | "24 \<le> n" "n < 32" by fastforce
  then show "bit (TO_CONVERT_BYTE32 (TO_CONVERT_BYTE32 x)) n = bit x n"
    by cases (simp_all add: bit_TO_CONVERT_BYTE32 less_diff_conv2)
qed

lemma udiv_by_zero: "udiv_integer a 0 = None" "udiv_remainder a 0 = None"
  using udiv_loop_needs_divisor[of a 0 0] udiv_remainder_needs_divisor[of a 0]
  by (cases "udiv_loop a 0 0", auto simp: udiv_integer_def) (cases "udiv_remainder a 0", auto)

text \<open>Where the signed loop ends at all, its second operand is not the most negative number, and it is zero only
  if the first operand was negative.\<close>

lemma sdiv_loop_ends:
  assumes "sdiv_loop a dv count = Some r"
  shows "dv \<noteq> 0x80000000 \<and> (dv = 0 \<longrightarrow> a <s 0)"
proof (rule sdiv_loop.raw_induct[where P = "\<lambda>a dv _ _. dv \<noteq> 0x80000000 \<and> (dv = 0 \<longrightarrow> a <s 0)", OF _ assms])
  fix f and a dv count r :: u32
  assume IH: "\<And>a dv count r. f a dv count = Some r \<Longrightarrow> dv \<noteq> 0x80000000 \<and> (dv = 0 \<longrightarrow> a <s 0)"
    and run: "(if dv \<le>s a then f (a - dv) dv (count + 1) else Some count) = Some r"
  show "dv \<noteq> 0x80000000 \<and> (dv = 0 \<longrightarrow> a <s 0)"
  proof (cases "dv \<le>s a")
    case True
    then show ?thesis using IH[of "a - dv" dv "count + 1" r] run by auto
  next
    case False
    have "- 2147483648 \<le> sint a" using u32_uint[of a] unfolding u32_sint by presburger
    then show ?thesis using False by (auto simp: word_sle_eq word_sless_alt)
  qed
qed

lemma sdiv_never_ends: "sdiv_integer a 0x80000000 = None" "a \<noteq> 0x80000000 \<Longrightarrow> sdiv_integer a 0 = None"
proof -
  have abs: "mrt_abs 0x80000000 = 0x80000000" "mrt_abs 0 = 0" by (simp_all add: mrt_abs_def)
  show "sdiv_integer a 0x80000000 = None"
    using sdiv_loop_ends[of "mrt_abs a" "0x80000000" 0] by (cases "sdiv_loop (mrt_abs a) 0x80000000 0") (auto simp: sdiv_integer_def abs)
  assume "a \<noteq> 0x80000000"
  then have "\<not> mrt_abs a <s 0" using mrt_abs_uint(2)[of a] u32_uint[of "mrt_abs a"] by (simp add: word_sless_alt u32_sint)
  then show "sdiv_integer a 0 = None"
    using sdiv_loop_ends[of "mrt_abs a" 0 0] by (cases "sdiv_loop (mrt_abs a) 0 0") (auto simp: sdiv_integer_def abs)
qed

lemma sdiv_most_negative:
  assumes "dv \<noteq> 0x80000000"
  shows "sdiv_integer 0x80000000 dv = Some 0"
proof -
  have "\<not> mrt_abs dv \<le>s 0x80000000"
  proof -
    have "sint (mrt_abs dv) = uint (mrt_abs dv)" using mrt_abs_uint(2)[OF assms] by (simp add: u32_sint)
    then have "0 \<le> sint (mrt_abs dv)" using u32_uint(1)[of "mrt_abs dv"] by linarith
    then show ?thesis by (simp add: word_sle_eq)
  qed
  then have "sdiv_loop 0x80000000 (mrt_abs dv) 0 = Some 0" by (subst sdiv_loop.simps) simp
  moreover have "mrt_abs 0x80000000 = 0x80000000" by (simp add: mrt_abs_def)
  ultimately show ?thesis by (simp add: sdiv_integer_def)
qed

subsection \<open>Properties\<close>

text \<open>C15: the text that \<^verbatim>\<open>dec_to_hex\<close> and \<^verbatim>\<open>dec_to_binary\<close> write, closed by a zero byte behind it, is read
  back by \<^verbatim>\<open>ascii_to_dec\<close> as the same 32-bit number, and it takes at most 10 and 34 characters.\<close>

theorem number_text_roundtrip:
  assumes "buf \<noteq> 0" and "dec_to_hex buf w mode m = (m1, n1)" and "m (buf + n1) = 0"
    and "dec_to_binary buf w m = (m2, n2)" and "m (buf + n2) = 0"
  shows "ascii_to_dec m1 buf = Some w \<and> n1 \<le> 10 \<and> ascii_to_dec m2 buf = Some w \<and> n2 \<le> 34"
  using dec_to_hex_reads_back[OF assms(1-3)] dec_to_binary_reads_back[OF assms(1,4,5)] by blast

theorem number_text_roundtrip_witness:
  "ascii_to_dec (fst (dec_to_hex 4096 48879 True (\<lambda>_. 0))) 4096 = Some 48879 \<and>
   ascii_to_dec (fst (dec_to_binary 4096 48879 (\<lambda>_. 0))) 4096 = Some 48879"
  using number_text_roundtrip[of 4096 48879 True "\<lambda>_. 0", OF _ surjective_pairing _ surjective_pairing] by simp

text \<open>C16: what the division loops do on every pair of operands, with arithmetic that wraps round. The
  unsigned ones return the quotient and the remainder for a divisor other than zero and never end for zero. The
  signed one returns the quotient rounded towards zero unless an operand is the most negative number or the
  divisor is zero; it never ends when the divisor is the most negative number, or is zero under another dividend;
  and every other quotient of the most negative number comes out as zero.\<close>

theorem division_by_subtraction:
  "(if dv = 0 then udiv_integer a dv = None \<and> udiv_remainder a dv = None
    else udiv_integer a dv = Some (a div dv) \<and> udiv_remainder a dv = Some (a mod dv)) \<and>
   (if dv = 0x80000000 then sdiv_integer a dv = None
    else if a = 0x80000000 then sdiv_integer a dv = Some 0
    else if dv = 0 then sdiv_integer a dv = None
    else \<exists>r. sdiv_integer a dv = Some r \<and> sint r = sgn (sint a) * sgn (sint dv) * (\<bar>sint a\<bar> div \<bar>sint dv\<bar>))"
  by (simp add: udiv_integer_eq udiv_remainder_eq udiv_by_zero sdiv_integer_eq sdiv_most_negative sdiv_never_ends)

theorem division_by_subtraction_witness:
  "udiv_integer 17 5 = Some 3 \<and> udiv_remainder 17 5 = Some 2 \<and>
   (\<exists>r. sdiv_integer (- 17) 5 = Some r \<and> sint r = - 3) \<and> sdiv_integer 0x80000000 2 = Some 0 \<and> sdiv_integer 17 0 = None"
  using division_by_subtraction[of 5 17] division_by_subtraction[of 5 "- 17"] division_by_subtraction[of 2 "0x80000000"]
    division_by_subtraction[of 0 17] by simp

text \<open>C17: the loop of \<^verbatim>\<open>reverse_bit\<close> and the shifts of \<^verbatim>\<open>TO_CONVERT_BIT8\<close> compute the same function, which is
  its own inverse; so is the byte swap \<^verbatim>\<open>TO_CONVERT_BYTE32\<close>.\<close>

theorem bit_reversal_equivalence:
  "reverse_bit x = TO_CONVERT_BIT8 x \<and> reverse_bit (reverse_bit x) = x \<and>
   TO_CONVERT_BYTE32 (TO_CONVERT_BYTE32 y) = y"
  by (simp add: reverse_bit_inv TO_CONVERT_BYTE32_inv flip: reverse_bit_eq)

text \<open>A boundary case: letters behind \<^verbatim>\<open>f\<close> count as hexadecimal digits.\<close>

theorem ascii_to_dec_beyond_f: "m p = 48 \<Longrightarrow> m (p + 1) = 120 \<Longrightarrow> m (p + 2) = 122 \<Longrightarrow> m (p + 3) = 0 \<Longrightarrow> p \<noteq> 0 \<Longrightarrow>
  ascii_to_dec m p = Some 35"
  by (simp add: ascii_to_dec_def ascii_type_def ascii_loop.simps ascii_step_def add.assoc)

end
