(* ===== verification/Io_Stream.thy ===== *)
theory Io_Stream
  imports Generic
begin

text \<open>
  The bit maps of \<^verbatim>\<open>common/generic/io_stream.c\<close>, from which sockets, network interfaces and interrupts take
  their numbers, and the bit accesses to word arrays of \<^verbatim>\<open>include/common/io_stream.h\<close>. A bit map is the array
  of its bytes. The console functions of the file have empty weak bodies.
\<close>

subsection \<open>State and operations\<close>

type_synonym bitmap = "u32 \<Rightarrow> u8"

definition bitmap_test :: "bitmap \<Rightarrow> u32 \<Rightarrow> bool option" where
  "bitmap_test bm index = do {
     area_mask \<leftarrow> udiv_integer index 8;
     bit_mask \<leftarrow> udiv_remainder index 8;
     Some (bm area_mask AND push_bit (unat bit_mask) 1 \<noteq> 0)
   }"

partial_function (option) find_first_from :: "bitmap \<Rightarrow> u32 \<Rightarrow> u32 \<Rightarrow> bool \<Rightarrow> u32 option" where
  "find_first_from bm index total_bits val =
     (if index < total_bits then do {
        b \<leftarrow> bitmap_test bm index;
        if b = val then Some index else find_first_from bm (index + 1) total_bits val
      }
      else Some index)"

definition bitmap_find_first_bit :: "bitmap \<Rightarrow> u32 \<Rightarrow> u32 \<Rightarrow> bool \<Rightarrow> int option" where
  "bitmap_find_first_bit bm start total_bits val = do {
     index \<leftarrow> find_first_from bm start total_bits val;
     Some (if index \<ge> total_bits then - 1 else sint index)
   }"

definition bitmap_find_nr_bit :: "bitmap \<Rightarrow> u32 \<Rightarrow> u32 \<Rightarrow> u32 \<Rightarrow> bool \<Rightarrow> int option" where
  "bitmap_find_nr_bit bm start total_bits nr val =
     (let stop = start + nr in
      if stop \<ge> total_bits then Some (- 1)
      else do {
        index \<leftarrow> bitmap_find_first_bit bm start stop (\<not> val);
        Some (if index < 0 then 0 else index)
      })"

definition bitmap_put :: "bitmap \<Rightarrow> u32 \<Rightarrow> bool \<Rightarrow> bitmap option" where
  "bitmap_put bm index val = do {
     area_mask \<leftarrow> udiv_integer index 8;
     bit_mask \<leftarrow> udiv_remainder index 8;
     Some (bm(area_mask := if val then bm area_mask OR push_bit (unat bit_mask) 1
                           else bm area_mask AND NOT (push_bit (unat bit_mask) 1)))
   }"

partial_function (option) set_from :: "bitmap \<Rightarrow> u32 \<Rightarrow> u32 \<Rightarrow> bool \<Rightarrow> bitmap option" where
  "set_from bm index stop val =
     (if index < stop then do { bm \<leftarrow> bitmap_put bm index val; set_from bm (index + 1) stop val } else Some bm)"

definition bitmap_set_nr_bit :: "bitmap \<Rightarrow> u32 \<Rightarrow> u32 \<Rightarrow> u32 \<Rightarrow> bool \<Rightarrow> bitmap option" where
  "bitmap_set_nr_bit bm start total_bits nr val =
     (let stop = start + nr in if stop \<ge> total_bits then Some bm else set_from bm start stop val)"

definition bitmap_find_first_zero_bit :: "bitmap \<Rightarrow> u32 \<Rightarrow> u32 \<Rightarrow> int option" where
  "bitmap_find_first_zero_bit bm start total_bits = bitmap_find_first_bit bm start total_bits False"

definition bitmap_find_first_valid_bit :: "bitmap \<Rightarrow> u32 \<Rightarrow> u32 \<Rightarrow> int option" where
  "bitmap_find_first_valid_bit bm start total_bits = bitmap_find_first_bit bm start total_bits True"

definition bitmap_find_nr_zero_bit :: "bitmap \<Rightarrow> u32 \<Rightarrow> u32 \<Rightarrow> u32 \<Rightarrow> int option" where
  "bitmap_find_nr_zero_bit bm start total_bits nr = bitmap_find_nr_bit bm start total_bits nr False"

definition bitmap_find_nr_valid_bit :: "bitmap \<Rightarrow> u32 \<Rightarrow> u32 \<Rightarrow> u32 \<Rightarrow> int option" where
  "bitmap_find_nr_valid_bit bm start total_bits nr = bitmap_find_nr_bit bm start total_bits nr True"

definition bitmap_set_nr_bit_zero :: "bitmap \<Rightarrow> u32 \<Rightarrow> u32 \<Rightarrow> u32 \<Rightarrow> bitmap option" where
  "bitmap_set_nr_bit_zero bm start total_bits nr = bitmap_set_nr_bit bm start total_bits nr False"

definition bitmap_set_nr_bit_valid :: "bitmap \<Rightarrow> u32 \<Rightarrow> u32 \<Rightarrow> u32 \<Rightarrow> bitmap option" where
  "bitmap_set_nr_bit_valid bm start total_bits nr = bitmap_set_nr_bit bm start total_bits nr True"

text \<open>Bits of an array of words.\<close>

definition api_bit_mask :: "u8 \<Rightarrow> u32" where
  "api_bit_mask index = push_bit (unat (index AND 0x1f)) 1"

definition setbit_to_words :: "u32 \<Rightarrow> (u32 \<Rightarrow> u32) \<Rightarrow> u32 \<Rightarrow> u32" where
  "setbit_to_words nr a = (let pos = drop_bit 5 nr in a(pos := a pos OR api_bit_mask (ucast nr)))"

definition clrbit_to_words :: "u32 \<Rightarrow> (u32 \<Rightarrow> u32) \<Rightarrow> u32 \<Rightarrow> u32" where
  "clrbit_to_words nr a = (let pos = drop_bit 5 nr in a(pos := a pos AND NOT (api_bit_mask (ucast nr))))"

text \<open>The loop of \<^verbatim>\<open>getbit_from_words\<close>; the test decrements \<^verbatim>\<open>lenth\<close> before the body uses it.\<close>

primrec getbit_loop :: "u32 \<Rightarrow> nat \<Rightarrow> (u32 \<Rightarrow> u32) \<Rightarrow> u32 \<Rightarrow> u32" where
  "getbit_loop nr 0 a result = result"
| "getbit_loop nr (Suc lenth) a result =
     (let pos = drop_bit 5 (nr + of_nat lenth - 1);
          m = api_bit_mask (ucast (nr + of_nat lenth - 1))
      in getbit_loop nr lenth a (push_bit 1 result OR (if m = a pos AND m then 1 else 0)))"

definition getbit_from_words :: "u32 \<Rightarrow> u32 \<Rightarrow> (u32 \<Rightarrow> u32) \<Rightarrow> u32" where
  "getbit_from_words nr lenth a = getbit_loop nr (unat lenth) a 0"

subsection \<open>The set of bits\<close>

definition taken :: "bitmap \<Rightarrow> u32 \<Rightarrow> bool" where
  "taken bm i \<longleftrightarrow> bit (bm (i div 8)) (unat (i mod 8))"

lemma mod_8: "unat (i mod 8 :: u32) < 8"
  by (simp add: unat_mod)

lemma test_taken: "bitmap_test bm i = Some (taken bm i)"
  by (simp add: bitmap_test_def taken_def udiv_integer_eq udiv_remainder_eq push_bit_eq_mult and_exp_eq_0_iff_not_bit)

lemma put_taken: "\<exists>bm'. bitmap_put bm i val = Some bm' \<and> (\<forall>j. taken bm' j = (if j = i then val else taken bm j))"
proof -
  let ?w = "if val then bm (i div 8) OR push_bit (unat (i mod 8)) 1 else bm (i div 8) AND NOT (push_bit (unat (i mod 8)) 1)"
  have b: "bit ?w n = (if n = unat (i mod 8) then val else bit (bm (i div 8)) n)" if "n < 8" for n
    using that by (auto simp: bit_simps)
  have "taken (bm(i div 8 := ?w)) j = (if j = i then val else taken bm j)" for j
  proof (cases "j div 8 = i div 8")
    case True
    have "unat (j mod 8) = unat (i mod 8) \<longleftrightarrow> j = i"
      using True by (metis word_mod_div_equality u32_eq_iff)
    then show ?thesis using True b[OF mod_8, of j] by (auto simp: taken_def)
  next
    case False
    then show ?thesis by (auto simp: taken_def)
  qed
  then show ?thesis by (auto simp: bitmap_put_def udiv_integer_eq udiv_remainder_eq)
qed

lemma find_first_least:
  "\<exists>i. find_first_from bm start tot val = Some i \<and> start \<le> i \<and> (\<forall>j. start \<le> j \<longrightarrow> j < i \<longrightarrow> taken bm j \<noteq> val) \<and>
     (i < tot \<longrightarrow> taken bm i = val) \<and> (start \<le> tot \<longrightarrow> i \<le> tot)"
proof (induction "unat tot - unat start" arbitrary: start rule: less_induct)
  case less
  show ?case
  proof (cases "start < tot \<and> taken bm start \<noteq> val")
    case False
    then have "find_first_from bm start tot val = Some start" by (subst find_first_from.simps) (auto simp: test_taken)
    moreover have "start < tot \<longrightarrow> taken bm start = val" using False by blast
    ultimately show ?thesis by fastforce
  next
    case True
    have n: "unat (start + 1) = Suc (unat start)" using True u32_less[of tot] by (subst u32_add) (auto simp: word_less_nat_alt)
    then have "unat tot - unat (start + 1) < unat tot - unat start" using True by (auto simp: word_less_nat_alt)
    from less[OF this] obtain i where i: "find_first_from bm (start + 1) tot val = Some i" "start + 1 \<le> i"
        "\<forall>j. start + 1 \<le> j \<longrightarrow> j < i \<longrightarrow> taken bm j \<noteq> val" "i < tot \<longrightarrow> taken bm i = val" "start + 1 \<le> tot \<longrightarrow> i \<le> tot"
      by blast
    have "find_first_from bm start tot val = Some i" using True i(1) by (subst find_first_from.simps) (simp add: test_taken)
    moreover have "taken bm j \<noteq> val" if "start \<le> j" "j < i" for j
    proof (cases "j = start")
      case False
      then have "start + 1 \<le> j" using that(1) n by (simp add: word_le_nat_alt u32_eq_iff)
      then show ?thesis using i(3) that(2) by blast
    qed (use True in simp)
    moreover have "start \<le> i" "start + 1 \<le> tot" using i(2) n True by (auto simp: word_le_nat_alt word_less_nat_alt)
    ultimately show ?thesis using i(4,5) by blast
  qed
qed

lemma set_from_taken:
  "\<exists>bm'. set_from bm start stop val = Some bm' \<and> (\<forall>j. taken bm' j = (if start \<le> j \<and> j < stop then val else taken bm j))"
proof (induction "unat stop - unat start" arbitrary: start bm rule: less_induct)
  case less
  show ?case
  proof (cases "start < stop")
    case False
    then have "set_from bm start stop val = Some bm" by (subst set_from.simps) simp
    then show ?thesis using False by (auto simp: word_le_nat_alt word_less_nat_alt)
  next
    case True
    have n: "unat (start + 1) = Suc (unat start)" using True u32_less[of stop] by (subst u32_add) (auto simp: word_less_nat_alt)
    then have l: "unat stop - unat (start + 1) < unat stop - unat start" using True by (simp add: word_less_nat_alt)
    obtain b1 where b1: "bitmap_put bm start val = Some b1" "\<forall>j. taken b1 j = (if j = start then val else taken bm j)"
      using put_taken by blast
    obtain b2 where b2: "set_from b1 (start + 1) stop val = Some b2"
        "\<forall>j. taken b2 j = (if start + 1 \<le> j \<and> j < stop then val else taken b1 j)"
      using less[OF l] by blast
    have "set_from bm start stop val = Some b2" using True b1(1) b2(1) by (subst set_from.simps) simp
    moreover have "taken b2 j = (if start \<le> j \<and> j < stop then val else taken bm j)" for j
      using b1(2) b2(2) n True by (auto simp: word_le_nat_alt word_less_nat_alt u32_eq_iff)
    ultimately show ?thesis by blast
  qed
qed

text \<open>The searches and the marking, as operations on the set of bits; the maps of the kernel are far shorter than
  the range in which an index is a positive number.\<close>

lemma sint_small: "unat (i :: u32) < 2147483648 \<Longrightarrow> sint i = int (unat i)"
  by (simp add: u32_sint) (metis of_nat_less_iff of_nat_numeral uint_nat)

lemma find_first_cases:
  assumes "unat tot \<le> 2147483648"
  obtains (none) "bitmap_find_first_bit bm start tot val = Some (- 1)" and "\<forall>j. start \<le> j \<longrightarrow> j < tot \<longrightarrow> taken bm j \<noteq> val"
  | (found) i where "bitmap_find_first_bit bm start tot val = Some (int (unat i))" and "start \<le> i" and "i < tot" and "taken bm i = val"
    and "\<forall>j. start \<le> j \<longrightarrow> j < i \<longrightarrow> taken bm j \<noteq> val"
proof -
  obtain i where i: "find_first_from bm start tot val = Some i" "start \<le> i" "\<forall>j. start \<le> j \<longrightarrow> j < i \<longrightarrow> taken bm j \<noteq> val"
      "i < tot \<longrightarrow> taken bm i = val"
    using find_first_least by blast
  show thesis
  proof (cases "i < tot")
    case True
    then have "sint i = int (unat i)" using assms by (intro sint_small) (simp add: word_less_nat_alt)
    then have "bitmap_find_first_bit bm start tot val = Some (int (unat i))" using True i(1) by (simp add: bitmap_find_first_bit_def flip: not_less)
    then show thesis using True i by (intro found) blast+
  next
    case False
    then have "bitmap_find_first_bit bm start tot val = Some (- 1)" using i(1) by (simp add: bitmap_find_first_bit_def flip: not_less)
    moreover have "\<forall>j. start \<le> j \<longrightarrow> j < tot \<longrightarrow> taken bm j \<noteq> val" using i(3) False by fastforce
    ultimately show thesis by (rule none)
  qed
qed

lemma set_nr_taken:
  assumes "unat start + unat nr < unat tot"
  shows "\<exists>bm'. bitmap_set_nr_bit bm start tot nr val = Some bm' \<and>
    (\<forall>j. taken bm' j = (if unat start \<le> unat j \<and> unat j < unat start + unat nr then val else taken bm j))"
proof -
  have e: "unat (start + nr) = unat start + unat nr" using assms u32_less[of tot] by (intro u32_add) simp
  then have "\<not> start + nr \<ge> tot" using assms by (simp add: word_le_nat_alt)
  then show ?thesis using set_from_taken[of bm start "start + nr" val] e
    by (simp add: bitmap_set_nr_bit_def word_le_nat_alt word_less_nat_alt)
qed

lemma set_nr_refused:
  assumes "unat start + unat nr \<ge> unat tot" and "unat start + unat nr < 4294967296"
  shows "bitmap_set_nr_bit bm start tot nr val = Some bm"
  using assms u32_add[of start nr] by (simp add: bitmap_set_nr_bit_def word_le_nat_alt)

subsection \<open>Taking a number\<close>

text \<open>Taking a number from a bit map. The search for a zero bit returns \<^verbatim>\<open>-1\<close> exactly when every bit is set and
  the least clear one otherwise; marking the number found sets that bit and no other, except that the last
  bit of the map can be found and never be marked.\<close>

lemma bitmap_take:
  assumes "unat tot \<le> 2147483648"
  shows "\<exists>r. bitmap_find_first_zero_bit bm 0 tot = Some r \<and>
    (if \<forall>j<tot. taken bm j then r = - 1
     else \<exists>i bm'. r = int (unat i) \<and> i < tot \<and> \<not> taken bm i \<and> (\<forall>j<i. taken bm j) \<and>
            bitmap_set_nr_bit_valid bm i tot 1 = Some bm' \<and>
            (\<forall>j. taken bm' j = (taken bm j \<or> j = i \<and> Suc (unat i) < unat tot)))"
proof (rule find_first_cases[OF assms, of bm 0 False])
  assume "bitmap_find_first_bit bm 0 tot False = Some (- 1)" "\<forall>j. 0 \<le> j \<longrightarrow> j < tot \<longrightarrow> taken bm j \<noteq> False"
  then show ?thesis by (auto simp: bitmap_find_first_zero_bit_def)
next
  fix i assume A: "bitmap_find_first_bit bm 0 tot False = Some (int (unat i))" "i < tot" "taken bm i = False"
    "\<forall>j. 0 \<le> j \<longrightarrow> j < i \<longrightarrow> taken bm j \<noteq> False"
  have "\<exists>bm'. bitmap_set_nr_bit_valid bm i tot 1 = Some bm' \<and> (\<forall>j. taken bm' j = (taken bm j \<or> j = i \<and> Suc (unat i) < unat tot))"
  proof (cases "Suc (unat i) < unat tot")
    case True
    then show ?thesis using set_nr_taken[of i 1 tot bm True] by (auto simp: bitmap_set_nr_bit_valid_def u32_eq_iff)
  next
    case False
    then show ?thesis using set_nr_refused[of tot i 1 bm True] A(2) assms by (auto simp: bitmap_set_nr_bit_valid_def word_less_nat_alt)
  qed
  then show ?thesis using A by (auto simp: bitmap_find_first_zero_bit_def)
qed

text \<open>The bit that \<^verbatim>\<open>getbit_from_words\<close> returns is the one below the bit asked for.\<close>

lemma getbit_off_by_one: "getbit_from_words 8 1 (setbit_to_words 8 (\<lambda>_. 0)) = 0" "getbit_from_words 9 1 (setbit_to_words 8 (\<lambda>_. 0)) = 1"
  by code_simp+

text \<open>The last of 2047 numbers is found, and it is not marked.\<close>

definition nearly_full :: bitmap where
  "nearly_full = (\<lambda>i. if i = 255 then 0x3f else 0xff)"

lemma bit_ff: "n < 8 \<Longrightarrow> bit (0xff :: u8) n" and bit_3f: "n < 6 \<Longrightarrow> bit (0x3f :: u8) n" and no_bit_3f: "\<not> bit (0x3f :: u8) 6"
proof -
  have "(0xff :: u8) = mask 8" "(0x3f :: u8) = mask 6" by (simp_all add: mask_eq_exp_minus_1)
  then show "n < 8 \<Longrightarrow> bit (0xff :: u8) n" "n < 6 \<Longrightarrow> bit (0x3f :: u8) n" "\<not> bit (0x3f :: u8) 6"
    by (simp_all only: bit_mask_iff) auto
qed

lemma nearly_full: "j < 2046 \<Longrightarrow> taken nearly_full j" "\<not> taken nearly_full 2046"
proof -
  assume "j < 2046"
  then have j: "unat j < 2046" by (simp add: word_less_nat_alt)
  show "taken nearly_full j"
  proof (cases "j div 8 = 255")
    case True
    then have "unat (j div 8) = 255" by simp
    then have "unat j div 8 = 255" by (simp add: unat_div)
    then have "unat (j mod 8) < 6" using j by (simp add: unat_mod) presburger
    then show ?thesis using True bit_3f by (simp add: taken_def nearly_full_def)
  next
    case False
    then show ?thesis using bit_ff[OF mod_8] by (simp add: taken_def nearly_full_def)
  qed
next
  show "\<not> taken nearly_full 2046" using no_bit_3f by (simp add: taken_def nearly_full_def)
qed

lemma bitmap_take_last:
  "\<exists>bm'. bitmap_find_first_zero_bit nearly_full 0 2047 = Some 2046 \<and>
     bitmap_set_nr_bit_valid nearly_full 2046 2047 1 = Some bm' \<and> \<not> taken bm' 2046"
proof -
  have n: "\<not> (\<forall>j<2047. taken nearly_full j)" using nearly_full(2) by (auto intro!: exI[of _ 2046])
  have last: "i = 2046" if "i < 2047" "\<not> taken nearly_full i" for i
  proof -
    have "\<not> i < 2046" using nearly_full(1) that(2) by blast
    then show ?thesis using that(1) by (simp add: word_less_nat_alt u32_eq_iff)
  qed
  obtain r i bm' where A: "bitmap_find_first_zero_bit nearly_full 0 2047 = Some r" "r = int (unat i)" "i < 2047" "\<not> taken nearly_full i"
      "bitmap_set_nr_bit_valid nearly_full i 2047 1 = Some bm'"
      "\<forall>j. taken bm' j = (taken nearly_full j \<or> j = i \<and> Suc (unat i) < unat (2047 :: u32))"
    using bitmap_take[of 2047 nearly_full] n by auto
  then show ?thesis using last[OF A(3,4)] by simp
qed

end
