(* ===== verification/Link_Table.thy ===== *)
theory Link_Table
  imports Prelude "HOL-Library.Monad_Syntax"
begin

text \<open>
  What the search trees of \<^verbatim>\<open>common/generic\<close> promise their clients: a table from keys to links, the null
  link standing for an absent key. The laws of single operations are the contract, and that any sequence
  of operations acts on the look-ups as on a function from keys to links follows from them.
\<close>

datatype 'k table_op = Enter 'k u32 | Remove 'k

primrec ref_step :: "'k table_op \<Rightarrow> ('k \<Rightarrow> u32) \<Rightarrow> 'k \<Rightarrow> u32" where
  "ref_step (Enter v l) f = (if l = 0 \<or> f v \<noteq> 0 then f else f(v := l))"
| "ref_step (Remove v) f = f(v := 0)"

primrec apply_op :: "('k \<Rightarrow> u32 \<Rightarrow> 's \<Rightarrow> 's option) \<Rightarrow> ('k \<Rightarrow> 's \<Rightarrow> 's option) \<Rightarrow> 'k table_op \<Rightarrow> 's \<Rightarrow> 's option" where
  "apply_op enter remove (Enter v l) s = enter v l s"
| "apply_op enter remove (Remove v) s = remove v s"

primrec apply_ops :: "('k \<Rightarrow> u32 \<Rightarrow> 's \<Rightarrow> 's option) \<Rightarrow> ('k \<Rightarrow> 's \<Rightarrow> 's option) \<Rightarrow> 'k table_op list \<Rightarrow> 's \<Rightarrow> 's option" where
  "apply_ops enter remove [] s = Some s"
| "apply_ops enter remove (o1 # os) s = do { s \<leftarrow> apply_op enter remove o1 s; apply_ops enter remove os s }"

text \<open>Along a sequence, every entry of an absent key finds room.\<close>

primrec rooms :: "('k \<Rightarrow> 's \<Rightarrow> u32 option) \<Rightarrow> ('k \<Rightarrow> u32 \<Rightarrow> 's \<Rightarrow> 's option) \<Rightarrow> ('k \<Rightarrow> 's \<Rightarrow> 's option) \<Rightarrow>
    ('k \<Rightarrow> 's \<Rightarrow> bool) \<Rightarrow> 'k table_op list \<Rightarrow> 's \<Rightarrow> bool" where
  "rooms look enter remove room [] s = True"
| "rooms look enter remove room (o1 # os) s =
     ((case o1 of Enter v l \<Rightarrow> l \<noteq> 0 \<longrightarrow> look v s = Some 0 \<longrightarrow> room v s | Remove v \<Rightarrow> True) \<and>
      (case apply_op enter remove o1 s of Some s' \<Rightarrow> rooms look enter remove room os s' | None \<Rightarrow> True))"

locale link_table =
  fixes inv :: "'s \<Rightarrow> bool"
    and look :: "'k \<Rightarrow> 's \<Rightarrow> u32 option"
    and enter :: "'k \<Rightarrow> u32 \<Rightarrow> 's \<Rightarrow> 's option"
    and remove :: "'k \<Rightarrow> 's \<Rightarrow> 's option"
    and room :: "'k \<Rightarrow> 's \<Rightarrow> bool"
  assumes look_returns: "inv s \<Longrightarrow> \<exists>l. look v s = Some l"
    and enter_null: "inv s \<Longrightarrow> l = 0 \<or> look v s \<noteq> Some 0 \<Longrightarrow> enter v l s = Some s"
    and enter_new: "inv s \<Longrightarrow> l \<noteq> 0 \<Longrightarrow> look v s = Some 0 \<Longrightarrow> room v s \<Longrightarrow>
      \<exists>s'. enter v l s = Some s' \<and> inv s' \<and> (\<forall>w. look w s' = (if w = v then Some l else look w s))"
    and remove_key: "inv s \<Longrightarrow> \<exists>s'. remove v s = Some s' \<and> inv s' \<and> (\<forall>w. look w s' = (if w = v then Some 0 else look w s))"
begin

lemma op_refines:
  assumes "inv s" and "rooms look enter remove room [o1] s" and f: "\<And>v. look v s = Some (f v)"
  shows "\<exists>s'. apply_op enter remove o1 s = Some s' \<and> inv s' \<and> (\<forall>v. look v s' = Some (ref_step o1 f v))"
proof (cases o1)
  case (Enter v l)
  show ?thesis
  proof (cases "l = 0 \<or> f v \<noteq> 0")
    case True
    then show ?thesis using enter_null[OF assms(1), of l v] assms(1) f Enter by auto
  next
    case False
    then obtain s' where "enter v l s = Some s'" "inv s'" "\<forall>w. look w s' = (if w = v then Some l else look w s)"
      using enter_new[OF assms(1), of l v] assms(2) f Enter by auto
    then show ?thesis using Enter f False by auto
  qed
next
  case (Remove v)
  then show ?thesis using remove_key[OF assms(1), of v] f by auto
qed

lemma ops_refine:
  assumes "inv s" and "rooms look enter remove room os s" and "\<And>v. look v s = Some (f v)"
  shows "\<exists>s'. apply_ops enter remove os s = Some s' \<and> inv s' \<and> (\<forall>v. look v s' = Some (fold ref_step os f v))"
  using assms
proof (induction os arbitrary: s f)
  case (Cons o1 os)
  have "rooms look enter remove room [o1] s" using Cons.prems(2) by (auto split: option.splits)
  then obtain s1 where s1: "apply_op enter remove o1 s = Some s1" "inv s1" "\<forall>v. look v s1 = Some (ref_step o1 f v)"
    using op_refines[OF Cons.prems(1) _ Cons.prems(3)] by blast
  then have "rooms look enter remove room os s1" using Cons.prems(2) by simp
  then show ?case using Cons.IH[OF s1(2), of "ref_step o1 f"] s1 by simp
qed simp

end

end
