(* ===== verification/Radix_Tree.thy ===== *)
theory Radix_Tree
  imports Link_Table Generic Mempool
begin

text \<open>
  The radix tree of \<^verbatim>\<open>common/generic/radix_tree.c\<close>, which the interrupt descriptors and the sockets are
  kept in: a tree of nodes with eight branches whose paths are the octal digits of a number, lowest
  digit first. Nodes live in a store indexed by their addresses and come from the kernel heap
  (\<^verbatim>\<open>default_malloc\<close> and \<^verbatim>\<open>kfree\<close>, the functions both trees are declared with); address 0 is the null
  pointer. What the tree promises is a partial map from numbers to links.
\<close>

subsection \<open>State and operations\<close>

definition MAX_BRANCH :: u32 where "MAX_BRANCH = 3"

record radix_node =
  rparent :: u32
  branches :: "u32 \<Rightarrow> u32"
  rlink :: u32

record radix_sys =
  rnodes :: "u32 \<Rightarrow> radix_node"
  rdepth :: "u32 \<Rightarrow> u32"
  rheap :: mempool_sys

text \<open>The first loop of \<^verbatim>\<open>radix_tree_numlen\<close>: the zero bits above the highest set one.\<close>

primrec zero_bits :: "u32 \<Rightarrow> nat \<Rightarrow> u32 \<Rightarrow> u32" where
  "zero_bits number 0 count = count"
| "zero_bits number (Suc i) count = (if number AND push_bit i 1 \<noteq> 0 then count else zero_bits number i (count + 1))"

definition radix_tree_numlen :: "u32 \<Rightarrow> u32 option" where
  "radix_tree_numlen number =
     (let count = 32 - zero_bits number 32 0 in
      if count \<le> MAX_BRANCH then Some MAX_BRANCH
      else if isPower2 MAX_BRANCH then Some (mrt_align count MAX_BRANCH)
      else do {
        result \<leftarrow> udiv_remainder count MAX_BRANCH;
        Some (if result \<noteq> 0 then count + MAX_BRANCH - result else count)
      })"

definition radix_tree_advance :: "u32 \<Rightarrow> u32" where
  "radix_tree_advance number = drop_bit (unat MAX_BRANCH) number"

definition get_radix_node_branch :: "u32 \<Rightarrow> u32" where
  "get_radix_node_branch number = number AND (push_bit (unat MAX_BRANCH) 1 - 1)"

definition sizeof_radix_node :: u32 where "sizeof_radix_node = 40"

definition allocate_radix_node :: "u32 \<Rightarrow> radix_sys \<Rightarrow> (radix_sys \<times> u32) option" where
  "allocate_radix_node par s = do {
     (m, n) \<leftarrow> default_malloc sizeof_radix_node (rheap s);
     let s = s\<lparr>rheap := m\<rparr>;
     if \<not> isValid n then Some (s, 0)
     else Some (s\<lparr>rnodes := (rnodes s)(n := \<lparr>rparent = par, branches = (\<lambda>_. 0), rlink = 0\<rparr>)\<rparr>, n)
   }"

partial_function (option) find_radix_from :: "(u32 \<Rightarrow> radix_node) \<Rightarrow> u32 \<Rightarrow> u32 \<Rightarrow> u32 \<Rightarrow> u32 \<Rightarrow> u32 option" where
  "find_radix_from h lenth i val n =
     (if n = 0 then Some 0
      else if i \<ge> lenth then Some n
      else find_radix_from h lenth (i + MAX_BRANCH) (radix_tree_advance val) (branches (h n) (get_radix_node_branch val)))"

definition find_radix_node :: "u32 \<Rightarrow> u32 \<Rightarrow> radix_sys \<Rightarrow> u32 option" where
  "find_radix_node root number s = do {
     lenth \<leftarrow> radix_tree_numlen number;
     n \<leftarrow> find_radix_from (rnodes s) lenth 0 number root;
     Some (if n \<noteq> 0 then (if rlink (rnodes s n) \<noteq> 0 then n else 0) else 0)
   }"

definition radix_tree_look_up :: "u32 \<Rightarrow> u32 \<Rightarrow> radix_sys \<Rightarrow> u32 option" where
  "radix_tree_look_up root number s = do {
     n \<leftarrow> find_radix_node root number s;
     Some (if n = 0 then 0 else rlink (rnodes s n))
   }"

text \<open>The loop of \<^verbatim>\<open>radix_tree_add\<close>; \<open>Some (s, None)\<close> is the return in its middle.\<close>

partial_function (option) radix_add_from ::
  "u32 \<Rightarrow> u32 \<Rightarrow> u32 \<Rightarrow> u32 \<Rightarrow> u32 \<Rightarrow> radix_sys \<Rightarrow> (radix_sys \<times> u32 option) option" where
  "radix_add_from lenth i val n link s =
     (if i < lenth then do {
        let off = get_radix_node_branch val;
        let val = radix_tree_advance val;
        if branches (rnodes s n) off = 0 then do {
          (s, t) \<leftarrow> allocate_radix_node n s;
          if \<not> isValid t then Some (s, None)
          else do {
            let s = s\<lparr>rnodes := (rnodes s)(n := (rnodes s n)\<lparr>branches := (branches (rnodes s n))(off := t)\<rparr>),
                      rdepth := (rdepth s)(link := i)\<rparr>;
            radix_add_from lenth (i + MAX_BRANCH) val (branches (rnodes s n) off) link s
          }
        }
        else do {
          let s = s\<lparr>rdepth := (rdepth s)(link := i)\<rparr>;
          radix_add_from lenth (i + MAX_BRANCH) val (branches (rnodes s n) off) link s
        }
      }
      else Some (s, Some n))"

definition radix_tree_add :: "u32 \<Rightarrow> u32 \<Rightarrow> u32 \<Rightarrow> radix_sys \<Rightarrow> radix_sys option" where
  "radix_tree_add root number link s = do {
     lenth \<leftarrow> radix_tree_numlen number;
     if link = 0 then Some s
     else do {
       found \<leftarrow> find_radix_node root number s;
       if found \<noteq> 0 then Some s
       else do {
         (s, r) \<leftarrow> radix_add_from lenth 0 number root link s;
         (case r of
            None \<Rightarrow> Some s
          | Some n \<Rightarrow> Some (if n \<noteq> root then s\<lparr>rnodes := (rnodes s)(n := (rnodes s n)\<lparr>rlink := link\<rparr>)\<rparr> else s))
       }
     }
   }"

text \<open>The loop of \<^verbatim>\<open>__del_radix_node\<close> over the branches; \<open>True\<close> is its jump to \<^verbatim>\<open>out\<close>.\<close>

fun clear_branch :: "u32 \<Rightarrow> u32 list \<Rightarrow> nat \<Rightarrow> (u32 \<Rightarrow> u32) \<Rightarrow> (u32 \<Rightarrow> u32) \<times> bool" where
  "clear_branch child [] count b = (b, count \<noteq> 0)"
| "clear_branch child (i # is) count b =
     (if b i = child then
        let b = b(i := 0) in
        if count \<noteq> 0 then (b, True) else clear_branch child is (if b i \<noteq> 0 then Suc count else count) b
      else clear_branch child is (if b i \<noteq> 0 then Suc count else count) b)"

definition branch_indices :: "u32 list" where "branch_indices = map word_of_nat [0..<8]"

partial_function (option) del_radix_node :: "u32 \<Rightarrow> u32 \<Rightarrow> u32 \<Rightarrow> radix_sys \<Rightarrow> radix_sys option" where
  "del_radix_node root n child s =
     (if n = 0 then Some s
      else
        let (b, out) = clear_branch child branch_indices 0 (branches (rnodes s n));
            s = s\<lparr>rnodes := (rnodes s)(n := (rnodes s n)\<lparr>branches := b\<rparr>)\<rparr>
        in if out then Some s
           else if rlink (rnodes s n) = 0 then do {
             s \<leftarrow> del_radix_node root (rparent (rnodes s n)) n s;
             if n \<noteq> root then do { m \<leftarrow> kfree n (rheap s); Some (s\<lparr>rheap := m\<rparr>) } else Some s
           }
           else Some s)"

text \<open>The loop of \<^verbatim>\<open>radix_tree_del\<close>: null is tested before each step only.\<close>

partial_function (option) radix_del_from :: "(u32 \<Rightarrow> radix_node) \<Rightarrow> u32 \<Rightarrow> u32 \<Rightarrow> u32 \<Rightarrow> u32 \<Rightarrow> u32 option" where
  "radix_del_from h lenth i val n =
     (if i < lenth then
        if n = 0 then Some 0
        else radix_del_from h lenth (i + MAX_BRANCH) (radix_tree_advance val) (branches (h n) (get_radix_node_branch val))
      else Some n)"

definition radix_tree_del :: "u32 \<Rightarrow> u32 \<Rightarrow> radix_sys \<Rightarrow> radix_sys option" where
  "radix_tree_del root number s = do {
     lenth \<leftarrow> radix_tree_numlen number;
     n \<leftarrow> radix_del_from (rnodes s) lenth 0 number root;
     if n = 0 \<or> rlink (rnodes s n) = 0 \<or> n = root then Some s
     else del_radix_node root n 0 (s\<lparr>rnodes := (rnodes s)(n := (rnodes s n)\<lparr>rlink := 0\<rparr>)\<rparr>)
   }"

subsection \<open>Numbers as paths\<close>

primrec digits :: "nat \<Rightarrow> u32 \<Rightarrow> u32 list" where
  "digits 0 v = []"
| "digits (Suc k) v = get_radix_node_branch v # digits k (radix_tree_advance v)"

lemma branch_mod: "unat (get_radix_node_branch v) = unat v mod 8" and advance_div: "unat (radix_tree_advance v) = unat v div 8"
proof -
  have "get_radix_node_branch v = take_bit 3 v"
    by (simp add: get_radix_node_branch_def MAX_BRANCH_def take_bit_eq_mask mask_eq_exp_minus_1 push_bit_eq_mult)
  then show "unat (get_radix_node_branch v) = unat v mod 8" by (simp add: take_bit_eq_mod unat_mod)
  show "unat (radix_tree_advance v) = unat v div 8"
    by (simp add: radix_tree_advance_def MAX_BRANCH_def drop_bit_eq_div unat_div)
qed

lemma digits_bound: "set (digits k v) \<subseteq> {..<8}"
  by (induction k arbitrary: v) (auto simp: word_less_nat_alt branch_mod)

lemma digits_inj: "digits k v = digits k w \<Longrightarrow> unat v < 8 ^ k \<Longrightarrow> unat w < 8 ^ k \<Longrightarrow> v = w"
proof (induction k arbitrary: v w)
  case (Suc k)
  have "unat v mod 8 = unat w mod 8" using Suc.prems(1) branch_mod by (metis digits.simps(2) list.inject)
  moreover have "radix_tree_advance v = radix_tree_advance w"
    using Suc.prems by (intro Suc.IH) (auto simp: advance_div)
  then have "unat v div 8 = unat w div 8" using advance_div by metis
  ultimately show ?case by (metis u32_eq_iff mod_mult_div_eq)
qed (simp add: unat_eq_zero)

lemma length_digits [simp]: "length (digits k v) = k"
  by (induction k arbitrary: v) simp_all

lemma zero_bits_bound:
  assumes "i \<le> 32" and "unat number < 2 ^ i"
  shows "\<exists>z\<le>i. zero_bits number i count = count + word_of_nat z \<and> unat number < 2 ^ (i - z)"
  using assms
proof (induction i arbitrary: count)
  case (Suc i)
  show ?case
  proof (cases "number AND push_bit i 1 = 0")
    case False
    then show ?thesis using Suc.prems by (intro exI[of _ 0]) simp
  next
    case True
    have nb: "\<not> bit number i" using True by (simp add: and_exp_eq_0_iff_not_bit push_bit_eq_mult)
    have "unat number < 2 ^ i"
    proof -
      have "take_bit (Suc i) (unat number) = unat number" using Suc.prems(2) by (simp add: take_bit_nat_eq_self)
      moreover have "\<not> bit (unat number) i" using nb by (simp add: bit_unsigned_iff)
      ultimately have "take_bit i (unat number) = unat number" by (simp add: take_bit_Suc_from_most)
      then show ?thesis using take_bit_nat_less_exp[of i "unat number"] by simp
    qed
    then obtain z where z: "z \<le> i" "zero_bits number i (count + 1) = count + 1 + word_of_nat z" "unat number < 2 ^ (i - z)"
      using Suc.IH[of "count + 1"] Suc.prems(1) by auto
    then show ?thesis using True by (intro exI[of _ "Suc z"]) simp
  qed
qed simp

lemma round_up_3: "(c :: nat) mod 3 \<noteq> 0 \<Longrightarrow> c + 3 - c mod 3 = 3 * ((c + 2) div 3)"
proof -
  assume "c mod 3 \<noteq> 0"
  then consider "c mod 3 = 1" | "c mod 3 = 2" by linarith
  then show ?thesis by cases presburger+
qed

lemma numlen_digits:
  obtains k where "radix_tree_numlen number = Some (word_of_nat (3 * k))" and "1 \<le> k" and "k \<le> 11" and "unat number < 8 ^ k"
proof -
  obtain z where z: "z \<le> 32" "zero_bits number 32 0 = word_of_nat z" "unat number < 2 ^ (32 - z)"
    using zero_bits_bound[of 32 number 0] u32_less[of number] by auto
  let ?c = "32 - z"
  have c: "32 - zero_bits number 32 0 = word_of_nat ?c" using z(1,2) by (simp add: of_nat_diff)
  have uc: "unat (word_of_nat ?c :: u32) = ?c" by (rule u32_of_nat) simp
  show thesis
  proof (cases "?c \<le> 3")
    case True
    then have "(word_of_nat ?c :: u32) \<le> MAX_BRANCH" using uc by (simp add: word_le_nat_alt MAX_BRANCH_def)
    then have "radix_tree_numlen number = Some 3" by (simp add: radix_tree_numlen_def c MAX_BRANCH_def)
    moreover have "(2::nat) ^ ?c \<le> 2 ^ 3" using True by (intro power_increasing) simp_all
    ultimately show thesis using that[of 1] z(3) by simp
  next
    case False
    let ?r = "?c mod 3"
    have "\<not> (word_of_nat ?c :: u32) \<le> 3" using uc False by (simp add: word_le_nat_alt)
    moreover have "\<not> isPower2 3" by (simp add: isPower2_def)
    moreover have "udiv_remainder (word_of_nat ?c) 3 = Some (word_of_nat ?r)"
      using udiv_remainder_eq[of 3 "word_of_nat ?c"] uc by (simp add: u32_eq_iff unat_mod u32_of_nat)
    ultimately have n: "radix_tree_numlen number =
        Some (if (word_of_nat ?r :: u32) \<noteq> 0 then word_of_nat ?c + 3 - word_of_nat ?r else word_of_nat ?c)"
      by (simp add: radix_tree_numlen_def c MAX_BRANCH_def)
    let ?k = "(?c + 2) div 3"
    have "(if (word_of_nat ?r :: u32) \<noteq> 0 then word_of_nat ?c + 3 - word_of_nat ?r else word_of_nat ?c) = (word_of_nat (3 * ?k) :: u32)"
    proof (cases "?r = 0")
      case True
      then have "3 * ?k = ?c" by presburger
      then show ?thesis using True by simp
    next
      case False
      then have e: "?c + 3 - ?r = 3 * ?k" by (rule round_up_3)
      have "(word_of_nat ?r :: u32) \<noteq> 0" using False u32_of_nat[of ?r] by (simp add: u32_eq_iff)
      moreover have "word_of_nat ?c + 3 - word_of_nat ?r = (word_of_nat (?c + 3 - ?r) :: u32)"
        by (subst of_nat_diff) (auto intro: le_trans[OF mod_le_divisor])
      ultimately show ?thesis unfolding e by simp
    qed
    then have "radix_tree_numlen number = Some (word_of_nat (3 * ?k))" using n by simp
    moreover have "1 \<le> ?k" "?k \<le> 11" using False z(1) by linarith+
    moreover have "?c \<le> 3 * ?k" by presburger
    then have "(2::nat) ^ ?c \<le> 2 ^ (3 * ?k)" by (intro power_increasing) simp_all
    then have "unat number < 8 ^ ?k" using z(3) by (simp add: power_mult)
    ultimately show thesis using that by blast
  qed
qed

text \<open>The path of a number.\<close>

definition path :: "u32 \<Rightarrow> u32 list" where
  "path v = digits (unat (the (radix_tree_numlen v)) div 3) v"

lemma path_digits:
  obtains k where "radix_tree_numlen v = Some (word_of_nat (3 * k))" and "path v = digits k v" and "1 \<le> k" and "k \<le> 11" and "unat v < 8 ^ k"
proof -
  obtain k where k: "radix_tree_numlen v = Some (word_of_nat (3 * k))" "1 \<le> k" "k \<le> 11" "unat v < 8 ^ k"
    by (rule numlen_digits)
  have "unat (word_of_nat (3 * k) :: u32) = 3 * k" using k(3) by (intro u32_of_nat) simp
  then have "path v = digits k v" using k(1) by (simp add: path_def)
  then show thesis using that k by blast
qed

lemma path_inj: "path v = path w \<Longrightarrow> v = w"
proof -
  assume e: "path v = path w"
  obtain j where j: "path v = digits j v" "unat v < 8 ^ j" by (rule path_digits)
  obtain k where k: "path w = digits k w" "unat w < 8 ^ k" by (rule path_digits)
  have "j = k" using e j(1) k(1) by (metis length_digits)
  then show "v = w" using e j k digits_inj by simp
qed

lemma path_bound: "set (path v) \<subseteq> {..<8}" "path v \<noteq> []" "length (path v) \<le> 11"
proof -
  obtain k where k: "path v = digits k v" "1 \<le> k" "k \<le> 11" by (rule path_digits)
  show "set (path v) \<subseteq> {..<8}" using k(1) digits_bound by simp
  show "path v \<noteq> []" "length (path v) \<le> 11" using k by (auto simp flip: length_0_conv)
qed

subsection \<open>Walking down\<close>

fun walk :: "(u32 \<Rightarrow> radix_node) \<Rightarrow> u32 \<Rightarrow> u32 list \<Rightarrow> u32" where
  "walk h n [] = n"
| "walk h n (d # ds) = (if n = 0 then 0 else walk h (branches (h n) d) ds)"

lemma walk_0 [simp]: "walk h 0 ds = 0"
  by (cases ds) simp_all

lemma walk_append: "walk h n (xs @ ys) = walk h (walk h n xs) ys"
  by (induction xs arbitrary: n) simp_all

lemma walk_snoc: "walk h n (xs @ [d]) = (if walk h n xs = 0 then 0 else branches (h (walk h n xs)) d)"
  by (simp add: walk_append)

lemma loop_index:
  assumes "j < k" and "k \<le> 11"
  shows "(word_of_nat (3 * j) :: u32) < word_of_nat (3 * k)" and "(word_of_nat (3 * j) :: u32) + MAX_BRANCH = word_of_nat (3 * Suc j)"
  using assms by (simp_all add: word_less_nat_alt u32_of_nat MAX_BRANCH_def del: of_nat_mult)

lemma find_from_walk:
  assumes "j \<le> k" and "k \<le> 11"
  shows "find_radix_from h (word_of_nat (3 * k)) (word_of_nat (3 * j)) v n = Some (walk h n (digits (k - j) v))"
  using assms
proof (induction "k - j" arbitrary: j v n)
  case 0
  then have "j = k" by simp
  then show ?case by (subst find_radix_from.simps) simp
next
  case (Suc m)
  then have j: "j < k" "m = k - Suc j" "k - j = Suc m" by linarith+
  note i = loop_index[OF j(1) Suc.prems(2)]
  show ?case using Suc.hyps(1)[OF j(2), folded i(2)] j(1) Suc.prems(2) i(1)
    by (subst find_radix_from.simps) (simp add: j(2,3) not_le[symmetric] del: of_nat_mult)
qed

lemma del_from_walk:
  assumes "j \<le> k" and "k \<le> 11"
  shows "radix_del_from h (word_of_nat (3 * k)) (word_of_nat (3 * j)) v n = Some (walk h n (digits (k - j) v))"
  using assms
proof (induction "k - j" arbitrary: j v n)
  case 0
  then have "j = k" by simp
  then show ?case by (subst radix_del_from.simps) simp
next
  case (Suc m)
  then have j: "j < k" "m = k - Suc j" "k - j = Suc m" by linarith+
  note i = loop_index[OF j(1) Suc.prems(2)]
  show ?case using Suc.hyps(1)[OF j(2), folded i(2)] j(1) Suc.prems(2) i(1)
    by (subst radix_del_from.simps) (simp add: j(2,3) del: of_nat_mult)
qed

text \<open>The link at the end of a path, and the map the tree stands for.\<close>

definition link_at :: "(u32 \<Rightarrow> radix_node) \<Rightarrow> u32 \<Rightarrow> u32 list \<Rightarrow> u32" where
  "link_at h root ds = (let n = walk h root ds in if n = 0 then 0 else rlink (h n))"

lemma look_up_link: "radix_tree_look_up root v s = Some (link_at (rnodes s) root (path v))"
  and find_node: "find_radix_node root v s = Some (if link_at (rnodes s) root (path v) = 0 then 0 else walk (rnodes s) root (path v))"
proof -
  obtain k where k: "radix_tree_numlen v = Some (word_of_nat (3 * k))" "path v = digits k v" "k \<le> 11" by (rule path_digits)
  have f: "find_radix_from (rnodes s) (word_of_nat (3 * k)) 0 v root = Some (walk (rnodes s) root (path v))"
    using find_from_walk[of 0 k "rnodes s" v root] k(2,3) by simp
  show *: "find_radix_node root v s = Some (if link_at (rnodes s) root (path v) = 0 then 0 else walk (rnodes s) root (path v))"
    using k(1) f by (simp add: find_radix_node_def link_at_def Let_def del: of_nat_mult)
  show "radix_tree_look_up root v s = Some (link_at (rnodes s) root (path v))"
    by (simp add: radix_tree_look_up_def * ) (auto simp: link_at_def Let_def split: if_splits)
qed

subsection \<open>The shape of the tree\<close>

abbreviation octal :: "u32 list \<Rightarrow> bool" where "octal ds \<equiv> set ds \<subseteq> {..<8}"

definition tree_ok :: "(u32 \<Rightarrow> radix_node) \<Rightarrow> u32 \<Rightarrow> bool" where
  "tree_ok h root \<longleftrightarrow> root \<noteq> 0 \<and> rparent (h root) = 0 \<and>
     (\<forall>ds d. octal ds \<longrightarrow> d < 8 \<longrightarrow> walk h root (ds @ [d]) \<noteq> 0 \<longrightarrow>
        rparent (h (walk h root (ds @ [d]))) = walk h root ds \<and> walk h root (ds @ [d]) \<noteq> root \<and>
        (\<forall>e<8. walk h root (ds @ [e]) = walk h root (ds @ [d]) \<longrightarrow> e = d))"

lemma tree_okD:
  assumes "tree_ok h root" and "octal ds" and "d < 8" and "walk h root (ds @ [d]) \<noteq> 0"
  shows "rparent (h (walk h root (ds @ [d]))) = walk h root ds" and "walk h root (ds @ [d]) \<noteq> root"
    and "e < 8 \<Longrightarrow> walk h root (ds @ [e]) = walk h root (ds @ [d]) \<Longrightarrow> e = d"
  using assms unfolding tree_ok_def by blast+

lemma walk_inj:
  assumes "tree_ok h root"
  shows "octal ds \<Longrightarrow> octal es \<Longrightarrow> walk h root ds = walk h root es \<Longrightarrow> walk h root ds \<noteq> 0 \<Longrightarrow> ds = es"
proof (induction ds arbitrary: es rule: rev_induct)
  case Nil
  show ?case
  proof (cases es rule: rev_cases)
    case (snoc fs f)
    then have "octal fs" "f < 8" "walk h root (fs @ [f]) \<noteq> 0" using Nil by auto
    then have "walk h root (fs @ [f]) \<noteq> root" by (rule tree_okD(2)[OF assms])
    then show ?thesis using Nil(3) snoc by simp
  qed simp
next
  case (snoc d ds)
  have ds: "octal ds" "d < 8" using snoc.prems(1) by auto
  show ?case
  proof (cases es rule: rev_cases)
    case Nil
    then show ?thesis using tree_okD(2)[OF assms ds] snoc.prems by simp
  next
    case (snoc fs f)
    then have fs: "octal fs" "f < 8" "walk h root (fs @ [f]) \<noteq> 0" "walk h root (ds @ [d]) = walk h root (fs @ [f])"
      using snoc.prems by auto
    have "walk h root ds = walk h root fs"
      using tree_okD(1)[OF assms ds] tree_okD(1)[OF assms fs(1,2,3)] fs(4) snoc.prems(4) by simp
    moreover have "walk h root ds \<noteq> 0" using snoc.prems(4) by (auto simp: walk_snoc)
    ultimately have "ds = fs" using snoc.IH[OF ds(1) fs(1)] by simp
    then show ?thesis using tree_okD(3)[OF assms fs(1,2,3) ds(2)] fs(4) snoc by simp
  qed
qed

text \<open>Changing one branch of a node changes one path.\<close>

definition set_branch :: "u32 \<Rightarrow> u32 \<Rightarrow> u32 \<Rightarrow> (u32 \<Rightarrow> radix_node) \<Rightarrow> u32 \<Rightarrow> radix_node" where
  "set_branch n d c h = h(n := (h n)\<lparr>branches := (branches (h n))(d := c)\<rparr>)"

lemma set_branch_sel [simp]:
  "rparent (set_branch n d c h m) = rparent (h m)" "rlink (set_branch n d c h m) = rlink (h m)"
  "branches (set_branch n d c h m) e = (if m = n \<and> e = d then c else branches (h m) e)"
  by (auto simp: set_branch_def)

definition bare :: "radix_node \<Rightarrow> bool" where
  "bare nd \<longleftrightarrow> (\<forall>d<8. branches nd d = 0) \<and> rlink nd = 0"

lemma below_bare: "octal ds \<Longrightarrow> ds \<noteq> [] \<Longrightarrow> \<forall>d<8. branches (h n) d = 0 \<Longrightarrow> walk h n ds = 0"
  by (cases ds) auto

lemma walk_set_branch:
  assumes ok: "tree_ok h root" and p: "octal p" "walk h root p \<noteq> 0" and d: "d < 8"
    and old: "walk h root (p @ [d]) = 0 \<or> (\<forall>e<8. branches (h (walk h root (p @ [d]))) e = 0)"
    and c: "c = 0 \<or> c \<noteq> walk h root p \<and> (\<forall>e<8. branches (h c) e = 0) \<and> (\<forall>ds. octal ds \<longrightarrow> walk h root ds \<noteq> c)"
    and ds: "octal ds"
  shows "walk (set_branch (walk h root p) d c h) root ds = (if ds = p @ [d] then c else walk h root ds)"
  using ds
proof (induction ds rule: rev_induct)
  case Nil
  then show ?case by simp
next
  case (snoc e es)
  let ?n = "walk h root p" and ?h = "set_branch (walk h root p) d c h"
  have es: "octal es" "e < 8" using snoc.prems by auto
  note IH = snoc.IH[OF es(1)]
  have snoc: "walk ?h root (es @ [e]) = (if walk ?h root es = 0 then 0 else branches (?h (walk ?h root es)) e)"
    by (rule walk_snoc)
  show ?case
  proof (cases "es = p @ [d]")
    case True
    have "walk h root (es @ [e]) = 0" using old es(2) True by (subst walk_snoc) auto
    moreover have "walk ?h root (es @ [e]) = 0" unfolding snoc IH if_P[OF True] using c es(2) by auto
    ultimately show ?thesis using True by simp
  next
    case False
    then have w: "walk ?h root es = walk h root es" using IH by simp
    show ?thesis
    proof (cases "walk h root es = ?n")
      case True
      then have "es = p" using walk_inj[OF ok es(1) p(1)] p(2) by simp
      then show ?thesis unfolding snoc w unfolding walk_snoc using p(2) by simp
    next
      case other: False
      then have "es \<noteq> p" by blast
      then show ?thesis unfolding snoc w unfolding walk_snoc using other by simp
    qed
  qed
qed

lemma tree_ok_set_branch:
  assumes ok: "tree_ok h root" and p: "octal p" "walk h root p \<noteq> 0" and d: "d < 8"
    and old: "walk h root (p @ [d]) = 0 \<or> (\<forall>e<8. branches (h (walk h root (p @ [d]))) e = 0)"
    and c: "c = 0 \<or> c \<noteq> walk h root p \<and> (\<forall>e<8. branches (h c) e = 0) \<and> (\<forall>ds. octal ds \<longrightarrow> walk h root ds \<noteq> c)"
    and par: "c \<noteq> 0 \<longrightarrow> rparent (h c) = walk h root p"
  shows "tree_ok (set_branch (walk h root p) d c h) root"
proof -
  let ?h = "set_branch (walk h root p) d c h"
  note w = walk_set_branch[OF ok p d old c]
  have root: "root \<noteq> 0" "rparent (h root) = 0" using ok by (auto simp: tree_ok_def)
  have below: "walk h root ((p @ [d]) @ [e]) = 0" if "e < 8" for e
    using old that by (subst walk_snoc) auto
  have "rparent (?h (walk ?h root (ds @ [e]))) = walk ?h root ds \<and> walk ?h root (ds @ [e]) \<noteq> root \<and>
      (\<forall>f<8. walk ?h root (ds @ [f]) = walk ?h root (ds @ [e]) \<longrightarrow> f = e)"
    if A: "octal ds" "e < 8" "walk ?h root (ds @ [e]) \<noteq> 0" for ds e
  proof -
    have oc: "octal (ds @ [f])" if "f < 8" for f using A(1) that by simp
    have nds: "ds \<noteq> p @ [d]" using A(2,3) below[OF A(2)] w[OF oc[OF A(2)]] by auto
    then have wds: "walk ?h root ds = walk h root ds" using w[OF A(1)] by simp
    show ?thesis
    proof (cases "ds @ [e] = p @ [d]")
      case True
      then have e: "ds = p" "e = d" by auto
      have we: "walk ?h root (ds @ [e]) = c" using w[OF oc[OF A(2)]] True by simp
      have c0: "c \<noteq> 0" using A(3) we by simp
      have "walk h root [] \<noteq> c" using c c0 by (metis empty_set empty_subsetI)
      moreover have "f = e" if "f < 8" "walk ?h root (ds @ [f]) = c" for f
        using w[OF oc[OF that(1)]] that e c c0 oc[OF that(1)] by (metis append1_eq_conv)
      ultimately show ?thesis using we wds e par c0 by auto
    next
      case False
      then have we: "walk ?h root (ds @ [e]) = walk h root (ds @ [e])" using w[OF oc[OF A(2)]] by argo
      have ne: "walk h root (ds @ [e]) \<noteq> 0" using A(3) we by simp
      have "f = e" if f: "f < 8" "walk ?h root (ds @ [f]) = walk h root (ds @ [e])" for f
      proof -
        have "c \<noteq> walk h root (ds @ [e])" using c ne oc[OF A(2)] by metis
        then have "walk h root (ds @ [f]) = walk h root (ds @ [e])" using w[OF oc[OF f(1)]] f(2) by (auto split: if_splits)
        then show ?thesis by (rule tree_okD(3)[OF ok A(1,2) ne f(1)])
      qed
      then show ?thesis using tree_okD(1,2)[OF ok A(1,2) ne] by (simp add: we wds)
    qed
  qed
  then show ?thesis unfolding tree_ok_def using root by simp
qed

lemma link_at_set_branch:
  assumes ok: "tree_ok h root" and p: "octal p" "walk h root p \<noteq> 0" and d: "d < 8"
    and old: "walk h root (p @ [d]) = 0 \<or> bare (h (walk h root (p @ [d])))"
    and c: "c = 0 \<or> c \<noteq> walk h root p \<and> bare (h c) \<and> (\<forall>ds. octal ds \<longrightarrow> walk h root ds \<noteq> c)"
    and ds: "octal ds"
  shows "link_at (set_branch (walk h root p) d c h) root ds = link_at h root ds"
proof -
  have "walk (set_branch (walk h root p) d c h) root ds = (if ds = p @ [d] then c else walk h root ds)"
    using old c by (intro walk_set_branch[OF ok p d _ _ ds]) (auto simp: bare_def)
  then show ?thesis using old c by (auto simp: link_at_def Let_def bare_def)
qed

text \<open>A store change at an address the tree does not reach.\<close>

lemma walk_other:
  assumes "\<forall>ds. octal ds \<longrightarrow> walk h root ds \<noteq> q" and "octal ds"
  shows "walk (h(q := x)) root ds = walk h root ds"
  using assms(2)
proof (induction ds rule: rev_induct)
  case (snoc d ds)
  have ds: "octal ds" using snoc.prems by simp
  have "walk h root ds \<noteq> q" using assms(1) ds by blast
  then show ?case unfolding walk_snoc snoc.IH[OF ds] by simp
qed simp

lemma tree_ok_other:
  assumes "\<forall>ds. octal ds \<longrightarrow> walk h root ds \<noteq> q" and "tree_ok h root"
  shows "tree_ok (h(q := x)) root"
proof -
  have "root \<noteq> q" using assms(1) by (metis walk.simps(1) empty_set empty_subsetI)
  then show ?thesis using assms unfolding tree_ok_def by (simp add: walk_other)
qed

lemma link_at_other:
  assumes "\<forall>ds. octal ds \<longrightarrow> walk h root ds \<noteq> q" and "octal ds"
  shows "link_at (h(q := x)) root ds = link_at h root ds"
  using assms walk_other[OF assms] by (simp add: link_at_def Let_def)

text \<open>Setting the link of a node.\<close>

definition set_link :: "u32 \<Rightarrow> u32 \<Rightarrow> (u32 \<Rightarrow> radix_node) \<Rightarrow> u32 \<Rightarrow> radix_node" where
  "set_link n l h = h(n := (h n)\<lparr>rlink := l\<rparr>)"

lemma set_link_sel [simp]:
  "rparent (set_link n l h m) = rparent (h m)" "branches (set_link n l h m) = branches (h m)"
  "rlink (set_link n l h m) = (if m = n then l else rlink (h m))"
  by (auto simp: set_link_def)

lemma walk_set_link [simp]: "walk (set_link n l h) m ds = walk h m ds"
  by (induction ds arbitrary: m) simp_all

lemma tree_ok_set_link [simp]: "tree_ok (set_link n l h) root = tree_ok h root"
  by (simp add: tree_ok_def)

lemma link_at_set_link:
  assumes "tree_ok h root" and "octal p" and "walk h root p \<noteq> 0" and "octal ds"
  shows "link_at (set_link (walk h root p) l h) root ds = (if ds = p then l else link_at h root ds)"
  using assms walk_inj[OF assms(1) assms(4,2)] by (auto simp: link_at_def Let_def)

subsection \<open>The tree in the heap\<close>

text \<open>The root is a static object; every other node is a region of the heap.\<close>

definition radix_wf :: "u32 \<Rightarrow> radix_sys \<Rightarrow> bool" where
  "radix_wf root s \<longleftrightarrow> sys_wf (rheap s) \<and> tree_ok (rnodes s) root \<and> unat root \<notin> sys_zone (rheap s) \<and>
     (\<forall>ds. octal ds \<longrightarrow> ds \<noteq> [] \<longrightarrow> walk (rnodes s) root ds \<noteq> 0 \<longrightarrow> (\<exists>k. (unat (walk (rnodes s) root ds), k) \<in> sys_live (rheap s)))"

abbreviation same_links :: "u32 \<Rightarrow> radix_sys \<Rightarrow> radix_sys \<Rightarrow> bool" where
  "same_links root s s' \<equiv> \<forall>ds. octal ds \<longrightarrow> link_at (rnodes s') root ds = link_at (rnodes s) root ds"

lemma radix_wfD:
  assumes "radix_wf root s"
  shows "sys_wf (rheap s)" and "tree_ok (rnodes s) root" and "unat root \<notin> sys_zone (rheap s)"
    and "octal ds \<Longrightarrow> ds \<noteq> [] \<Longrightarrow> walk (rnodes s) root ds \<noteq> 0 \<Longrightarrow> \<exists>k. (unat (walk (rnodes s) root ds), k) \<in> sys_live (rheap s)"
  using assms unfolding radix_wf_def by blast+

text \<open>A region outside the tree, and that an operation on the tree leaves those regions alone.\<close>

definition off_tree :: "u32 \<Rightarrow> radix_sys \<Rightarrow> u32 \<Rightarrow> nat \<Rightarrow> bool" where
  "off_tree root s c k \<longleftrightarrow> c \<noteq> 0 \<and> (unat c, k) \<in> sys_live (rheap s) \<and> (\<forall>ds. octal ds \<longrightarrow> walk (rnodes s) root ds \<noteq> c)"

definition keeps :: "u32 \<Rightarrow> radix_sys \<Rightarrow> radix_sys \<Rightarrow> bool" where
  "keeps root s s' \<longleftrightarrow> sys_zone (rheap s') = sys_zone (rheap s) \<and> mcpu (rheap s') = mcpu (rheap s) \<and>
     (\<forall>c k. off_tree root s c k \<longrightarrow> off_tree root s' c k)"

lemma keeps_refl: "keeps root s s"
  by (simp add: keeps_def)

lemma keeps_trans: "keeps root s s1 \<Longrightarrow> keeps root s1 s2 \<Longrightarrow> keeps root s s2"
  by (simp add: keeps_def)

lemma keeps_set_link [simp]:
  "keeps root (s\<lparr>rnodes := set_link n l (rnodes s)\<rparr>) s' = keeps root s s'"
  "keeps root s (s'\<lparr>rnodes := set_link n l (rnodes s')\<rparr>) = keeps root s s'"
proof -
  have "off_tree root (s\<lparr>rnodes := set_link n l (rnodes s)\<rparr>) = off_tree root s" for s by (intro ext) (simp add: off_tree_def)
  then show "keeps root (s\<lparr>rnodes := set_link n l (rnodes s)\<rparr>) s' = keeps root s s'"
    "keeps root s (s'\<lparr>rnodes := set_link n l (rnodes s')\<rparr>) = keeps root s s'"
    by (simp_all add: keeps_def)
qed

text \<open>An address at which no region began is no node of the tree.\<close>

lemma fresh_unreached:
  assumes "radix_wf root s" and "q \<noteq> 0" and "unat q \<in> sys_zone (rheap s)" and "\<forall>x\<in>sys_live (rheap s). fst x \<noteq> unat q"
  shows "\<forall>ds. octal ds \<longrightarrow> walk (rnodes s) root ds \<noteq> q"
proof (intro allI impI notI)
  fix ds assume ds: "octal ds" "walk (rnodes s) root ds = q"
  show False
  proof (cases "ds = []")
    case True
    then show False using ds radix_wfD(3)[OF assms(1)] assms(3) by simp
  next
    case False
    then show False using radix_wfD(4)[OF assms(1) ds(1)] ds(2) assms(2,4) by fastforce
  qed
qed

lemma allocate_node:
  assumes wf: "radix_wf root s" and adm: "kmalloc_adm GFP_KERNEL (rheap s) 40"
  obtains "kmalloc 40 GFP_KERNEL (rheap s) = Some (rheap s, 0)" and "allocate_radix_node par s = Some (s, 0)"
  | m q k where "kmalloc 40 GFP_KERNEL (rheap s) = Some (m, q)" and "q \<noteq> 0" and "isValid q"
    and "allocate_radix_node par s = Some (s\<lparr>rheap := m, rnodes := (rnodes s)(q := \<lparr>rparent = par, branches = (\<lambda>_. 0), rlink = 0\<rparr>)\<rparr>, q)"
    and "\<forall>ds. octal ds \<longrightarrow> walk (rnodes s) root ds \<noteq> q" and "\<forall>x\<in>sys_live (rheap s). fst x \<noteq> unat q"
    and "sys_wf m" and "sys_zone m = sys_zone (rheap s)" and "mcpu m = mcpu (rheap s)"
    and "sys_live m = insert (unat q, k) (sys_live (rheap s))"
proof -
  obtain m q where q: "kmalloc 40 GFP_KERNEL (rheap s) = Some (m, q)" "sys_wf m" "sys_zone m = sys_zone (rheap s)" "mcpu m = mcpu (rheap s)" "q = 0 \<longrightarrow> m = rheap s"
      "q \<noteq> 0 \<longrightarrow> isValid q \<and> unat q \<in> sys_zone (rheap s) \<and>
        (\<exists>k\<ge>unat (40::u32). sys_live m = insert (unat q, k) (sys_live (rheap s)) \<and> (\<forall>x\<in>sys_live (rheap s). fst x \<noteq> unat q))"
    using kmalloc_request[OF radix_wfD(1)[OF wf] adm] by blast
  note a = allocate_radix_node_def default_malloc_def sizeof_radix_node_def
  show thesis
  proof (cases "q = 0")
    case True
    then show thesis using q by (intro that(1)) (simp_all add: a isValid_iff)
  next
    case False
    then obtain k where k: "isValid q" "unat q \<in> sys_zone (rheap s)" "sys_live m = insert (unat q, k) (sys_live (rheap s))"
        "\<forall>x\<in>sys_live (rheap s). fst x \<noteq> unat q"
      using q(6) by blast
    have "allocate_radix_node par s =
        Some (s\<lparr>rheap := m, rnodes := (rnodes s)(q := \<lparr>rparent = par, branches = (\<lambda>_. 0), rlink = 0\<rparr>)\<rparr>, q)"
      using q(1) k(1) by (simp add: a)
    then show thesis using that(2)[OF q(1) False k(1) _ fresh_unreached[OF wf False k(2,4)] k(4) q(2,3,4) k(3)] by blast
  qed
qed

text \<open>Hanging a new node below one of the tree.\<close>

lemma hang_node:
  assumes wf: "radix_wf root s" and p: "octal p" "walk (rnodes s) root p \<noteq> 0" and d: "d < 8"
    and free: "branches (rnodes s (walk (rnodes s) root p)) d = 0" and q: "q \<noteq> 0" "\<forall>ds. octal ds \<longrightarrow> walk (rnodes s) root ds \<noteq> q"
    and fr: "\<forall>x\<in>sys_live (rheap s). fst x \<noteq> unat q"
    and m: "sys_wf m" "sys_zone m = sys_zone (rheap s)" "mcpu m = mcpu (rheap s)" "sys_live m = insert (unat q, k) (sys_live (rheap s))"
    and h: "h = set_branch (walk (rnodes s) root p) d q ((rnodes s)(q := \<lparr>rparent = walk (rnodes s) root p, branches = (\<lambda>_. 0), rlink = 0\<rparr>))"
  shows "radix_wf root (s\<lparr>rheap := m, rnodes := h, rdepth := dp\<rparr>)" and "same_links root s (s\<lparr>rheap := m, rnodes := h, rdepth := dp\<rparr>)"
    and "walk h root (p @ [d]) = q" and "keeps root s (s\<lparr>rheap := m, rnodes := h, rdepth := dp\<rparr>)"
proof -
  let ?nd = "\<lparr>rparent = walk (rnodes s) root p, branches = (\<lambda>_. 0), rlink = 0\<rparr>"
  let ?g = "(rnodes s)(q := ?nd)"
  note ok = radix_wfD(2)[OF wf]
  have okg: "tree_ok ?g root" by (rule tree_ok_other[OF q(2) ok])
  have wg: "octal ds \<Longrightarrow> walk ?g root ds = walk (rnodes s) root ds" for ds by (rule walk_other[OF q(2)])
  have h': "h = set_branch (walk ?g root p) d q ?g" using h wg[OF p(1)] by simp
  have pg: "walk ?g root p \<noteq> 0" using p wg by metis
  have pd: "octal (p @ [d])" using p(1) d by simp
  have old: "walk ?g root (p @ [d]) = 0" using wg[OF pd] free by (simp add: walk_snoc)
  have new: "q = 0 \<or> q \<noteq> walk ?g root p \<and> bare (?g q) \<and> (\<forall>ds. octal ds \<longrightarrow> walk ?g root ds \<noteq> q)"
    using q(2) wg p(1) by (simp add: bare_def) metis
  then have new': "q = 0 \<or> q \<noteq> walk ?g root p \<and> (\<forall>e<8. branches (?g q) e = 0) \<and> (\<forall>ds. octal ds \<longrightarrow> walk ?g root ds \<noteq> q)"
    by (simp add: bare_def)
  note wh = walk_set_branch[OF okg p(1) pg d disjI1[OF old] new', folded h']
  show w1: "walk h root (p @ [d]) = q" using wh[OF pd] by simp
  have "off_tree root (s\<lparr>rheap := m, rnodes := h, rdepth := dp\<rparr>) c l" if "off_tree root s c l" for c l
  proof -
    have "c \<noteq> q" using that fr unfolding off_tree_def by force
    then have "walk h root ds \<noteq> c" if "octal ds" for ds
      using wh[OF that] wg[OF that] \<open>off_tree root s c l\<close> that by (simp add: off_tree_def)
    then show ?thesis using that m(4) by (simp add: off_tree_def)
  qed
  then show "keeps root s (s\<lparr>rheap := m, rnodes := h, rdepth := dp\<rparr>)" using m(2,3) by (simp add: keeps_def)
  have "tree_ok h root" unfolding h' using wg[OF p(1)]
    by (intro tree_ok_set_branch[OF okg p(1) pg d disjI1[OF old] new']) simp
  moreover have "\<exists>k. (unat (walk h root ds), k) \<in> sys_live m" if "octal ds" "ds \<noteq> []" "walk h root ds \<noteq> 0" for ds
    using wh[OF that(1)] wg[OF that(1)] radix_wfD(4)[OF wf that(1,2)] that(3) m(4) by (auto split: if_splits)
  ultimately show "radix_wf root (s\<lparr>rheap := m, rnodes := h, rdepth := dp\<rparr>)"
    using m(1,2) radix_wfD(3)[OF wf] by (simp add: radix_wf_def)
  show "same_links root s (s\<lparr>rheap := m, rnodes := h, rdepth := dp\<rparr>)"
    using link_at_set_branch[OF okg p(1) pg d disjI1[OF old] new, folded h'] link_at_other[OF q(2)] by simp
qed

text \<open>The nodes \<^verbatim>\<open>radix_tree_add\<close> has to allocate for a path.\<close>

fun missing :: "(u32 \<Rightarrow> radix_node) \<Rightarrow> u32 \<Rightarrow> u32 list \<Rightarrow> nat" where
  "missing h n [] = 0"
| "missing h n (d # ds) = (let c = branches (h n) d in if c = 0 then Suc (length ds) else missing h c ds)"

definition node_requests :: "nat \<Rightarrow> (u32 \<times> u32) list" where
  "node_requests c = replicate c (40, GFP_KERNEL)"

lemma node_requests_simps:
  "node_requests 0 = []" "node_requests (Suc c) = (40, GFP_KERNEL) # node_requests c"
  by (simp_all add: node_requests_def)

lemma missing_new: "branches (h n) = (\<lambda>_. 0) \<Longrightarrow> missing h n ds = length ds"
  by (cases ds) simp_all

definition add_result :: "u32 \<Rightarrow> u32 list \<Rightarrow> (u32 \<times> u32) list \<Rightarrow> radix_sys \<Rightarrow> radix_sys \<Rightarrow> u32 option \<Rightarrow> bool" where
  "add_result root ds rs s s' r \<longleftrightarrow> radix_wf root s' \<and> same_links root s s' \<and> keeps root s s' \<and>
     (case r of None \<Rightarrow> \<not> served rs (rheap s)
      | Some n \<Rightarrow> served rs (rheap s) \<and> n = walk (rnodes s') root ds \<and> n \<noteq> 0)"

lemma radix_wf_depth [simp]: "radix_wf root (s\<lparr>rdepth := dp\<rparr>) = radix_wf root s"
  by (simp add: radix_wf_def)

lemma keeps_depth [simp]: "keeps root (s\<lparr>rdepth := dp\<rparr>) s' = keeps root s s'"
  by (simp add: keeps_def off_tree_def)

lemma add_result_depth [simp]: "add_result root ds rs (s\<lparr>rdepth := dp\<rparr>) s' r = add_result root ds rs s s' r"
  by (simp add: add_result_def split: option.split)

text \<open>One pass of the loop, with the branch in place and with a new node.\<close>

lemma add_step_existing:
  assumes "i < lenth" and "branches (rnodes s n) (get_radix_node_branch v) \<noteq> 0"
  shows "radix_add_from lenth i v n link s = radix_add_from lenth (i + MAX_BRANCH) (radix_tree_advance v)
    (branches (rnodes s n) (get_radix_node_branch v)) link (s\<lparr>rdepth := (rdepth s)(link := i)\<rparr>)"
  using assms by (subst radix_add_from.simps) simp

lemma add_step_new:
  assumes i: "i < lenth" and wf: "radix_wf root s" and p: "octal p" "walk (rnodes s) root p \<noteq> 0"
    and free: "branches (rnodes s (walk (rnodes s) root p)) (get_radix_node_branch v) = 0" and adm: "kmalloc_adm GFP_KERNEL (rheap s) 40"
  obtains "kmalloc 40 GFP_KERNEL (rheap s) = Some (rheap s, 0)" and "radix_add_from lenth i v (walk (rnodes s) root p) link s = Some (s, None)"
  | s1 q where "kmalloc 40 GFP_KERNEL (rheap s) = Some (rheap s1, q)" and "q \<noteq> 0" and "radix_wf root s1" and "same_links root s s1"
    and "keeps root s s1" and "walk (rnodes s1) root (p @ [get_radix_node_branch v]) = q" and "branches (rnodes s1 q) = (\<lambda>_. 0)"
    and "radix_add_from lenth i v (walk (rnodes s) root p) link s = radix_add_from lenth (i + MAX_BRANCH) (radix_tree_advance v) q link s1"
proof -
  let ?n = "walk (rnodes s) root p" and ?d = "get_radix_node_branch v"
  have d: "?d < 8" using digits_bound[of 1 v] by simp
  show thesis
  proof (rule allocate_node[OF wf adm, of ?n])
    assume "kmalloc 40 GFP_KERNEL (rheap s) = Some (rheap s, 0)" "allocate_radix_node ?n s = Some (s, 0)"
    then show thesis using free i by (intro that(1)) (simp, subst radix_add_from.simps, simp add: isValid_iff)
  next
    fix m q l
    let ?h = "set_branch ?n ?d q ((rnodes s)(q := \<lparr>rparent = ?n, branches = (\<lambda>_. 0), rlink = 0\<rparr>))"
    let ?s = "s\<lparr>rheap := m, rnodes := ?h, rdepth := (rdepth s)(link := i)\<rparr>"
    assume A: "kmalloc 40 GFP_KERNEL (rheap s) = Some (m, q)" "q \<noteq> 0" "isValid q"
      and al: "allocate_radix_node ?n s = Some (s\<lparr>rheap := m, rnodes := (rnodes s)(q := \<lparr>rparent = ?n, branches = (\<lambda>_. 0), rlink = 0\<rparr>)\<rparr>, q)"
      and q: "\<forall>ds. octal ds \<longrightarrow> walk (rnodes s) root ds \<noteq> q" and fr: "\<forall>x\<in>sys_live (rheap s). fst x \<noteq> unat q"
      and m: "sys_wf m" "sys_zone m = sys_zone (rheap s)" "mcpu m = mcpu (rheap s)" "sys_live m = insert (unat q, l) (sys_live (rheap s))"
    note new = hang_node[OF wf p d free A(2) q fr m refl]
    have "branches (rnodes ?s q) = (\<lambda>_. 0)" using q p(1) by (intro ext) auto
    moreover have "radix_add_from lenth i v ?n link s = radix_add_from lenth (i + MAX_BRANCH) (radix_tree_advance v) q link ?s"
      using free i al A(3) by (subst radix_add_from.simps) (simp add: set_branch_def)
    ultimately show thesis using A(1,2) new(1,2,4)[of "(rdepth s)(link := i)"] new(3) by (intro that(2)[of ?s q]) simp_all
  qed
qed

lemma add_from_walk:
  assumes "j \<le> k" and "k \<le> 11" and "radix_wf root s" and "octal p" and "walk (rnodes s) root p \<noteq> 0"
    and "requests_adm (node_requests (missing (rnodes s) (walk (rnodes s) root p) (digits (k - j) v))) (rheap s)"
  shows "\<exists>s' r. radix_add_from (word_of_nat (3 * k)) (word_of_nat (3 * j)) v (walk (rnodes s) root p) link s = Some (s', r) \<and>
    add_result root (p @ digits (k - j) v) (node_requests (missing (rnodes s) (walk (rnodes s) root p) (digits (k - j) v))) s s' r"
  using assms
proof (induction "k - j" arbitrary: j v p s)
  case 0
  then have "j = k" by simp
  then show ?case using 0 by (subst radix_add_from.simps) (simp add: add_result_def node_requests_simps keeps_refl)
next
  case (Suc c)
  then have j: "j < k" "c = k - Suc j" "k - j = Suc c" by linarith+
  note i = loop_index[OF j(1) Suc.prems(2)]
  note IH = Suc.hyps(1)[OF j(2) _ Suc.prems(2), folded j(2) i(2)]
  let ?n = "walk (rnodes s) root p" and ?d = "get_radix_node_branch v" and ?v = "radix_tree_advance v"
  have pd: "octal (p @ [?d])" using Suc.prems(4) digits_bound[of 1 v] by simp
  have ds: "p @ digits (k - j) v = (p @ [?d]) @ digits c ?v" by (simp add: j(3))
  show ?case
  proof (cases "branches (rnodes s ?n) ?d = 0")
    case False
    let ?s = "s\<lparr>rdepth := (rdepth s)(link := word_of_nat (3 * j))\<rparr>"
    have w: "branches (rnodes s ?n) ?d = walk (rnodes ?s) root (p @ [?d])" using Suc.prems(5) by (simp add: walk_snoc)
    have ms: "missing (rnodes s) ?n (digits (k - j) v) = missing (rnodes ?s) (walk (rnodes ?s) root (p @ [?d])) (digits c ?v)"
      using False w by (simp add: j(3))
    show ?thesis using IH[of ?s "p @ [?d]" ?v] j(1) Suc.prems(3,6) pd False
      unfolding add_step_existing[OF i(1) False] ds ms by (simp add: w del: of_nat_mult)
  next
    case True
    then have ms: "missing (rnodes s) ?n (digits (k - j) v) = Suc c" by (simp add: j(3))
    have adm: "kmalloc_adm GFP_KERNEL (rheap s) 40" using Suc.prems(6) by (simp add: ms node_requests_simps)
    show ?thesis
    proof (rule add_step_new[OF i(1) Suc.prems(3-5) True adm, of link])
      assume "kmalloc 40 GFP_KERNEL (rheap s) = Some (rheap s, 0)"
        "radix_add_from (word_of_nat (3 * k)) (word_of_nat (3 * j)) v ?n link s = Some (s, None)"
      then show ?thesis using Suc.prems(3) unfolding ms by (simp add: add_result_def node_requests_simps keeps_refl del: of_nat_mult)
    next
      fix s1 q
      assume A: "kmalloc 40 GFP_KERNEL (rheap s) = Some (rheap s1, q)" "q \<noteq> 0" "radix_wf root s1" "same_links root s s1" "keeps root s s1"
        and w: "walk (rnodes s1) root (p @ [?d]) = q" and b: "branches (rnodes s1 q) = (\<lambda>_. 0)"
        and st: "radix_add_from (word_of_nat (3 * k)) (word_of_nat (3 * j)) v ?n link s =
          radix_add_from (word_of_nat (3 * k)) (word_of_nat (3 * j) + MAX_BRANCH) ?v q link s1"
      have ms': "missing (rnodes s1) q (digits c ?v) = c" using missing_new[of "rnodes s1" q "digits c ?v"] b by simp
      have "requests_adm (node_requests c) (rheap s1)" using Suc.prems(6) A(1,2) unfolding ms by (simp add: node_requests_simps)
      then obtain s' r where "radix_add_from (word_of_nat (3 * k)) (word_of_nat (3 * j) + MAX_BRANCH) ?v q link s1 = Some (s', r)"
          "add_result root ((p @ [?d]) @ digits c ?v) (node_requests c) s1 s' r"
        using IH[of s1 "p @ [?d]" ?v] j(1) A(2,3) pd unfolding w ms' by auto
      then show ?thesis using A keeps_trans[OF A(5)] unfolding st ds ms
        by (auto simp: add_result_def node_requests_simps split: option.splits)
    qed
  qed
qed

text \<open>The whole of \<^verbatim>\<open>radix_tree_add\<close> on an absent number.\<close>

definition add_requests :: "u32 \<Rightarrow> u32 \<Rightarrow> radix_sys \<Rightarrow> (u32 \<times> u32) list" where
  "add_requests root number s = node_requests (missing (rnodes s) root (path number))"

lemma add_absent:
  assumes wf: "radix_wf root s" and l: "link \<noteq> 0" and absent: "link_at (rnodes s) root (path number) = 0"
    and adm: "requests_adm (add_requests root number s) (rheap s)"
  shows "\<exists>s'. radix_tree_add root number link s = Some s' \<and> radix_wf root s' \<and> keeps root s s' \<and>
    (if served (add_requests root number s) (rheap s)
     then (\<forall>ds. octal ds \<longrightarrow> link_at (rnodes s') root ds = (if ds = path number then link else link_at (rnodes s) root ds))
     else same_links root s s')"
proof -
  obtain k where k: "radix_tree_numlen number = Some (word_of_nat (3 * k))" "path number = digits k number" "k \<le> 11" by (rule path_digits)
  have root: "root \<noteq> 0" using radix_wfD(2)[OF wf] by (simp add: tree_ok_def)
  obtain s1 r where s1: "radix_add_from (word_of_nat (3 * k)) 0 number root link s = Some (s1, r)"
      "add_result root (path number) (add_requests root number s) s s1 r"
    using add_from_walk[of 0 k root s "[]" number link] k(2,3) wf root adm by (auto simp: add_requests_def)
  have e: "radix_tree_add root number link s =
      (case r of None \<Rightarrow> Some s1 | Some n \<Rightarrow> Some (if n \<noteq> root then s1\<lparr>rnodes := set_link n link (rnodes s1)\<rparr> else s1))"
    using k(1) l absent s1(1) by (simp add: radix_tree_add_def find_node set_link_def del: of_nat_mult split: option.split)
  show ?thesis
  proof (cases r)
    case None
    then show ?thesis using s1(2) by (simp add: e add_result_def)
  next
    case (Some n)
    then have n: "radix_wf root s1" "keeps root s s1" "same_links root s s1" "served (add_requests root number s) (rheap s)"
        "n = walk (rnodes s1) root (path number)" "n \<noteq> 0"
      using s1(2) by (auto simp: add_result_def)
    note ok = radix_wfD(2)[OF n(1)]
    have "n \<noteq> root" using walk_inj[OF ok path_bound(1)[of number], of "[]"] path_bound(2)[of number] n(5,6) by auto
    then have "radix_tree_add root number link s = Some (s1\<lparr>rnodes := set_link n link (rnodes s1)\<rparr>)" using Some by (simp add: e)
    moreover have "radix_wf root (s1\<lparr>rnodes := set_link n link (rnodes s1)\<rparr>)" using n(1) by (simp add: radix_wf_def)
    moreover have "keeps root s (s1\<lparr>rnodes := set_link n link (rnodes s1)\<rparr>)" using n(2) by simp
    ultimately show ?thesis
      using n(3-6) link_at_set_link[OF ok path_bound(1)[of number]] by simp
  qed
qed

subsection \<open>Removing\<close>

lemma clear_none:
  assumes "child = 0 \<or> child \<notin> b ` set is"
  shows "clear_branch child is count b = (b, count \<noteq> 0 \<or> (\<exists>i\<in>set is. b i \<noteq> 0))"
  using assms
proof (induction "is" arbitrary: count)
  case (Cons i "is")
  have IH: "clear_branch child is c b = (b, c \<noteq> 0 \<or> (\<exists>i\<in>set is. b i \<noteq> 0))" for c using Cons by auto
  show ?case
  proof (cases "b i = child")
    case True
    then have z: "child = 0" "b i = 0" using Cons.prems by auto
    then have "b(i := 0) = b" by auto
    then show ?thesis using z IH by (simp add: Let_def)
  next
    case False
    then show ?thesis using IH by simp
  qed
qed simp

lemma clear_one:
  assumes "b off \<noteq> 0" and "distinct is" and "off \<in> set is" and "\<And>i. i \<in> set is \<Longrightarrow> i \<noteq> off \<Longrightarrow> b i \<noteq> b off"
  shows "clear_branch (b off) is count b = (b(off := 0), count \<noteq> 0 \<or> (\<exists>i\<in>set is. i \<noteq> off \<and> b i \<noteq> 0))"
  using assms(2,3,4)
proof (induction "is" arbitrary: count)
  case (Cons i "is")
  show ?case
  proof (cases "i = off")
    case True
    then have n: "off \<notin> set is" using Cons.prems(1) by simp
    have "b off \<notin> b(off := 0) ` set is"
    proof
      assume "b off \<in> b(off := 0) ` set is"
      then obtain j where j: "j \<in> set is" "b off = (b(off := 0)) j" by (rule imageE) blast
      then have "j \<noteq> off" using n by blast
      then show False using Cons.prems(3)[of j] j by simp
    qed
    then have "clear_branch (b off) is count (b(off := 0)) = (b(off := 0), count \<noteq> 0 \<or> (\<exists>j\<in>set is. (b(off := 0)) j \<noteq> 0))"
      using clear_none[of "b off" "b(off := 0)" "is" count] by blast
    moreover have "(\<exists>j\<in>set is. (b(off := 0)) j \<noteq> 0) = (\<exists>j\<in>set is. j \<noteq> off \<and> b j \<noteq> 0)" by (simp add: fun_upd_def) blast
    ultimately show ?thesis using True by (cases "count = 0") (simp_all add: Let_def fun_upd_def)
  next
    case False
    then have "b i \<noteq> b off" using Cons.prems(3)[of i] by simp
    moreover have "clear_branch (b off) is c b = (b(off := 0), c \<noteq> 0 \<or> (\<exists>i\<in>set is. i \<noteq> off \<and> b i \<noteq> 0))" for c
    proof (rule Cons.IH)
      show "distinct is" "off \<in> set is" using Cons.prems False by simp_all
      show "b j \<noteq> b off" if "j \<in> set is" "j \<noteq> off" for j using Cons.prems(3)[of j] that by simp
    qed
    ultimately show ?thesis using False by (simp add: fun_upd_def)
  qed
qed simp

lemma branch_indices: "distinct branch_indices" "set branch_indices = {..<8}"
proof -
  have u: "unat (word_of_nat i :: u32) = i" if "i < 8" for i using that by (intro u32_of_nat) simp
  have "inj_on (word_of_nat :: nat \<Rightarrow> u32) {0..<8}"
    by (rule inj_onI) (metis u atLeastLessThan_iff)
  then show "distinct branch_indices" unfolding branch_indices_def distinct_map set_upt using distinct_upt by blast
  show "set branch_indices = {..<8}" unfolding branch_indices_def set_map set_upt
  proof (intro subset_antisym subsetI)
    fix x :: u32 assume "x \<in> word_of_nat ` {0..<8}"
    then obtain i where i: "x = word_of_nat i" "i < 8" by (rule imageE) (simp only: atLeastLessThan_iff)
    have "unat x < unat (8 :: u32)" unfolding i(1) u[OF i(2)] using i(2) by simp
    then show "x \<in> {..<8}" by (simp only: lessThan_iff word_less_nat_alt)
  next
    fix x :: u32 assume "x \<in> {..<8}"
    then have "unat x < unat (8 :: u32)" by (simp only: lessThan_iff word_less_nat_alt)
    then have l: "unat x < 8" by simp
    have "x = word_of_nat (unat x)" unfolding u32_eq_iff u[OF l] by (rule refl)
    then show "x \<in> word_of_nat ` {0..<8}" using l by (metis atLeastLessThan_iff image_eqI zero_le)
  qed
qed

text \<open>What \<^verbatim>\<open>__del_radix_node\<close> does once the branch is cleared: a node left bare goes, its parent first.\<close>

definition del_rest :: "u32 \<Rightarrow> u32 \<Rightarrow> radix_sys \<Rightarrow> radix_sys option" where
  "del_rest root n s =
     (if bare (rnodes s n) then do {
        s' \<leftarrow> del_radix_node root (rparent (rnodes s n)) n s;
        if n \<noteq> root then do { m \<leftarrow> kfree n (rheap s'); Some (s'\<lparr>rheap := m\<rparr>) } else Some s'
      }
      else Some s)"

lemma del_at_target:
  assumes "n \<noteq> 0"
  shows "del_radix_node root n 0 s = del_rest root n s"
proof -
  have c: "clear_branch 0 branch_indices 0 (branches (rnodes s n)) = (branches (rnodes s n), \<exists>i<8. branches (rnodes s n) i \<noteq> 0)"
    by (subst clear_none) (auto simp: branch_indices(2))
  have u: "(rnodes s)(n := (rnodes s n)\<lparr>branches := branches (rnodes s n)\<rparr>) = rnodes s" by simp
  show ?thesis using assms by (subst del_radix_node.simps) (auto simp: c u del_rest_def bare_def)
qed

lemma del_above:
  assumes "n \<noteq> 0" and "d < 8" and "branches (rnodes s n) d \<noteq> 0"
    and "\<And>e. e < 8 \<Longrightarrow> e \<noteq> d \<Longrightarrow> branches (rnodes s n) e \<noteq> branches (rnodes s n) d"
  shows "del_radix_node root n (branches (rnodes s n) d) s = del_rest root n (s\<lparr>rnodes := set_branch n d 0 (rnodes s)\<rparr>)"
proof -
  let ?b = "branches (rnodes s n)"
  have c: "clear_branch (?b d) branch_indices 0 ?b = (?b(d := 0), \<exists>i<8. i \<noteq> d \<and> ?b i \<noteq> 0)"
    using assms by (subst clear_one) (auto simp: branch_indices)
  have "bare (set_branch n d 0 (rnodes s) n) \<longleftrightarrow> \<not> (\<exists>i<8. i \<noteq> d \<and> ?b i \<noteq> 0) \<and> rlink (rnodes s n) = 0"
    by (auto simp: bare_def)
  then show ?thesis using assms(1) by (subst del_radix_node.simps) (auto simp: c del_rest_def set_branch_def Let_def)
qed

text \<open>Cutting a bare node off.\<close>

lemma cut_node:
  assumes wf: "radix_wf root s" and p: "octal p" "walk (rnodes s) root p \<noteq> 0" and d: "d < 8"
    and b: "bare (rnodes s (walk (rnodes s) root (p @ [d])))" and s1: "s1 = s\<lparr>rnodes := set_branch (walk (rnodes s) root p) d 0 (rnodes s)\<rparr>"
  shows "radix_wf root s1" and "same_links root s s1"
    and "octal ds \<Longrightarrow> walk (rnodes s1) root ds = (if ds = p @ [d] then 0 else walk (rnodes s) root ds)"
proof -
  note ok = radix_wfD(2)[OF wf]
  have old: "walk (rnodes s) root (p @ [d]) = 0 \<or> (\<forall>e<8. branches (rnodes s (walk (rnodes s) root (p @ [d]))) e = 0)"
    using b by (simp add: bare_def)
  have w: "octal ds \<Longrightarrow> walk (rnodes s1) root ds = (if ds = p @ [d] then 0 else walk (rnodes s) root ds)" for ds
    using walk_set_branch[OF ok p d old, of 0 ds] s1 by simp
  show "octal ds \<Longrightarrow> walk (rnodes s1) root ds = (if ds = p @ [d] then 0 else walk (rnodes s) root ds)" by (rule w)
  have "tree_ok (rnodes s1) root" using tree_ok_set_branch[OF ok p d old, of 0] s1 by simp
  moreover have "\<exists>k. (unat (walk (rnodes s1) root ds), k) \<in> sys_live (rheap s1)" if "octal ds" "ds \<noteq> []" "walk (rnodes s1) root ds \<noteq> 0" for ds
    using w[OF that(1)] radix_wfD(4)[OF wf that(1,2)] that(3) s1 by (auto split: if_splits)
  ultimately show "radix_wf root s1" using radix_wfD(1,3)[OF wf] s1 by (simp add: radix_wf_def)
  show "same_links root s s1" using link_at_set_branch[OF ok p d disjI2[OF b], of 0] s1 by simp
qed

text \<open>The recursion upwards: links stay, nodes that go are freed once, and a region outside the tree is kept.\<close>

definition pruned :: "u32 \<Rightarrow> radix_sys \<Rightarrow> radix_sys \<Rightarrow> bool" where
  "pruned root s s' \<longleftrightarrow> radix_wf root s' \<and> same_links root s s' \<and>
     (\<forall>ds. octal ds \<longrightarrow> walk (rnodes s') root ds = 0 \<or> walk (rnodes s') root ds = walk (rnodes s) root ds) \<and>
     sys_zone (rheap s') = sys_zone (rheap s) \<and> mcpu (rheap s') = mcpu (rheap s) \<and>
     (\<forall>c k. c \<noteq> 0 \<longrightarrow> (unat c, k) \<in> sys_live (rheap s) \<longrightarrow> (\<forall>ds. octal ds \<longrightarrow> walk (rnodes s) root ds \<noteq> c) \<longrightarrow> (unat c, k) \<in> sys_live (rheap s'))"

lemma pruned_refl: "radix_wf root s \<Longrightarrow> pruned root s s"
  by (simp add: pruned_def)

lemma pruned_trans:
  assumes "pruned root s s1" and "pruned root s1 s2"
  shows "pruned root s s2"
proof -
  have unr: "walk (rnodes s1) root ds \<noteq> c" if "c \<noteq> 0" "octal ds" "\<forall>ds. octal ds \<longrightarrow> walk (rnodes s) root ds \<noteq> c" for c ds
    using assms(1) that unfolding pruned_def by metis
  have "walk (rnodes s2) root ds = 0 \<or> walk (rnodes s2) root ds = walk (rnodes s) root ds" if "octal ds" for ds
    using assms that unfolding pruned_def by metis
  moreover have "(unat c, k) \<in> sys_live (rheap s2)"
    if "c \<noteq> 0" "(unat c, k) \<in> sys_live (rheap s)" "\<forall>ds. octal ds \<longrightarrow> walk (rnodes s) root ds \<noteq> c" for c k
    using assms that unr[OF that(1) _ that(3)] unfolding pruned_def by blast
  ultimately show ?thesis using assms unfolding pruned_def by simp
qed

lemma pruned_keeps: "pruned root s s' \<Longrightarrow> keeps root s s'"
proof -
  assume p: "pruned root s s'"
  have "off_tree root s' c k" if o: "off_tree root s c k" for c k
  proof -
    have "walk (rnodes s') root ds \<noteq> c" if "octal ds" for ds using p o that unfolding pruned_def off_tree_def by metis
    moreover have "(unat c, k) \<in> sys_live (rheap s')" using p o unfolding pruned_def off_tree_def by blast
    ultimately show ?thesis using o unfolding off_tree_def by blast
  qed
  then show ?thesis using p unfolding keeps_def pruned_def by blast
qed

lemma cut_pruned:
  assumes "radix_wf root s" and "octal p" and "walk (rnodes s) root p \<noteq> 0" and "d < 8"
    and "bare (rnodes s (walk (rnodes s) root (p @ [d])))"
  shows "pruned root s (s\<lparr>rnodes := set_branch (walk (rnodes s) root p) d 0 (rnodes s)\<rparr>)"
  using cut_node[OF assms refl] by (simp add: pruned_def)

lemma free_node:
  assumes wf: "radix_wf root s" and n: "n \<noteq> 0" "\<forall>ds. octal ds \<longrightarrow> walk (rnodes s) root ds \<noteq> n" "(unat n, k) \<in> sys_live (rheap s)"
  obtains m where "kfree n (rheap s) = Some m" and "radix_wf root (s\<lparr>rheap := m\<rparr>)" and "sys_zone m = sys_zone (rheap s)"
    and "mcpu m = mcpu (rheap s)" and "sys_live m = sys_live (rheap s) - {(unat n, k)}"
proof -
  obtain m where m: "kfree n (rheap s) = Some m" "sys_wf m" "sys_live m = sys_live (rheap s) - {(unat n, k)}" "sys_zone m = sys_zone (rheap s)" "mcpu m = mcpu (rheap s)"
    using kfree_live[OF radix_wfD(1)[OF wf] n(3)] by blast
  have "\<exists>l. (unat (walk (rnodes s) root ds), l) \<in> sys_live m" if "octal ds" "ds \<noteq> []" "walk (rnodes s) root ds \<noteq> 0" for ds
  proof -
    have "walk (rnodes s) root ds \<noteq> n" using n(2) that(1) by blast
    then show ?thesis using radix_wfD(4)[OF wf that] unfolding m(3) u32_eq_iff by blast
  qed
  then have "radix_wf root (s\<lparr>rheap := m\<rparr>)" using radix_wfD(2,3)[OF wf] m(2,4) by (simp add: radix_wf_def)
  then show thesis using that m by blast
qed

text \<open>A bare node is cut off, the recursion has pruned above it, and the node itself is freed.\<close>

lemma cut_and_free:
  assumes wf: "radix_wf root s" and p: "octal p" "walk (rnodes s) root p \<noteq> 0" and d: "d < 8"
    and n: "n = walk (rnodes s) root (p @ [d])" "n \<noteq> 0" "bare (rnodes s n)"
    and s2: "pruned root (s\<lparr>rnodes := set_branch (walk (rnodes s) root p) d 0 (rnodes s)\<rparr>) s2"
  shows "\<exists>h. kfree n (rheap s2) = Some h \<and> pruned root s (s2\<lparr>rheap := h\<rparr>)"
proof -
  let ?s = "s\<lparr>rnodes := set_branch (walk (rnodes s) root p) d 0 (rnodes s)\<rparr>"
  have pd: "octal (p @ [d])" using p(1) d by simp
  note cut = cut_node[OF wf p d n(3)[unfolded n(1)] refl]
  have un: "walk (rnodes ?s) root ds \<noteq> n" if "octal ds" for ds
    using cut(3)[OF that] walk_inj[OF radix_wfD(2)[OF wf] that pd] n(1,2) by (auto split: if_splits)
  obtain k where k: "(unat n, k) \<in> sys_live (rheap ?s)" using radix_wfD(4)[OF wf pd] n by auto
  have k2: "(unat n, k) \<in> sys_live (rheap s2)" using s2 k un n(2) unfolding pruned_def by blast
  have un2: "\<forall>ds. octal ds \<longrightarrow> walk (rnodes s2) root ds \<noteq> n" using s2 un n(2) unfolding pruned_def by metis
  obtain h where h: "kfree n (rheap s2) = Some h" "radix_wf root (s2\<lparr>rheap := h\<rparr>)" "sys_zone h = sys_zone (rheap s2)" "mcpu h = mcpu (rheap s2)"
      "sys_live h = sys_live (rheap s2) - {(unat n, k)}"
    using free_node[OF _ n(2) un2 k2] s2 unfolding pruned_def by blast
  have p2: "pruned root s s2" using pruned_trans[OF cut_pruned[OF wf p d n(3)[unfolded n(1)]] s2] .
  have "(unat c, l) \<in> sys_live h"
    if "c \<noteq> 0" "(unat c, l) \<in> sys_live (rheap s)" "\<forall>ds. octal ds \<longrightarrow> walk (rnodes s) root ds \<noteq> c" for c l
  proof -
    have "c \<noteq> n" using that(3) pd n(1) by blast
    moreover have "(unat c, l) \<in> sys_live (rheap s2)" using p2 that unfolding pruned_def by blast
    ultimately show ?thesis unfolding h(5) u32_eq_iff by blast
  qed
  then have "pruned root s (s2\<lparr>rheap := h\<rparr>)" using p2 h(2,3,4) unfolding pruned_def by simp
  then show ?thesis using h(1) by blast
qed

lemma del_rest_ok:
  assumes "radix_wf root s" and "octal p" and "walk (rnodes s) root p \<noteq> 0"
  shows "\<exists>s'. del_rest root (walk (rnodes s) root p) s = Some s' \<and> pruned root s s'"
  using assms
proof (induction p arbitrary: s rule: rev_induct)
  case Nil
  have "rparent (rnodes s root) = 0" using radix_wfD(2)[OF Nil(1)] by (simp add: tree_ok_def)
  then have "del_rest root root s = Some s" by (simp add: del_rest_def del_radix_node.simps)
  then show ?case using pruned_refl[OF Nil(1)] by simp
next
  case (snoc d p)
  let ?m = "walk (rnodes s) root p" and ?n = "walk (rnodes s) root (p @ [d])"
  note wf = snoc.prems(1) and ok = radix_wfD(2)[OF snoc.prems(1)]
  have p: "octal p" "d < 8" using snoc.prems(2) by auto
  have m: "?m \<noteq> 0" "?n = branches (rnodes s ?m) d" using snoc.prems(3) by (auto simp: walk_snoc split: if_splits)
  note par = tree_okD[OF ok p snoc.prems(3)]
  show ?case
  proof (cases "bare (rnodes s ?n)")
    case False
    then show ?thesis using pruned_refl[OF wf] by (simp add: del_rest_def)
  next
    case True
    let ?s = "s\<lparr>rnodes := set_branch ?m d 0 (rnodes s)\<rparr>"
    note cut = cut_node[OF wf p(1) m(1) p(2) True refl]
    have "branches (rnodes s ?m) e \<noteq> branches (rnodes s ?m) d" if "e < 8" "e \<noteq> d" for e
      using par(3)[OF that(1)] that(2) m(1) by (auto simp: walk_snoc)
    then have up: "del_radix_node root ?m ?n s = del_rest root ?m ?s"
      using del_above[OF m(1) p(2)] snoc.prems(3) unfolding m(2) by blast
    have wm: "walk (rnodes ?s) root p = ?m" using cut(3)[OF p(1)] by simp
    obtain s2 where s2: "del_rest root ?m ?s = Some s2" "pruned root ?s s2"
      using snoc.IH[OF cut(1) p(1)] m(1) unfolding wm by blast
    obtain h where h: "kfree ?n (rheap s2) = Some h" "pruned root s (s2\<lparr>rheap := h\<rparr>)"
      using cut_and_free[OF wf p(1) m(1) p(2) refl snoc.prems(3) True s2(2)] by blast
    then have "del_rest root ?n s = Some (s2\<lparr>rheap := h\<rparr>)"
      using True par(1,2) up s2(1) by (simp add: del_rest_def)
    then show ?thesis using h(2) by blast
  qed
qed

lemma del_links:
  assumes wf: "radix_wf root s"
  shows "\<exists>s'. radix_tree_del root number s = Some s' \<and> radix_wf root s' \<and> keeps root s s' \<and>
    (\<forall>ds. octal ds \<longrightarrow> link_at (rnodes s') root ds = (if ds = path number then 0 else link_at (rnodes s) root ds))"
proof -
  let ?n = "walk (rnodes s) root (path number)"
  note ok = radix_wfD(2)[OF wf] and pb = path_bound[of number]
  obtain k where k: "radix_tree_numlen number = Some (word_of_nat (3 * k))" "path number = digits k number" "k \<le> 11" by (rule path_digits)
  have f: "radix_del_from (rnodes s) (word_of_nat (3 * k)) 0 number root = Some ?n"
    using del_from_walk[of 0 k "rnodes s" number root] k(2,3) by simp
  have nr: "?n \<noteq> root" if "?n \<noteq> 0" using walk_inj[OF ok pb(1), of "[]"] pb(2) that by auto
  show ?thesis
  proof (cases "?n = 0 \<or> rlink (rnodes s ?n) = 0")
    case True
    then have "radix_tree_del root number s = Some s" using k(1) f by (auto simp: radix_tree_del_def simp del: of_nat_mult)
    then show ?thesis using wf True keeps_refl by (auto simp: link_at_def Let_def)
  next
    case False
    let ?s = "s\<lparr>rnodes := set_link ?n 0 (rnodes s)\<rparr>"
    have w: "radix_wf root ?s" using wf by (simp add: radix_wf_def)
    obtain s' where s': "del_rest root ?n ?s = Some s'" "pruned root ?s s'"
      using del_rest_ok[OF w pb(1)] False by auto
    have "radix_tree_del root number s = del_radix_node root ?n 0 ?s"
      using k(1) f False nr by (simp add: radix_tree_del_def set_link_def del: of_nat_mult)
    then have "radix_tree_del root number s = Some s'" using del_at_target False s'(1) by simp
    moreover have "keeps root s s'" using pruned_keeps[OF s'(2)] by simp
    ultimately show ?thesis using s'(2) link_at_set_link[OF ok pb(1)] False by (simp add: pruned_def)
  qed
qed

subsection \<open>The tree as a table\<close>

definition radix_room :: "u32 \<Rightarrow> u32 \<Rightarrow> radix_sys \<Rightarrow> bool" where
  "radix_room root number s \<longleftrightarrow> requests_adm (add_requests root number s) (rheap s) \<and> served (add_requests root number s) (rheap s)"

interpretation radix: link_table "radix_wf root" "radix_tree_look_up root" "radix_tree_add root" "radix_tree_del root" "radix_room root"
  for root
proof
  fix s v assume wf: "radix_wf root s"
  show "\<exists>l. radix_tree_look_up root v s = Some l" by (simp add: look_up_link)
  show "\<exists>s'. radix_tree_del root v s = Some s' \<and> radix_wf root s' \<and>
      (\<forall>w. radix_tree_look_up root w s' = (if w = v then Some 0 else radix_tree_look_up root w s))"
    using del_links[OF wf, of v] path_inj path_bound(1) unfolding look_up_link by metis
next
  fix s and l v :: u32 assume A: "radix_wf root s" "l = 0 \<or> radix_tree_look_up root v s \<noteq> Some 0"
  obtain k where "radix_tree_numlen v = Some (word_of_nat (3 * k))" by (rule path_digits)
  then show "radix_tree_add root v l s = Some s" using A(2)
    by (auto simp: radix_tree_add_def look_up_link find_node link_at_def Let_def simp del: of_nat_mult)
next
  fix s and l v :: u32 assume A: "radix_wf root s" "l \<noteq> 0" "radix_tree_look_up root v s = Some 0" "radix_room root v s"
  have "link_at (rnodes s) root (path v) = 0" using A(3) by (simp add: look_up_link)
  then show "\<exists>s'. radix_tree_add root v l s = Some s' \<and> radix_wf root s' \<and>
      (\<forall>w. radix_tree_look_up root w s' = (if w = v then Some l else radix_tree_look_up root w s))"
    using add_absent[OF A(1,2), of v] A(4) path_inj path_bound(1) unfolding look_up_link radix_room_def by metis
qed

subsection \<open>Properties\<close>

text \<open>C38: \<^verbatim>\<open>radix_tree_add\<close> and every branch of it. When the requests it makes to the heap are admissible, it
  returns with the tree well formed; a null link, a number that is present and an allocation that fails on the way
  down leave every look-up as it was, and otherwise the number is found with the link and every other look-up is as
  it was.\<close>

theorem radix_tree_add_outcome:
  assumes "radix_wf root s" and "requests_adm (add_requests root number s) (rheap s)"
  shows "\<exists>s'. radix_tree_add root number link s = Some s' \<and> radix_wf root s' \<and>
    (\<forall>w. radix_tree_look_up root w s' =
       (if w = number \<and> link \<noteq> 0 \<and> radix_tree_look_up root number s = Some 0 \<and> served (add_requests root number s) (rheap s)
        then Some link else radix_tree_look_up root w s))"
proof (cases "link = 0 \<or> radix_tree_look_up root number s \<noteq> Some 0")
  case True
  then show ?thesis using radix.enter_null[OF assms(1), of link number] assms(1) by auto
next
  case False
  then have l: "link \<noteq> 0" "link_at (rnodes s) root (path number) = 0" by (simp_all add: look_up_link)
  obtain s' where s': "radix_tree_add root number link s = Some s'" "radix_wf root s'"
      "if served (add_requests root number s) (rheap s)
       then (\<forall>ds. octal ds \<longrightarrow> link_at (rnodes s') root ds = (if ds = path number then link else link_at (rnodes s) root ds))
       else same_links root s s'"
    using add_absent[OF assms(1) l assms(2)] by blast
  have "link_at (rnodes s') root (path w) =
      (if w = number \<and> served (add_requests root number s) (rheap s) then link else link_at (rnodes s) root (path w))" for w
    using s'(3) path_bound(1)[of w] path_inj[of w number] by (auto split: if_splits)
  then show ?thesis using s'(1,2) l by (simp add: look_up_link)
qed

text \<open>C39: the radix tree refines a function from numbers to links. Any sequence of \<^verbatim>\<open>radix_tree_add\<close> and
  \<^verbatim>\<open>radix_tree_del\<close> for which the heap has room returns, keeps the tree and its heap well formed, and leaves
  the look-ups that the same sequence leaves of the reference function.\<close>

theorem radix_tree_refines:
  assumes "radix_wf root s"
    and "rooms (radix_tree_look_up root) (radix_tree_add root) (radix_tree_del root) (radix_room root) os s"
  shows "\<exists>s'. apply_ops (radix_tree_add root) (radix_tree_del root) os s = Some s' \<and> radix_wf root s' \<and>
    (\<forall>v. radix_tree_look_up root v s' = Some (fold ref_step os (\<lambda>v. the (radix_tree_look_up root v s)) v))"
  by (rule radix.ops_refine[OF assms]) (simp add: look_up_link)

subsection \<open>Witnesses\<close>

definition empty_tree :: radix_sys where
  "empty_tree = \<lparr>rnodes = (\<lambda>_. \<lparr>rparent = 0, branches = (\<lambda>_. 0), rlink = 0\<rparr>), rdepth = (\<lambda>_. 0), rheap = heap_with block0\<rparr>"

lemma empty_wf: "radix_wf 0x10 empty_tree"
proof -
  have "unat (0x10 :: u32) \<notin> sys_zone (heap_with block0)"
    by (auto simp: sys_zone_def heap_with_def demo_pool_def pool_arena_def demo_info_def block0_def nth_Cons split: nat.splits)
  moreover have "walk (rnodes empty_tree) 0x10 ds = 0" if "ds \<noteq> []" for ds using that by (cases ds) (simp_all add: empty_tree_def)
  ultimately show ?thesis using heap0_wf by (simp add: radix_wf_def tree_ok_def) (simp add: empty_tree_def)
qed

lemma empty_look: "radix_tree_look_up 0x10 v empty_tree = Some 0"
  using path_bound(2)[of v] by (cases "path v") (simp_all add: look_up_link link_at_def empty_tree_def)

lemma hash_index_node: "hash_index_down 72 13 = Some 6" "hash_index_down 4024 13 = Some 11"
  by code_simp+

text \<open>The first pool of the model heap after a request of 40 bytes.\<close>

definition block_40 :: mem_info where
  "block_40 = block0\<lparr>mblk := (mblk block0)(8192 := (mblk block0 8192)\<lparr>blk_remain := 4024\<rparr>), mlink := one_entry 11 8192\<rparr>"

lemma block_40: "alloc_spare_memory block0 40 = Some (block_40, 8224)"
  by (simp add: block_40_def block0_def alloc_spare_memory_def mem_eval demo_info_def memory_block_attach_def class_eval
      hash_index_values hash_index_node link_eval one_entry_def fun_eq_iff memory_block_get_avaliable_def get_avaliable_in_def
      get_avaliable_up.simps memory_block_detach_def)

lemma path_3: "path 3 = [3]"
proof -
  have "radix_tree_numlen 3 = Some 3" by code_simp
  then have "path 3 = digits 1 3" by (simp add: path_def)
  moreover have "get_radix_node_branch 3 = 3" by code_simp
  ultimately show ?thesis by simp
qed

lemma empty_room: "radix_room 0x10 3 empty_tree"
proof -
  have r: "add_requests 0x10 3 empty_tree = [(40, GFP_KERNEL)]"
    by (simp add: add_requests_def path_3 node_requests_def empty_tree_def)
  have m: "rheap empty_tree = heap_with block0" by (simp add: empty_tree_def)
  have "block_adm block0 40" by (simp add: block_adm_def request_fits_def block0_def search_eval hash_index_node)
  then have "requests_adm [(40, GFP_KERNEL)] (heap_with block0)"
    by (simp add: kmalloc_adm_def heap_with_def demo_pool_def gfp_eval kind_adm_def block0_alloc_fn split: option.splits)
  moreover have "served [(40, GFP_KERNEL)] (heap_with block0)"
    using block_40 by (simp add: kmalloc_def heap_with_def demo_pool_def gfp_eval spin_is_locked_def spin_lock_irqsave_def spin_lock_def
        spin_unlock_irqrestore_def spin_unlock_def atomic_simps preempt_simps mrt_disable_cpu_irq_def mrt_enable_cpu_irq_def
        CPSR_BIT_I_def Let_def info_alloc_def isValid_iff block0_alloc_fn)
  ultimately show ?thesis unfolding radix_room_def r m ..
qed

theorem radix_tree_add_outcome_witness:
  "\<exists>s'. radix_tree_add 0x10 3 0x40 empty_tree = Some s' \<and> radix_tree_look_up 0x10 3 s' = Some 0x40 \<and> radix_tree_look_up 0x10 11 s' = Some 0"
  using radix_tree_add_outcome[OF empty_wf, of 3 "0x40"] empty_room empty_look unfolding radix_room_def by auto

theorem radix_tree_refines_witness:
  "\<exists>s'. apply_ops (radix_tree_add 0x10) (radix_tree_del 0x10) [Enter 3 0x40, Enter 3 0x50, Remove 5] empty_tree = Some s' \<and>
     radix_tree_look_up 0x10 3 s' = Some 0x40"
proof -
  obtain s1 where s1: "radix_tree_add 0x10 3 0x40 empty_tree = Some s1" "radix_wf 0x10 s1" "radix_tree_look_up 0x10 3 s1 = Some 0x40"
    using radix.enter_new[OF empty_wf _ empty_look empty_room, of "0x40"] by auto
  have s2: "radix_tree_add 0x10 3 0x50 s1 = Some s1" using radix.enter_null[OF s1(2), of "0x50" 3] s1(3) by simp
  have "rooms (radix_tree_look_up 0x10) (radix_tree_add 0x10) (radix_tree_del 0x10) (radix_room 0x10)
      [Enter 3 0x40, Enter 3 0x50, Remove 5] empty_tree"
    using s1 s2 empty_room by (simp split: option.splits)
  then show ?thesis using radix_tree_refines[OF empty_wf] empty_look by fastforce
qed

end
