(* ===== verification/Socket.thy ===== *)
theory Socket
  imports Io_Stream Radix_Tree
begin

text \<open>
  The socket descriptors of \<^verbatim>\<open>platform/net/fwk_socket.c\<close>: a descriptor is a number taken from a bit map, and the
  object behind it is found through a radix tree. The map is under a mutex, the tree under a spin lock, and the
  objects and the nodes of the tree share the kernel heap. The operations of the network stack behind an interface
  are a parameter of closing.
\<close>

subsection \<open>State and operations\<close>

definition NET_SOCKETS_NUM :: u32 where "NET_SOCKETS_NUM = 2048 - 1"

definition NETWORK_SOCKETS_BASE :: int where "NETWORK_SOCKETS_BASE = 32 + 128"

text \<open>The fields that opening and closing use; the address and the private data of the network stack are left out, but
  count for the size and the place of the radix link.\<close>

record network_object =
  so_domain :: int
  so_type :: int
  so_protocol :: int
  sprt_if :: u32

definition sizeof_network_object :: u32 where "sizeof_network_object = 40"

text \<open>The distance of the radix link from the start of the object.\<close>

definition radix_offset :: u32 where "radix_offset = 36"

record sock_sys =
  g_allocated_sockets :: bitmap
  sock_tree :: radix_sys
  sgrt_socket_mutex :: srt_mutex_lock
  tree_lock :: srt_spin_lock
  sobjs :: "u32 \<Rightarrow> network_object"

definition tree_cpu :: "cpu \<Rightarrow> radix_sys \<Rightarrow> radix_sys" where
  "tree_cpu c t = t\<lparr>rheap := (rheap t)\<lparr>mcpu := c\<rparr>\<rparr>"

text \<open>A change of the map under the mutex, and one of the tree under its spin lock.\<close>

definition with_mutex :: "bool \<Rightarrow> (bitmap \<Rightarrow> bitmap option) \<Rightarrow> sock_sys \<Rightarrow> sock_sys option" where
  "with_mutex cur f s = do {
     l \<leftarrow> mutex_lock cur (sgrt_socket_mutex s);
     bm \<leftarrow> f (g_allocated_sockets s);
     Some (s\<lparr>g_allocated_sockets := bm, sgrt_socket_mutex := mutex_unlock cur l\<rparr>)
   }"

definition with_tree_lock :: "(radix_sys \<Rightarrow> radix_sys option) \<Rightarrow> sock_sys \<Rightarrow> sock_sys option" where
  "with_tree_lock f s = do {
     (c, l) \<leftarrow> spin_lock (mcpu (rheap (sock_tree s))) (tree_lock s);
     t \<leftarrow> f (tree_cpu c (sock_tree s));
     let (c, l) = spin_unlock (mcpu (rheap t)) l;
     Some (s\<lparr>sock_tree := tree_cpu c t, tree_lock := l\<rparr>)
   }"

definition network_socket :: "bool \<Rightarrow> u32 \<Rightarrow> int \<Rightarrow> int \<Rightarrow> int \<Rightarrow> sock_sys \<Rightarrow> (sock_sys \<times> int) option" where
  "network_socket cur root domain type protocol s = do {
     l \<leftarrow> mutex_lock cur (sgrt_socket_mutex s);
     index \<leftarrow> bitmap_find_first_zero_bit (g_allocated_sockets s) 0 NET_SOCKETS_NUM;
     if index < 0 then Some (s\<lparr>sgrt_socket_mutex := mutex_unlock cur l\<rparr>, - ER_FULL)
     else do {
       bm \<leftarrow> bitmap_set_nr_bit_valid (g_allocated_sockets s) (word_of_int index) NET_SOCKETS_NUM 1;
       let s = s\<lparr>g_allocated_sockets := bm, sgrt_socket_mutex := mutex_unlock cur l\<rparr>;
       (m, obj) \<leftarrow> kzalloc sizeof_network_object GFP_KERNEL (rheap (sock_tree s));
       let s = s\<lparr>sock_tree := (sock_tree s)\<lparr>rheap := m\<rparr>\<rparr>;
       if \<not> isValid obj then do {
         s \<leftarrow> with_mutex cur (\<lambda>bm. bitmap_set_nr_bit_zero bm (word_of_int index) NET_SOCKETS_NUM 1) s;
         Some (s, PTR_ERR obj)
       }
       else do {
         let s = s\<lparr>sobjs := (sobjs s)(obj := \<lparr>so_domain = domain, so_type = type, so_protocol = protocol, sprt_if = 0\<rparr>)\<rparr>;
         s \<leftarrow> with_tree_lock (radix_tree_add root (word_of_int index) (obj + radix_offset)) s;
         Some (s, index + NETWORK_SOCKETS_BASE)
       }
     }
   }"

definition mrt_socket_to_object :: "u32 \<Rightarrow> u32 \<Rightarrow> sock_sys \<Rightarrow> u32 option" where
  "mrt_socket_to_object root index s = do {
     link \<leftarrow> radix_tree_look_up root index (sock_tree s);
     Some (if link \<noteq> 0 then link - radix_offset else 0)
   }"

text \<open>\<open>exit_op\<close> gives the exit operation of an interface, where its driver has one.\<close>

definition network_close :: "(u32 \<Rightarrow> (u32 \<Rightarrow> sock_sys \<Rightarrow> sock_sys option) option) \<Rightarrow> bool \<Rightarrow> u32 \<Rightarrow> int \<Rightarrow> sock_sys \<Rightarrow> sock_sys option" where
  "network_close exit_op cur root sockfd s =
     (let index = sockfd - NETWORK_SOCKETS_BASE in
      if index < 0 \<or> index \<ge> uint NET_SOCKETS_NUM then Some s
      else do {
        obj \<leftarrow> mrt_socket_to_object root (word_of_int index) s;
        if obj = 0 then Some s
        else do {
          s \<leftarrow> (if sprt_if (sobjs s obj) \<noteq> 0
                then (case exit_op (sprt_if (sobjs s obj)) of Some f \<Rightarrow> f obj s | None \<Rightarrow> Some s) else Some s);
          s \<leftarrow> with_tree_lock (radix_tree_del root (word_of_int index)) s;
          s \<leftarrow> with_mutex cur (\<lambda>bm. bitmap_set_nr_bit_zero bm (word_of_int index) NET_SOCKETS_NUM 1) s;
          m \<leftarrow> kfree obj (rheap (sock_tree s));
          Some (s\<lparr>sock_tree := (sock_tree s)\<lparr>rheap := m\<rparr>\<rparr>)
        }
      })"

definition network_accept :: "int \<Rightarrow> int" where
  "network_accept sockfd =
     (let index = sockfd - NETWORK_SOCKETS_BASE in if index < 0 \<or> index \<ge> uint NET_SOCKETS_NUM then - ER_UNVALID else 0)"

definition net_socket :: "bool \<Rightarrow> u32 \<Rightarrow> int \<Rightarrow> int \<Rightarrow> int \<Rightarrow> sock_sys \<Rightarrow> (sock_sys \<times> int) option" where
  "net_socket = network_socket"

subsection \<open>Locks around the map and the tree\<close>

definition locks_free :: "sock_sys \<Rightarrow> bool" where
  "locks_free s \<longleftrightarrow> \<not> mutex_is_locked (sgrt_socket_mutex s) \<and> \<not> spin_is_locked (tree_lock s)"

lemma mutex_cycle:
  assumes "\<not> mutex_is_locked l"
  shows "\<exists>k. mutex_lock cur l = Some k \<and> mutex_unlock cur k = l"
  using assms by (cases "mutex_atc l") (auto simp: mutex_lock_def mutex_unlock_def mutex_is_locked_def atomic_simps)

lemma with_mutex_runs:
  assumes "locks_free s" and "f (g_allocated_sockets s) = Some bm"
  shows "with_mutex cur f s = Some (s\<lparr>g_allocated_sockets := bm\<rparr>)"
  using mutex_cycle[of "sgrt_socket_mutex s" cur] assms by (auto simp: with_mutex_def locks_free_def)

lemma with_tree_lock_runs:
  assumes "locks_free s" and "g_sched_preempt_cnt (mcpu (rheap (sock_tree s))) \<noteq> - 1"
    and "f (tree_cpu (mrt_preempt_disable (mcpu (rheap (sock_tree s)))) (sock_tree s)) = Some t"
    and "mcpu (rheap t) = mrt_preempt_disable (mcpu (rheap (sock_tree s)))"
  shows "with_tree_lock f s = Some (s\<lparr>sock_tree := tree_cpu (mcpu (rheap (sock_tree s))) t\<rparr>)"
proof -
  let ?c = "mcpu (rheap (sock_tree s))" and ?l = "tree_lock s"
  have "\<exists>k. spin_lock ?c ?l = Some (mrt_preempt_disable ?c, k) \<and> spin_unlock (mrt_preempt_disable ?c) k = (?c, ?l)"
    using assms(1,2) by (cases "sgrt_atc ?l", cases ?c)
      (auto simp: locks_free_def spin_lock_def spin_unlock_def spin_is_locked_def atomic_simps preempt_simps eq_neg_iff_add_eq_0)
  then show ?thesis using assms(3,4) by (auto simp: with_tree_lock_def)
qed

subsection \<open>The tree under another preemption count\<close>

lemma tree_cpu_sel [simp]: "rnodes (tree_cpu c t) = rnodes t" "mcpu (rheap (tree_cpu c t)) = c" "sys_live (rheap (tree_cpu c t)) = sys_live (rheap t)"
  "sys_zone (rheap (tree_cpu c t)) = sys_zone (rheap t)"
  by (simp_all add: tree_cpu_def sys_live_def sys_zone_def)

lemma tree_cpu_views [simp]: "radix_tree_look_up root v (tree_cpu c t) = radix_tree_look_up root v t"
  "off_tree root (tree_cpu c t) o1 k = off_tree root t o1 k" "add_requests root v (tree_cpu c t) = add_requests root v t"
  by (simp_all add: look_up_link off_tree_def add_requests_def)

lemma tree_cpu_wf: "g_sched_preempt_cnt c \<noteq> - 1 \<Longrightarrow> radix_wf root t \<Longrightarrow> radix_wf root (tree_cpu c t)"
proof -
  assume c: "g_sched_preempt_cnt c \<noteq> - 1" and wf: "radix_wf root t"
  have "sys_wf (rheap (tree_cpu c t))" using radix_wfD(1)[OF wf] c by (simp add: sys_wf_def tree_cpu_def)
  then show ?thesis using wf by (simp add: radix_wf_def)
qed

text \<open>A heap with one more region.\<close>

lemma new_region:
  assumes wf: "radix_wf root t" and m: "sys_wf m" "sys_zone m = sys_zone (rheap t)" "sys_live m = insert (unat q, k) (sys_live (rheap t))"
    and q: "q \<noteq> 0" "unat q \<in> sys_zone (rheap t)" "\<forall>x\<in>sys_live (rheap t). fst x \<noteq> unat q"
  shows "radix_wf root (t\<lparr>rheap := m\<rparr>)" and "off_tree root (t\<lparr>rheap := m\<rparr>) q k"
    and "off_tree root t o1 l \<Longrightarrow> off_tree root (t\<lparr>rheap := m\<rparr>) o1 l \<and> o1 \<noteq> q"
proof -
  show "radix_wf root (t\<lparr>rheap := m\<rparr>)" using wf m by (auto simp: radix_wf_def)
  show "off_tree root (t\<lparr>rheap := m\<rparr>) q k" using fresh_unreached[OF wf q] q(1) m(3) by (simp add: off_tree_def)
  show "off_tree root t o1 l \<Longrightarrow> off_tree root (t\<lparr>rheap := m\<rparr>) o1 l \<and> o1 \<noteq> q" using q(3) m(3) by (auto simp: off_tree_def)
qed

subsection \<open>Well-formed descriptor tables\<close>

text \<open>Every link of the tree is that of an object in a heap region of its own, and its number is marked unless
  it is the last one.\<close>

definition table_ok :: "u32 \<Rightarrow> (u32 \<Rightarrow> bool) \<Rightarrow> radix_sys \<Rightarrow> bool" where
  "table_ok root marks t \<longleftrightarrow>
     (\<forall>v l. radix_tree_look_up root v t = Some l \<longrightarrow> l \<noteq> 0 \<longrightarrow>
        v < 2047 \<and> (v < 2046 \<longrightarrow> marks v) \<and> (\<exists>k. off_tree root t (l - radix_offset) k) \<and>
        (\<forall>w. radix_tree_look_up root w t = Some l \<longrightarrow> w = v))"

definition sock_wf :: "u32 \<Rightarrow> sock_sys \<Rightarrow> bool" where
  "sock_wf root s \<longleftrightarrow> radix_wf root (sock_tree s) \<and> locks_free s \<and>
     g_sched_preempt_cnt (mrt_preempt_disable (mcpu (rheap (sock_tree s)))) \<noteq> - 1 \<and>
     table_ok root (taken (g_allocated_sockets s)) (sock_tree s)"

lemma table_okD:
  assumes "table_ok root marks t" and "radix_tree_look_up root v t = Some l" and "l \<noteq> 0"
  shows "v < 2047" and "v < 2046 \<Longrightarrow> marks v" and "\<exists>k. off_tree root t (l - radix_offset) k"
    and "radix_tree_look_up root w t = Some l \<Longrightarrow> w = v"
  using assms unfolding table_ok_def by blast+

lemma table_enter:
  assumes ok: "table_ok root marks t" and i: "i < 2046" and old: "\<And>o1 l. off_tree root t o1 l \<Longrightarrow> off_tree root t2 o1 l \<and> o1 \<noteq> q"
    and q: "off_tree root t2 q k"
    and look: "\<And>v. radix_tree_look_up root v t2 = (if v = i \<and> sv then Some (q + radix_offset) else radix_tree_look_up root v t)"
  shows "table_ok root (\<lambda>j. marks j \<or> j = i) t2"
  unfolding table_ok_def
proof (intro allI impI)
  fix v l assume vl: "radix_tree_look_up root v t2 = Some l" "l \<noteq> 0"
  have old_l: "l \<noteq> q + radix_offset" if w: "radix_tree_look_up root w t = Some l" for w
  proof
    assume e: "l = q + radix_offset"
    obtain k where "off_tree root t (l - radix_offset) k" using table_okD(3)[OF ok w vl(2)] by blast
    then have "l - radix_offset \<noteq> q" using old by blast
    then show False using e by simp
  qed
  show "v < 2047 \<and> (v < 2046 \<longrightarrow> marks v \<or> v = i) \<and> (\<exists>k. off_tree root t2 (l - radix_offset) k) \<and>
      (\<forall>w. radix_tree_look_up root w t2 = Some l \<longrightarrow> w = v)"
  proof (cases "v = i \<and> sv")
    case True
    then have l: "l = q + radix_offset" using vl(1) look by simp
    have "w = v" if "radix_tree_look_up root w t2 = Some l" for w
      using that look[of w] old_l[of w] l True by (auto split: if_splits)
    moreover have "i < 2047" using i by (simp add: word_less_nat_alt)
    ultimately show ?thesis using True q l by auto
  next
    case False
    then have v: "radix_tree_look_up root v t = Some l" using vl(1) look[of v] by auto
    note d = table_okD[OF ok v vl(2)]
    have "w = v" if "radix_tree_look_up root w t2 = Some l" for w
      using that look[of w] old_l[OF v] d(4)[of w] by (auto split: if_splits)
    moreover have "\<exists>k. off_tree root t2 (l - radix_offset) k" using d(3) old by blast
    ultimately show ?thesis using d(1,2) by blast
  qed
qed

lemma table_remove:
  assumes ok: "table_ok root marks t" and i: "radix_tree_look_up root i t = Some l" "l \<noteq> 0"
    and old: "\<And>o1 k. off_tree root t o1 k \<Longrightarrow> o1 \<noteq> l - radix_offset \<Longrightarrow> off_tree root t2 o1 k"
    and look: "\<And>v. radix_tree_look_up root v t2 = (if v = i then Some 0 else radix_tree_look_up root v t)"
    and marks: "\<And>v. v \<noteq> i \<Longrightarrow> marks v \<Longrightarrow> marks2 v"
  shows "table_ok root marks2 t2"
  unfolding table_ok_def
proof (intro allI impI)
  fix v k assume vk: "radix_tree_look_up root v t2 = Some k" "k \<noteq> 0"
  then have v: "v \<noteq> i" "radix_tree_look_up root v t = Some k" using look[of v] by (auto split: if_splits)
  note d = table_okD[OF ok v(2) vk(2)]
  have "k \<noteq> l" using table_okD(4)[OF ok i, of v] v by auto
  then have "\<exists>n. off_tree root t2 (k - radix_offset) n" using d(3) old by (metis diff_add_cancel)
  moreover have "w = v" if "radix_tree_look_up root w t2 = Some k" for w
    using that look[of w] d(4)[of w] vk(2) by (auto split: if_splits)
  ultimately show "v < 2047 \<and> (v < 2046 \<longrightarrow> marks2 v) \<and> (\<exists>n. off_tree root t2 (k - radix_offset) n) \<and>
      (\<forall>w. radix_tree_look_up root w t2 = Some k \<longrightarrow> w = v)"
    using d(1,2) v(1) marks by blast
qed

subsection \<open>Opening\<close>

lemma sock_wfD:
  assumes "sock_wf root s"
  shows "radix_wf root (sock_tree s)" and "locks_free s" and "table_ok root (taken (g_allocated_sockets s)) (sock_tree s)"
    and "g_sched_preempt_cnt (mrt_preempt_disable (mcpu (rheap (sock_tree s)))) \<noteq> - 1"
    and "g_sched_preempt_cnt (mcpu (rheap (sock_tree s))) \<noteq> - 1"
  using assms radix_wfD(1)[of root "sock_tree s"] by (auto simp: sock_wf_def sys_wf_def)

lemma num_nat: "unat NET_SOCKETS_NUM = 2047"
  by (simp add: NET_SOCKETS_NUM_def)

lemma first_clear:
  assumes "i < NET_SOCKETS_NUM" and "\<not> taken bm i" and "\<forall>j<i. taken bm j"
  shows "bitmap_find_first_zero_bit bm 0 NET_SOCKETS_NUM = Some (int (unat i))"
proof (rule find_first_cases[of NET_SOCKETS_NUM bm 0 False])
  fix j assume A: "bitmap_find_first_bit bm 0 NET_SOCKETS_NUM False = Some (int (unat j))" "taken bm j = False"
    "\<forall>k. 0 \<le> k \<longrightarrow> k < j \<longrightarrow> taken bm k \<noteq> False"
  have "j = i" using A(2,3) assms(2,3) by (metis linorder_neqE word_zero_le)
  then show ?thesis using A(1) by (simp add: bitmap_find_first_zero_bit_def)
qed (use assms in \<open>auto simp: num_nat\<close>)

text \<open>The steps of \<^verbatim>\<open>network_socket\<close> after a number was found.\<close>

lemma mark_number:
  assumes "i < 2046"
  shows "\<exists>bm'. bitmap_set_nr_bit_valid bm i NET_SOCKETS_NUM 1 = Some bm' \<and> (\<forall>j. taken bm' j = (taken bm j \<or> j = i))"
    and "\<exists>bm'. bitmap_set_nr_bit_zero bm i NET_SOCKETS_NUM 1 = Some bm' \<and> (\<forall>j. taken bm' j = (taken bm j \<and> j \<noteq> i))"
proof -
  have "unat i + unat (1 :: u32) < unat NET_SOCKETS_NUM" using assms by (simp add: num_nat word_less_nat_alt)
  then show "\<exists>bm'. bitmap_set_nr_bit_valid bm i NET_SOCKETS_NUM 1 = Some bm' \<and> (\<forall>j. taken bm' j = (taken bm j \<or> j = i))"
    "\<exists>bm'. bitmap_set_nr_bit_zero bm i NET_SOCKETS_NUM 1 = Some bm' \<and> (\<forall>j. taken bm' j = (taken bm j \<and> j \<noteq> i))"
    using set_nr_taken[of i 1 NET_SOCKETS_NUM bm True] set_nr_taken[of i 1 NET_SOCKETS_NUM bm False]
    by (fastforce simp: bitmap_set_nr_bit_valid_def bitmap_set_nr_bit_zero_def u32_eq_iff)+
qed

lemma mark_last: "bitmap_set_nr_bit_valid bm 2046 NET_SOCKETS_NUM 1 = Some bm" "bitmap_set_nr_bit_zero bm 2046 NET_SOCKETS_NUM 1 = Some bm"
  using set_nr_refused[of NET_SOCKETS_NUM 2046 1 bm] by (simp_all add: num_nat bitmap_set_nr_bit_valid_def bitmap_set_nr_bit_zero_def)

definition new_object :: "int \<Rightarrow> int \<Rightarrow> int \<Rightarrow> network_object" where
  "new_object domain type protocol = \<lparr>so_domain = domain, so_type = type, so_protocol = protocol, sprt_if = 0\<rparr>"

text \<open>The heap as the insertion into the tree finds it, inside the spin lock.\<close>

definition locked_heap :: "mempool_sys \<Rightarrow> mempool_sys" where
  "locked_heap m = m\<lparr>mcpu := mrt_preempt_disable (mcpu m)\<rparr>"

lemma socket_no_memory:
  assumes wf: "sock_wf root s" and i: "i < NET_SOCKETS_NUM" "\<not> taken (g_allocated_sockets s) i" "\<forall>j<i. taken (g_allocated_sockets s) j"
    and bm: "bitmap_set_nr_bit_valid (g_allocated_sockets s) i NET_SOCKETS_NUM 1 = Some bm"
      "bitmap_set_nr_bit_zero bm i NET_SOCKETS_NUM 1 = Some bm2"
    and m: "kzalloc sizeof_network_object GFP_KERNEL (rheap (sock_tree s)) = Some (rheap (sock_tree s), 0)"
  shows "network_socket cur root domain type protocol s = Some (s\<lparr>g_allocated_sockets := bm2\<rparr>, - ER_NOMEM)"
proof -
  have lf: "locks_free (s\<lparr>g_allocated_sockets := bm\<rparr>)" using sock_wfD(2)[OF wf] by (simp add: locks_free_def)
  obtain l where l: "mutex_lock cur (sgrt_socket_mutex s) = Some l" "mutex_unlock cur l = sgrt_socket_mutex s"
    using mutex_cycle[of "sgrt_socket_mutex s" cur] sock_wfD(2)[OF wf] by (auto simp: locks_free_def)
  have z: "with_mutex cur (\<lambda>bm. bitmap_set_nr_bit_zero bm i NET_SOCKETS_NUM 1) (s\<lparr>g_allocated_sockets := bm\<rparr>) =
      Some (s\<lparr>g_allocated_sockets := bm2\<rparr>)"
    using with_mutex_runs[OF lf] bm(2) by simp
  show ?thesis using l first_clear[OF i] bm(1) m z
    by (simp add: network_socket_def isValid_iff PTR_ERR_def)
qed

lemma socket_with_object:
  assumes wf: "sock_wf root s" and i: "i < NET_SOCKETS_NUM" "\<not> taken (g_allocated_sockets s) i" "\<forall>j<i. taken (g_allocated_sockets s) j"
    and bm: "bitmap_set_nr_bit_valid (g_allocated_sockets s) i NET_SOCKETS_NUM 1 = Some bm"
    and m: "kzalloc sizeof_network_object GFP_KERNEL (rheap (sock_tree s)) = Some (m, obj)" "isValid obj" "mcpu m = mcpu (rheap (sock_tree s))"
    and t: "radix_tree_add root i (obj + radix_offset) ((sock_tree s)\<lparr>rheap := locked_heap m\<rparr>) = Some t"
      "mcpu (rheap t) = mcpu (locked_heap m)"
  shows "network_socket cur root domain type protocol s =
    Some (s\<lparr>g_allocated_sockets := bm, sock_tree := tree_cpu (mcpu m) t, sobjs := (sobjs s)(obj := new_object domain type protocol)\<rparr>,
          int (unat i) + NETWORK_SOCKETS_BASE)"
proof -
  let ?s = "s\<lparr>g_allocated_sockets := bm, sock_tree := (sock_tree s)\<lparr>rheap := m\<rparr>,
      sobjs := (sobjs s)(obj := new_object domain type protocol)\<rparr>"
  have lf: "locks_free ?s" using sock_wfD(2)[OF wf] by (simp add: locks_free_def)
  obtain l where l: "mutex_lock cur (sgrt_socket_mutex s) = Some l" "mutex_unlock cur l = sgrt_socket_mutex s"
    using mutex_cycle[of "sgrt_socket_mutex s" cur] sock_wfD(2)[OF wf] by (auto simp: locks_free_def)
  have "with_tree_lock (radix_tree_add root i (obj + radix_offset)) ?s = Some (?s\<lparr>sock_tree := tree_cpu (mcpu m) t\<rparr>)"
    using with_tree_lock_runs[OF lf, of "radix_tree_add root i (obj + radix_offset)" t] sock_wfD(5)[OF wf] t m(3)
    by (simp add: tree_cpu_def locked_heap_def)
  then show ?thesis using l first_clear[OF i] bm m(1,2)
    by (simp add: network_socket_def new_object_def)
qed

text \<open>What a new object and its entry leave of the table.\<close>

lemma enter_object:
  assumes wf: "sock_wf root s" and q: "kmalloc sizeof_network_object (GFP_KERNEL OR NR_KMEM_ZERO) (rheap (sock_tree s)) = Some (m, q)" "q \<noteq> 0"
    and adm: "kmalloc_adm (GFP_KERNEL OR NR_KMEM_ZERO) (rheap (sock_tree s)) sizeof_network_object"
    and rq: "requests_adm (add_requests root i (sock_tree s)) (locked_heap m)" and i: "radix_tree_look_up root i (sock_tree s) = Some 0"
  obtains t k where "isValid q" and "mcpu m = mcpu (rheap (sock_tree s))" and "q + radix_offset \<noteq> 0"
    and "radix_tree_add root i (q + radix_offset) ((sock_tree s)\<lparr>rheap := locked_heap m\<rparr>) = Some t" and "mcpu (rheap t) = mcpu (locked_heap m)"
    and "radix_wf root t" and "off_tree root t q k" and "\<And>o1 l. off_tree root (sock_tree s) o1 l \<Longrightarrow> off_tree root t o1 l \<and> o1 \<noteq> q"
    and "\<And>v. radix_tree_look_up root v t = (if v = i \<and> served (add_requests root i (sock_tree s)) (locked_heap m)
        then Some (q + radix_offset) else radix_tree_look_up root v (sock_tree s))"
proof -
  let ?t = "sock_tree s" and ?t1 = "(sock_tree s)\<lparr>rheap := locked_heap m\<rparr>"
  note rw = sock_wfD(1)[OF wf]
  obtain m' q' where mq': "kmalloc sizeof_network_object (GFP_KERNEL OR NR_KMEM_ZERO) (rheap ?t) = Some (m', q')" "mcpu m' = mcpu (rheap ?t)"
      "sys_wf m'" "sys_zone m' = sys_zone (rheap ?t)"
      "q' \<noteq> 0 \<longrightarrow> isValid q' \<and> unat q' \<in> sys_zone (rheap ?t) \<and> (\<exists>k\<ge>unat sizeof_network_object.
         sys_live m' = insert (unat q', k) (sys_live (rheap ?t)) \<and> (\<forall>x\<in>sys_live (rheap ?t). fst x \<noteq> unat q'))"
    using kmalloc_request[OF radix_wfD(1)[OF rw] adm] by blast
  then have e: "m' = m" "q' = q" using q(1) by auto
  obtain k where k: "isValid q" "unat q \<in> sys_zone (rheap ?t)" "40 \<le> k" "sys_live m = insert (unat q, k) (sys_live (rheap ?t))"
      "\<forall>x\<in>sys_live (rheap ?t). fst x \<noteq> unat q"
    using mq'(5) q(2) unfolding e by (auto simp: sizeof_network_object_def)
  note m = mq'(2,3,4)[unfolded e]
  note new = new_region[OF rw m(2,3) k(4) q(2) k(2,5)]
  have t1: "?t1 = tree_cpu (mcpu (locked_heap m)) (?t\<lparr>rheap := m\<rparr>)" by (simp add: tree_cpu_def locked_heap_def)
  have wf1: "radix_wf root ?t1" unfolding t1 using sock_wfD(4)[OF wf] m(1) new(1) by (intro tree_cpu_wf) (simp_all add: locked_heap_def)
  have look1: "radix_tree_look_up root v ?t1 = radix_tree_look_up root v ?t" for v by (simp add: look_up_link)
  have req1: "add_requests root i ?t1 = add_requests root i ?t" by (simp add: add_requests_def)
  have "(unat q, k) \<in> sys_live m" using k(4) by simp
  then have "unat q + k < 4294963200" by (rule live_zone(2)[OF m(2)])
  then have nz: "q + radix_offset \<noteq> 0" using k(3) u32_add[of q 36] by (auto simp: radix_offset_def u32_eq_iff)
  obtain t where t: "radix_tree_add root i (q + radix_offset) ?t1 = Some t" "radix_wf root t" "keeps root ?t1 t"
      "if served (add_requests root i ?t1) (rheap ?t1)
       then (\<forall>ds. octal ds \<longrightarrow> link_at (rnodes t) root ds = (if ds = path i then q + radix_offset else link_at (rnodes ?t1) root ds))
       else same_links root ?t1 t"
    using add_absent[OF wf1 nz, of i] i look1 rq req1 by (auto simp: look_up_link)
  have "radix_tree_look_up root v t = (if v = i \<and> served (add_requests root i ?t) (locked_heap m)
      then Some (q + radix_offset) else radix_tree_look_up root v ?t)" for v
    using t(4) path_bound(1)[of v] path_inj[of v i] unfolding look_up_link req1 by (auto split: if_splits)
  moreover have off: "off_tree root t o1 l" if "off_tree root (?t\<lparr>rheap := m\<rparr>) o1 l" for o1 l
    using t(3) that unfolding keeps_def t1 by simp
  ultimately show thesis using that[OF k(1) m(1) nz t(1) _ t(2) off[OF new(2)]] new(3) off t(3) by (auto simp: keeps_def)
qed

lemma object_link:
  assumes "table_ok root marks t" and "sock_tree s = t"
  shows "mrt_socket_to_object root v s = Some o1 \<Longrightarrow> o1 \<noteq> 0 \<Longrightarrow> radix_tree_look_up root v t = Some (o1 + radix_offset) \<and> o1 + radix_offset \<noteq> 0"
    and "radix_tree_look_up root v t = Some l \<Longrightarrow> l \<noteq> 0 \<Longrightarrow> l - radix_offset \<noteq> 0"
proof -
  show "mrt_socket_to_object root v s = Some o1 \<Longrightarrow> o1 \<noteq> 0 \<Longrightarrow> radix_tree_look_up root v t = Some (o1 + radix_offset) \<and> o1 + radix_offset \<noteq> 0"
    using assms(2) by (auto simp: mrt_socket_to_object_def look_up_link split: if_splits)
  show "radix_tree_look_up root v t = Some l \<Longrightarrow> l \<noteq> 0 \<Longrightarrow> l - radix_offset \<noteq> 0"
    using table_okD(3)[OF assms(1)] by (auto simp: off_tree_def)
qed

lemma object_views:
  assumes "\<And>v. radix_tree_look_up root v (sock_tree s') = (if v = i \<and> b then Some l else radix_tree_look_up root v (sock_tree s))"
  shows "mrt_socket_to_object root v s' = (if v = i \<and> b then Some (if l \<noteq> 0 then l - radix_offset else 0) else mrt_socket_to_object root v s)"
  using assms by (simp add: mrt_socket_to_object_def)

lemma socket_opened:
  assumes wf: "sock_wf root s" and i: "i < 2046" "\<not> taken (g_allocated_sockets s) i" "\<forall>j<i. taken (g_allocated_sockets s) j"
    and adm: "kmalloc_adm (GFP_KERNEL OR NR_KMEM_ZERO) (rheap (sock_tree s)) sizeof_network_object"
    and m: "kzalloc sizeof_network_object GFP_KERNEL (rheap (sock_tree s)) = Some (m, obj)" "obj \<noteq> 0"
    and rq: "requests_adm (add_requests root i (sock_tree s)) (locked_heap m)"
  obtains s' where "network_socket cur root domain type protocol s = Some (s', int (unat i) + NETWORK_SOCKETS_BASE)" and "sock_wf root s'"
    and "\<forall>j. taken (g_allocated_sockets s') j = (taken (g_allocated_sockets s) j \<or> j = i)" and "\<forall>v. mrt_socket_to_object root v s \<noteq> Some obj"
    and "sobjs s' = (sobjs s)(obj := new_object domain type protocol)"
    and "\<forall>v. mrt_socket_to_object root v s' = (if v = i \<and> served (add_requests root i (sock_tree s)) (locked_heap m)
      then Some obj else mrt_socket_to_object root v s)"
    and "mrt_socket_to_object root i s = Some 0"
proof -
  note ok = sock_wfD(3)[OF wf]
  let ?sv = "served (add_requests root i (sock_tree s)) (locked_heap m)"
  have iN: "i < NET_SOCKETS_NUM" using i(1) by (simp add: NET_SOCKETS_NUM_def word_less_nat_alt)
  obtain bm where bm: "bitmap_set_nr_bit_valid (g_allocated_sockets s) i NET_SOCKETS_NUM 1 = Some bm"
      "\<forall>j. taken bm j = (taken (g_allocated_sockets s) j \<or> j = i)"
    using mark_number(1)[OF i(1)] by blast
  have mk: "taken bm = (\<lambda>j. taken (g_allocated_sockets s) j \<or> j = i)" using bm(2) by (intro ext) blast
  have none: "radix_tree_look_up root i (sock_tree s) = Some 0"
    using table_okD(2)[OF ok _ _ i(1)] i(2) by (cases "link_at (rnodes (sock_tree s)) root (path i) = 0") (auto simp: look_up_link)
  obtain t k where t: "isValid obj" "mcpu m = mcpu (rheap (sock_tree s))" "obj + radix_offset \<noteq> 0"
      "radix_tree_add root i (obj + radix_offset) ((sock_tree s)\<lparr>rheap := locked_heap m\<rparr>) = Some t" "mcpu (rheap t) = mcpu (locked_heap m)"
      "radix_wf root t" "off_tree root t obj k" "\<And>o1 l. off_tree root (sock_tree s) o1 l \<Longrightarrow> off_tree root t o1 l \<and> o1 \<noteq> obj"
      "\<And>v. radix_tree_look_up root v t = (if v = i \<and> ?sv then Some (obj + radix_offset) else radix_tree_look_up root v (sock_tree s))"
    using enter_object[OF wf m(1)[unfolded kzalloc_def] m(2) adm rq none] by blast
  let ?s = "s\<lparr>g_allocated_sockets := bm, sock_tree := tree_cpu (mcpu m) t, sobjs := (sobjs s)(obj := new_object domain type protocol)\<rparr>"
  have r: "network_socket cur root domain type protocol s = Some (?s, int (unat i) + NETWORK_SOCKETS_BASE)"
    by (rule socket_with_object[OF wf iN i(2,3) bm(1) m(1) t(1,2,4,5)])
  have "table_ok root (taken bm) (tree_cpu (mcpu m) t)" unfolding mk
    using table_enter[OF ok i(1), of "tree_cpu (mcpu m) t" obj k ?sv] t(7,8,9) by simp
  moreover have "radix_wf root (tree_cpu (mcpu m) t)" using t(2,6) sock_wfD(5)[OF wf] by (intro tree_cpu_wf) simp_all
  ultimately have wf': "sock_wf root ?s" using wf t(2) by (simp add: sock_wf_def locks_free_def)
  have new: "mrt_socket_to_object root v s \<noteq> Some obj" for v
    using object_link(1)[OF ok refl, of v obj] table_okD(3)[OF ok, of v "obj + radix_offset"] t(8) m(2) by auto
  have "mrt_socket_to_object root v ?s = (if v = i \<and> ?sv then Some obj else mrt_socket_to_object root v s)" for v
    using object_views[of root ?s i ?sv "obj + radix_offset" s v] t(3,9) by simp
  then show thesis using that[OF r wf'] bm(2) new none by (simp add: mrt_socket_to_object_def)
qed

subsection \<open>Closing\<close>

lemma leave_tree:
  assumes wf: "sock_wf root s"
  obtains t where "with_tree_lock (radix_tree_del root i) s = Some (s\<lparr>sock_tree := t\<rparr>)" and "radix_wf root t"
    and "mcpu (rheap t) = mcpu (rheap (sock_tree s))" and "\<And>o1 k. off_tree root (sock_tree s) o1 k \<Longrightarrow> off_tree root t o1 k"
    and "\<And>v. radix_tree_look_up root v t = (if v = i then Some 0 else radix_tree_look_up root v (sock_tree s))"
proof -
  let ?t = "sock_tree s" and ?c = "mcpu (rheap (sock_tree s))"
  let ?t1 = "tree_cpu (mrt_preempt_disable ?c) ?t"
  have wf1: "radix_wf root ?t1" using sock_wfD(1,4)[OF wf] by (intro tree_cpu_wf)
  obtain t where t: "radix_tree_del root i ?t1 = Some t" "radix_wf root t" "keeps root ?t1 t"
      "\<forall>ds. octal ds \<longrightarrow> link_at (rnodes t) root ds = (if ds = path i then 0 else link_at (rnodes ?t1) root ds)"
    using del_links[OF wf1] by blast
  have "radix_tree_look_up root v t = (if v = i then Some 0 else radix_tree_look_up root v ?t)" for v
    using t(4) path_bound(1)[of v] path_inj[of v i] unfolding look_up_link by auto
  moreover have "off_tree root (tree_cpu ?c t) o1 n" if "off_tree root ?t o1 n" for o1 n
    using t(3) that unfolding keeps_def by simp
  moreover have "with_tree_lock (radix_tree_del root i) s = Some (s\<lparr>sock_tree := tree_cpu ?c t\<rparr>)"
    using with_tree_lock_runs[of s "radix_tree_del root i" t] sock_wfD(2,5)[OF wf] t(1,3) by (simp add: keeps_def)
  ultimately show thesis using that tree_cpu_wf[OF sock_wfD(5)[OF wf] t(2)] by simp
qed

text \<open>\<^verbatim>\<open>network_close\<close> on an object that no exit operation takes care of.\<close>

lemma close_runs:
  assumes wf: "sock_wf root s" and o1: "mrt_socket_to_object root i s = Some obj" "obj \<noteq> 0" "i < 2047"
    and ex: "sprt_if (sobjs s obj) = 0 \<or> exit_op (sprt_if (sobjs s obj)) = None"
    and t: "with_tree_lock (radix_tree_del root i) s = Some (s\<lparr>sock_tree := t\<rparr>)"
    and bm: "bitmap_set_nr_bit_zero (g_allocated_sockets s) i NET_SOCKETS_NUM 1 = Some bm" and m: "kfree obj (rheap t) = Some m"
  shows "network_close exit_op cur root (int (unat i) + NETWORK_SOCKETS_BASE) s =
    Some (s\<lparr>sock_tree := t\<lparr>rheap := m\<rparr>, g_allocated_sockets := bm\<rparr>)"
proof -
  let ?s1 = "s\<lparr>sock_tree := t\<rparr>"
  have "with_mutex cur (\<lambda>bm. bitmap_set_nr_bit_zero bm i NET_SOCKETS_NUM 1) ?s1 = Some (?s1\<lparr>g_allocated_sockets := bm\<rparr>)"
    using with_mutex_runs[of ?s1] sock_wfD(2)[OF wf] bm by (simp add: locks_free_def)
  moreover have "uint i < uint NET_SOCKETS_NUM" using o1(3) by (simp add: NET_SOCKETS_NUM_def word_less_def)
  ultimately show ?thesis using o1(1,2) ex t m by (auto simp: network_close_def Let_def)
qed

text \<open>The last number is never marked: while it is in use it is handed out again, to a caller whose new object no
  descriptor leads to.\<close>

lemma network_socket_last:
  assumes wf: "sock_wf root s" and i: "\<not> taken (g_allocated_sockets s) 2046" "\<forall>j<2046. taken (g_allocated_sockets s) j"
    and used: "mrt_socket_to_object root 2046 s = Some o1" "o1 \<noteq> 0"
    and m: "kzalloc sizeof_network_object GFP_KERNEL (rheap (sock_tree s)) = Some (m, obj)" "isValid obj" "mcpu m = mcpu (rheap (sock_tree s))"
    and mw: "radix_wf root ((sock_tree s)\<lparr>rheap := m\<rparr>)"
  shows "\<exists>s'. network_socket cur root domain type protocol s = Some (s', 2046 + NETWORK_SOCKETS_BASE) \<and>
    g_allocated_sockets s' = g_allocated_sockets s \<and> (\<forall>v. mrt_socket_to_object root v s' = mrt_socket_to_object root v s)"
proof -
  let ?t = "(sock_tree s)\<lparr>rheap := locked_heap m\<rparr>"
  have "?t = tree_cpu (mcpu (locked_heap m)) ((sock_tree s)\<lparr>rheap := m\<rparr>)" by (simp add: tree_cpu_def locked_heap_def)
  then have wf1: "radix_wf root ?t" using tree_cpu_wf[OF _ mw] sock_wfD(4)[OF wf] m(3) by (simp add: locked_heap_def)
  have "radix_tree_look_up root 2046 ?t \<noteq> Some 0"
    using object_link(1)[OF sock_wfD(3)[OF wf] refl used] by (auto simp: look_up_link)
  then have "radix_tree_add root 2046 (obj + radix_offset) ?t = Some ?t"
    using radix.enter_null[OF wf1, of "obj + radix_offset" 2046] by blast
  moreover have "mcpu (rheap ?t) = mcpu (locked_heap m)" by simp
  moreover have "2046 < NET_SOCKETS_NUM" by (simp add: NET_SOCKETS_NUM_def word_less_nat_alt)
  ultimately have "network_socket cur root domain type protocol s =
      Some (s\<lparr>g_allocated_sockets := g_allocated_sockets s, sock_tree := tree_cpu (mcpu m) ?t,
        sobjs := (sobjs s)(obj := new_object domain type protocol)\<rparr>, int (unat (2046 :: u32)) + NETWORK_SOCKETS_BASE)"
    using socket_with_object[OF wf _ i mark_last(1) m] by blast
  moreover have "radix_tree_look_up root v (tree_cpu (mcpu m) ?t) = radix_tree_look_up root v (sock_tree s)" for v
    by (simp add: look_up_link)
  ultimately show ?thesis by (simp add: mrt_socket_to_object_def)
qed

subsection \<open>Properties\<close>

text \<open>C40: opening a socket in a well-formed table while a number below the last is free, with admissible requests to the
  heap for the object and for the nodes of the tree. Without memory the answer is \<^verbatim>\<open>-ER_NOMEM\<close> and no
  descriptor has changed. Otherwise the answer is the least free number over the base, that number and no other
  becomes marked, the object is new and holds the arguments, every other descriptor keeps its object, and the new
  descriptor leads to the object exactly when the heap served the nodes of the tree as well.\<close>

theorem network_socket_outcome:
  assumes wf: "sock_wf root s" and i: "i < 2046" "\<not> taken (g_allocated_sockets s) i" "\<forall>j<i. taken (g_allocated_sockets s) j"
    and adm: "kmalloc_adm (GFP_KERNEL OR NR_KMEM_ZERO) (rheap (sock_tree s)) sizeof_network_object"
    and m: "kzalloc sizeof_network_object GFP_KERNEL (rheap (sock_tree s)) = Some (m, obj)"
    and rq: "requests_adm (add_requests root i (sock_tree s)) (locked_heap m)"
  shows "\<exists>s' r. network_socket cur root domain type protocol s = Some (s', r) \<and> sock_wf root s' \<and>
    (if obj = 0
     then r = - ER_NOMEM \<and> (\<forall>j. taken (g_allocated_sockets s') j = taken (g_allocated_sockets s) j) \<and>
          (\<forall>v. mrt_socket_to_object root v s' = mrt_socket_to_object root v s) \<and> sobjs s' = sobjs s
     else r = int (unat i) + NETWORK_SOCKETS_BASE \<and>
          (\<forall>j. taken (g_allocated_sockets s') j = (taken (g_allocated_sockets s) j \<or> j = i)) \<and>
          (\<forall>v. mrt_socket_to_object root v s \<noteq> Some obj) \<and> sobjs s' = (sobjs s)(obj := new_object domain type protocol) \<and>
          (\<forall>v. v \<noteq> i \<longrightarrow> mrt_socket_to_object root v s' = mrt_socket_to_object root v s) \<and>
          mrt_socket_to_object root i s' = Some (if served (add_requests root i (sock_tree s)) (locked_heap m) then obj else 0))"
proof (cases "obj = 0")
  case True
  have iN: "i < NET_SOCKETS_NUM" using i(1) by (simp add: NET_SOCKETS_NUM_def word_less_nat_alt)
  obtain bm where bm: "bitmap_set_nr_bit_valid (g_allocated_sockets s) i NET_SOCKETS_NUM 1 = Some bm"
      "\<forall>j. taken bm j = (taken (g_allocated_sockets s) j \<or> j = i)"
    using mark_number(1)[OF i(1)] by blast
  obtain bm2 where bm2: "bitmap_set_nr_bit_zero bm i NET_SOCKETS_NUM 1 = Some bm2" "\<forall>j. taken bm2 j = (taken bm j \<and> j \<noteq> i)"
    using mark_number(2)[OF i(1)] by blast
  have "m = rheap (sock_tree s)"
    using kmalloc_request[OF radix_wfD(1)[OF sock_wfD(1)[OF wf]] adm] m[unfolded kzalloc_def] True by auto
  then have r: "network_socket cur root domain type protocol s = Some (s\<lparr>g_allocated_sockets := bm2\<rparr>, - ER_NOMEM)"
    using socket_no_memory[OF wf iN i(2,3) bm(1) bm2(1)] m True by simp
  have "taken bm2 = taken (g_allocated_sockets s)" using bm(2) bm2(2) i(2) by (intro ext) auto
  then show ?thesis using r wf True by (simp add: sock_wf_def locks_free_def mrt_socket_to_object_def)
next
  case False
  show ?thesis by (rule socket_opened[OF wf i adm m False rq, of cur domain type protocol]) (use False in auto)
qed

text \<open>Closing an open socket that is bound to no interface with an exit operation. Its descriptor leads to no
  object afterwards and its number is free again, the region of the object goes back to the heap, and every other
  descriptor keeps its mark and its object.\<close>

lemma network_close_releases:
  assumes wf: "sock_wf root s" and o1: "mrt_socket_to_object root i s = Some obj" "obj \<noteq> 0" "i < 2046"
    and ex: "sprt_if (sobjs s obj) = 0 \<or> exit_op (sprt_if (sobjs s obj)) = None"
  shows "\<exists>s' k. network_close exit_op cur root (int (unat i) + NETWORK_SOCKETS_BASE) s = Some s' \<and> sock_wf root s' \<and>
    (\<forall>v. mrt_socket_to_object root v s' = (if v = i then Some 0 else mrt_socket_to_object root v s)) \<and>
    (\<forall>j. taken (g_allocated_sockets s') j = (taken (g_allocated_sockets s) j \<and> j \<noteq> i)) \<and> sobjs s' = sobjs s \<and>
    (unat obj, k) \<in> sys_live (rheap (sock_tree s)) \<and> (unat obj, k) \<notin> sys_live (rheap (sock_tree s'))"
proof -
  note ok = sock_wfD(3)[OF wf]
  have l: "radix_tree_look_up root i (sock_tree s) = Some (obj + radix_offset)" "obj + radix_offset \<noteq> 0"
    using object_link(1)[OF ok refl o1(1,2)] by auto
  obtain k where k: "off_tree root (sock_tree s) obj k" using table_okD(3)[OF ok l] by auto
  obtain t where t: "with_tree_lock (radix_tree_del root i) s = Some (s\<lparr>sock_tree := t\<rparr>)" "radix_wf root t"
      "mcpu (rheap t) = mcpu (rheap (sock_tree s))" "\<And>o1 k. off_tree root (sock_tree s) o1 k \<Longrightarrow> off_tree root t o1 k"
      "\<And>v. radix_tree_look_up root v t = (if v = i then Some 0 else radix_tree_look_up root v (sock_tree s))"
    using leave_tree[OF wf] by blast
  obtain bm where bm: "bitmap_set_nr_bit_zero (g_allocated_sockets s) i NET_SOCKETS_NUM 1 = Some bm"
      "\<forall>j. taken bm j = (taken (g_allocated_sockets s) j \<and> j \<noteq> i)"
    using mark_number(2)[OF o1(3)] by blast
  have kt: "(unat obj, k) \<in> sys_live (rheap t)" "\<forall>ds. octal ds \<longrightarrow> walk (rnodes t) root ds \<noteq> obj"
    using t(4)[OF k] by (simp_all add: off_tree_def)
  obtain m where m: "kfree obj (rheap t) = Some m" "radix_wf root (t\<lparr>rheap := m\<rparr>)" "mcpu m = mcpu (rheap t)"
      "sys_live m = sys_live (rheap t) - {(unat obj, k)}"
    by (rule free_node[OF t(2) o1(2) kt(2,1)])
  let ?s = "s\<lparr>sock_tree := t\<lparr>rheap := m\<rparr>, g_allocated_sockets := bm\<rparr>"
  have "i < 2047" using o1(3) by (simp add: word_less_nat_alt)
  then have r: "network_close exit_op cur root (int (unat i) + NETWORK_SOCKETS_BASE) s = Some ?s"
    using close_runs[of root s i obj exit_op t bm m cur] wf o1(1,2) ex t(1) bm(1) m(1) by blast
  have look: "radix_tree_look_up root v (t\<lparr>rheap := m\<rparr>) = (if v = i then Some 0 else radix_tree_look_up root v (sock_tree s))" for v
    using t(5)[of v] by (simp add: look_up_link)
  have off: "off_tree root (t\<lparr>rheap := m\<rparr>) o2 n" if "off_tree root (sock_tree s) o2 n" "o2 \<noteq> (obj + radix_offset) - radix_offset" for o2 n
    using t(4)[OF that(1)] that(2) m(4) by (auto simp: off_tree_def u32_eq_iff)
  have "table_ok root (taken bm) (t\<lparr>rheap := m\<rparr>)"
    by (rule table_remove[OF ok l off look]) (simp_all add: bm(2))
  then have wf': "sock_wf root ?s" using wf m(2,3) t(3) by (simp add: sock_wf_def locks_free_def)
  have "mrt_socket_to_object root v ?s = (if v = i then Some 0 else mrt_socket_to_object root v s)" for v
    using look[of v] by (simp add: mrt_socket_to_object_def)
  then show ?thesis using r wf' bm(2) m(4) k by (intro exI[of _ ?s] exI[of _ k]) (simp add: off_tree_def)
qed

subsection \<open>Witnesses\<close>

definition sock0 :: sock_sys where
  "sock0 = \<lparr>g_allocated_sockets = (\<lambda>_. 0), sock_tree = empty_tree, sgrt_socket_mutex = \<lparr>mutex_atc = \<lparr>counter = 0\<rparr>\<rparr>,
     tree_lock = \<lparr>sgrt_atc = \<lparr>counter = 0\<rparr>, flag = 0\<rparr>, sobjs = (\<lambda>_. new_object 0 0 0)\<rparr>"

lemma sock0_sel: "sock_tree sock0 = empty_tree" "taken (g_allocated_sockets sock0) j = False" "locks_free sock0"
  by (simp_all add: sock0_def taken_def locks_free_def mutex_is_locked_def spin_is_locked_def atomic_simps)

lemma empty_cpu: "mcpu (rheap empty_tree) = \<lparr>g_sched_preempt_cnt = 0, cpsr = 0x13\<rparr>"
  by (simp only: empty_tree_def radix_sys.simps heap_with_def mempool_sys.simps)

lemma sock0_wf: "sock_wf 0x10 sock0"
proof -
  have "table_ok 0x10 marks empty_tree" for marks by (simp add: table_ok_def empty_look)
  moreover have "g_sched_preempt_cnt (mrt_preempt_disable (mcpu (rheap empty_tree))) \<noteq> - 1"
    unfolding empty_cpu by (simp add: preempt_simps atomic_simps)
  ultimately show ?thesis unfolding sock_wf_def sock0_sel using empty_wf sock0_sel(3) by blast
qed

text \<open>The heap after the object of 40 bytes was cleared, as the insertion finds it.\<close>

definition block_obj :: mem_info where
  "block_obj = block_40\<lparr>mblk := kmemzero_blocks (mblk block_40) 8224 40\<rparr>"

lemmas heap_eval = kmalloc_def heap_with_def demo_pool_def gfp_eval spin_is_locked_def spin_lock_irqsave_def spin_lock_def
  spin_unlock_irqrestore_def spin_unlock_def atomic_simps preempt_simps mrt_disable_cpu_irq_def mrt_enable_cpu_irq_def
  CPSR_BIT_I_def Let_def info_alloc_def isValid_iff

lemma kzalloc_obj: "kzalloc 40 GFP_KERNEL (heap_with block0) = Some (heap_with block_obj, 8224)"
  using block_40 by (simp add: kzalloc_def heap_eval block0_alloc_fn block_obj_def)

lemma block_obj_view: "kmemzero_blocks (mblk block_40) 8224 40 8192 = mblk block_40 8192"
  by (simp add: kmemzero_blocks_def)

lemma block_obj_fn: "alloc_fn block_obj = Some BlockMem"
  using block0_alloc_fn by (simp add: block_obj_def block_40_def)

lemma block_obj_adm: "block_adm block_obj 40"
  by (simp add: block_adm_def request_fits_def block_obj_def block_40_def block0_def search_eval hash_index_node kmemzero_blocks_def)

lemma block_obj_serves: "\<exists>p q. alloc_spare_memory block_obj 40 = Some (p, q) \<and> isValid q"
proof -
  have "hash_index_down 3952 13 = Some 11" by code_simp
  then show ?thesis
    by (simp add: block_obj_def block_40_def block0_def alloc_spare_memory_def mem_eval demo_info_def memory_block_attach_def class_eval
      hash_index_values hash_index_node link_eval one_entry_def memory_block_get_avaliable_def get_avaliable_in_def
      get_avaliable_up.simps memory_block_detach_def mem_split_def kmemzero_blocks_def)
qed

lemma path_0: "path 0 = [0]"
proof -
  have "radix_tree_numlen 0 = Some 3" by code_simp
  then have "path 0 = digits 1 0" by (simp add: path_def)
  moreover have "get_radix_node_branch 0 = 0" by code_simp
  ultimately show ?thesis by simp
qed

lemma obj_requests:
  "requests_adm (add_requests 0x10 0 empty_tree) (locked_heap (heap_with block_obj))"
  "served (add_requests 0x10 0 empty_tree) (locked_heap (heap_with block_obj))"
proof -
  have r: "add_requests 0x10 0 empty_tree = [(40, GFP_KERNEL)]"
    by (simp add: add_requests_def path_0 node_requests_def empty_tree_def)
  show "requests_adm (add_requests 0x10 0 empty_tree) (locked_heap (heap_with block_obj))"
    using block_obj_adm unfolding r
    by (simp add: kmalloc_adm_def locked_heap_def heap_with_def demo_pool_def gfp_eval kind_adm_def block_obj_fn split: option.splits)
  obtain p q where "alloc_spare_memory block_obj 40 = Some (p, q)" "isValid q" using block_obj_serves by blast
  then show "served (add_requests 0x10 0 empty_tree) (locked_heap (heap_with block_obj))"
    unfolding r by (auto simp: locked_heap_def heap_eval block_obj_fn)
qed

theorem network_socket_outcome_witness:
  "\<exists>s'. network_socket True 0x10 2 1 0 sock0 = Some (s', 160) \<and> mrt_socket_to_object 0x10 0 s' = Some 8224 \<and>
     taken (g_allocated_sockets s') 0 \<and> sobjs s' 8224 = new_object 2 1 0"
proof -
  have t: "rheap (sock_tree sock0) = heap_with block0" by (simp add: sock0_sel empty_tree_def)
  have "block_adm block0 40" by (simp add: block_adm_def request_fits_def block0_def search_eval hash_index_node)
  then have adm: "kmalloc_adm (GFP_KERNEL OR NR_KMEM_ZERO) (rheap (sock_tree sock0)) sizeof_network_object"
    unfolding t by (simp add: sizeof_network_object_def kmalloc_adm_def heap_with_def demo_pool_def gfp_eval kind_adm_def block0_alloc_fn)
  have m: "kzalloc sizeof_network_object GFP_KERNEL (rheap (sock_tree sock0)) = Some (heap_with block_obj, 8224)"
    unfolding t sizeof_network_object_def by (rule kzalloc_obj)
  show ?thesis
    using network_socket_outcome[OF sock0_wf _ _ _ adm m, of 0 True 2 1 0] obj_requests
    by (auto simp: sock0_sel NETWORK_SOCKETS_BASE_def)
qed

end
