(* ===== verification/Time.thy ===== *)
theory Time
  imports Generic List_Head
begin

text \<open>
  \<^verbatim>\<open>include/common/time.h\<close> and \<^verbatim>\<open>common/generic/time.c\<close>: the tick counter, conversions between ticks
  and units of time (at \<^verbatim>\<open>CONFIG_HZ\<close> = 100, \<^verbatim>\<open>configs/mach_configs.h\<close>), the broken-down clock, the delay
  counter and the global timer list. The entry of a timer is a function pointer: the calls through it
  are a parameter that maps the pointer, its argument and the state to the next state.
\<close>

subsection \<open>Ticks and units\<close>

definition TICK_HZ :: u32 where "TICK_HZ = 100"
definition JIFFIES_INITVAL :: u32 where "JIFFIES_INITVAL = 86400000 - 1"
definition JIFFIES_MAX :: u32 where "JIFFIES_MAX = NOT 0"

record time_spec =
  tv_sec :: u32
  tv_nsec :: u32

definition get_time_counter :: "u32 \<times> u32 \<Rightarrow> u32 \<times> u32" where
  "get_time_counter = (\<lambda>(jiffies, jiffies_out).
     let jiffies = (if jiffies \<ge> JIFFIES_MAX then 0 else jiffies + 1)
     in (jiffies, if jiffies \<noteq> 0 then jiffies_out else jiffies_out + 1))"

definition SYS_RUNTICK :: "u32 \<Rightarrow> u32" where
  "SYS_RUNTICK jiffies =
     (if jiffies \<ge> JIFFIES_INITVAL then jiffies - JIFFIES_INITVAL
      else JIFFIES_MAX - (jiffies - JIFFIES_INITVAL))"

definition jiffies_to_secs :: "u32 \<Rightarrow> u32" where "jiffies_to_secs j = j div TICK_HZ"
definition jiffies_to_msecs :: "u32 \<Rightarrow> u32" where "jiffies_to_msecs j = (j * 1000) div TICK_HZ"
definition jiffies_to_usecs :: "u32 \<Rightarrow> u32" where "jiffies_to_usecs j = (j * 1000 * 1000) div TICK_HZ"
definition jiffies_to_nsecs :: "u32 \<Rightarrow> u64" where
  "jiffies_to_nsecs j = ucast ((j * 1000 * 1000 * 1000) div TICK_HZ)"

definition secs_to_jiffies :: "u32 \<Rightarrow> u32" where "secs_to_jiffies s = s * TICK_HZ"
definition msecs_to_jiffies :: "u32 \<Rightarrow> u32" where
  "msecs_to_jiffies m = (if m \<noteq> 0 then (m * TICK_HZ) div 1000 + 1 else 0)"
definition usecs_to_jiffies :: "u32 \<Rightarrow> u32" where
  "usecs_to_jiffies u = (if u \<noteq> 0 then (u * TICK_HZ) div 1000 div 1000 + 1 else 0)"
definition nsecs_to_jiffies :: "u64 \<Rightarrow> u32" where
  "nsecs_to_jiffies n = ucast (if n \<noteq> 0 then (n * ucast TICK_HZ) div 1000 div 1000 div 1000 + 1 else 0)"

definition time_spec_to_msecs :: "time_spec \<Rightarrow> u32" where
  "time_spec_to_msecs tm = tv_sec tm * 1000 + tv_nsec tm div 1000 div 1000"

definition msecs_to_time_spec :: "u32 \<Rightarrow> time_spec" where
  "msecs_to_time_spec m =
     (let sec = m div 1000 in \<lparr>tv_sec = sec, tv_nsec = (m - sec * 1000) * 1000 * 1000\<rparr>)"

definition mrt_time_after :: "u32 \<Rightarrow> u32 \<Rightarrow> bool" where "mrt_time_after a b \<longleftrightarrow> a > b"
definition mrt_time_before :: "u32 \<Rightarrow> u32 \<Rightarrow> bool" where "mrt_time_before a b \<longleftrightarrow> mrt_time_after b a"

subsection \<open>Delays\<close>

text \<open>
  The busy loops as the number of steps they take. The waits poll the tick counter, which an
  interrupt advances: \<open>jf k\<close> is the value the \<open>k\<close>-th poll reads, and the result is the number
  of the poll that ends the wait.
\<close>

record delay_timer =
  g_simple_delay_timer :: u32
  g_simple_timeout_cnt :: u32
  g_delay_timer_counter :: u32

definition TIMER_DELAY_COUNTER_MAX :: u32 where "TIMER_DELAY_COUNTER_MAX = 0x00ffffff"

definition mrt_bit_mask :: "u32 \<Rightarrow> u32 \<Rightarrow> nat \<Rightarrow> u32" where
  "mrt_bit_mask val msk nr = push_bit nr val AND msk"

definition simple_delay_timer_initial :: "delay_timer \<Rightarrow> delay_timer" where
  "simple_delay_timer_initial d =
     d\<lparr>g_simple_delay_timer := 0, g_simple_timeout_cnt := 0, g_delay_timer_counter := 0\<rparr>"

definition simple_delay_timer_runs :: "delay_timer \<Rightarrow> delay_timer" where
  "simple_delay_timer_runs d =
     (let old = g_simple_delay_timer d;
          d = d\<lparr>g_simple_delay_timer := old + 1\<rparr>;
          d = (if old \<ge> TIMER_DELAY_COUNTER_MAX then
                 d\<lparr>g_simple_delay_timer := 0,
                   g_simple_timeout_cnt :=
                     (if g_simple_timeout_cnt d \<ge> 255 then 0 else g_simple_timeout_cnt d + 1)\<rparr>
               else d)
      in d\<lparr>g_delay_timer_counter :=
             mrt_bit_mask (g_simple_timeout_cnt d) (NOT TIMER_DELAY_COUNTER_MAX) 24 + g_simple_delay_timer d\<rparr>)"

partial_function (option) delay_cnt :: "u32 \<Rightarrow> nat \<Rightarrow> nat option" where
  "delay_cnt n steps = (if n \<noteq> 0 then delay_cnt (n - 1) (steps + 1) else Some steps)"

partial_function (option) delay_loop :: "u32 \<Rightarrow> u32 \<Rightarrow> nat \<Rightarrow> nat option" where
  "delay_loop per n steps =
     (if n \<noteq> 0 then do { steps \<leftarrow> delay_cnt per steps; delay_loop per (n - 1) steps } else Some steps)"

definition delay_s :: "u32 \<Rightarrow> nat option" where "delay_s n_s = delay_loop (0x7ff * 1000) n_s 0"
definition delay_ms :: "u32 \<Rightarrow> nat option" where "delay_ms n_ms = delay_loop 0x7ff n_ms 0"
definition delay_us :: "u32 \<Rightarrow> nat option" where "delay_us n_us = delay_loop (0x7ff div 1000) n_us 0"

partial_function (option) wait_until :: "(nat \<Rightarrow> u32) \<Rightarrow> u32 \<Rightarrow> nat \<Rightarrow> nat option" where
  "wait_until jf count k = (if mrt_time_before (jf k) count then wait_until jf count (k + 1) else Some k)"

definition wait_secs :: "(nat \<Rightarrow> u32) \<Rightarrow> u32 \<Rightarrow> nat option" where
  "wait_secs jf seconds = wait_until jf (jf 0 + secs_to_jiffies seconds) 1"

definition wait_msecs :: "(nat \<Rightarrow> u32) \<Rightarrow> u32 \<Rightarrow> nat option" where
  "wait_msecs jf milseconds = wait_until jf (jf 0 + msecs_to_jiffies milseconds) 1"

definition wait_usecs :: "(nat \<Rightarrow> u32) \<Rightarrow> u32 \<Rightarrow> nat option" where
  "wait_usecs jf useconds = wait_until jf (jf 0 + usecs_to_jiffies useconds) 1"

subsection \<open>The broken-down clock\<close>

record time_clock =
  year :: u32
  month :: u8
  day :: u8
  weak :: u8
  hour :: u8
  minute :: u8
  second :: u8
  milsecond :: u16

definition msecs_to_timeclock :: "time_clock \<Rightarrow> u32 \<Rightarrow> time_clock option" where
  "msecs_to_timeclock c milseconds = do {
     r \<leftarrow> udiv_remainder milseconds 1000; let c = c\<lparr>milsecond := ucast r\<rparr>;
     temp \<leftarrow> udiv_integer milseconds 1000;
     r \<leftarrow> udiv_remainder temp 60; let c = c\<lparr>second := ucast r\<rparr>;
     temp \<leftarrow> udiv_integer temp 60;
     r \<leftarrow> udiv_remainder temp 60; let c = c\<lparr>minute := ucast r\<rparr>;
     temp \<leftarrow> udiv_integer temp 60;
     r \<leftarrow> udiv_remainder temp 60; let c = c\<lparr>hour := ucast r\<rparr>;
     temp \<leftarrow> udiv_integer temp 60;
     r \<leftarrow> udiv_remainder temp 24; let c = c\<lparr>day := ucast r\<rparr>;
     temp \<leftarrow> udiv_integer temp 24;
     r \<leftarrow> udiv_remainder temp 30; let c = c\<lparr>month := ucast r\<rparr>;
     temp \<leftarrow> udiv_integer temp 30;
     r \<leftarrow> udiv_remainder temp 12;
     Some (c\<lparr>year := r\<rparr>)
   }"

subsection \<open>Timers\<close>

record timer_list =
  texpires :: u32
  tentry :: u32
  tdata :: u32

datatype tlink = TimerHead | TimerLink u32

fun link_timer :: "tlink \<Rightarrow> u32" where
  "link_timer (TimerLink p) = p"
| "link_timer TimerHead = 0"

record timer_sys =
  tlinks :: "tlink lheap"
  timers :: "u32 \<Rightarrow> timer_list"
  jiffies :: u32

definition setup_timer :: "u32 \<Rightarrow> u32 \<Rightarrow> u32 \<Rightarrow> 'z timer_sys_scheme \<Rightarrow> 'z timer_sys_scheme" where
  "setup_timer t entry data s =
     (if \<not> isValid t then s
      else s\<lparr>tlinks := init_list_head (tlinks s) (TimerLink t),
             timers := (timers s)(t := (timers s t)\<lparr>tentry := entry, tdata := data\<rparr>)\<rparr>)"

definition add_timer :: "u32 \<Rightarrow> 'z timer_sys_scheme \<Rightarrow> 'z timer_sys_scheme" where
  "add_timer t s =
     (if \<not> isValid t \<or> texpires (timers s t) = 0 then s
      else s\<lparr>tlinks := list_head_add_tail (tlinks s) TimerHead (TimerLink t)\<rparr>)"

definition del_timer :: "u32 \<Rightarrow> 'z timer_sys_scheme \<Rightarrow> 'z timer_sys_scheme option" where
  "del_timer t s =
     (if \<not> isValid t then Some s
      else do { h \<leftarrow> list_head_del_safe (tlinks s) TimerHead (TimerLink t); Some (s\<lparr>tlinks := h\<rparr>) })"

definition find_timer :: "u32 \<Rightarrow> 'z timer_sys_scheme \<Rightarrow> bool option" where
  "find_timer t s = do {
     r \<leftarrow> foreach_list_next_entry (tlinks s) TimerHead (\<lambda>l. l = TimerLink t);
     Some (r \<noteq> None)
   }"

definition mod_timer :: "u32 \<Rightarrow> u32 \<Rightarrow> 'z timer_sys_scheme \<Rightarrow> 'z timer_sys_scheme" where
  "mod_timer t expires s =
     (if \<not> isValid t then s
      else let s = s\<lparr>timers := (timers s)(t := (timers s t)\<lparr>texpires := expires\<rparr>)\<rparr>
           in if mrt_list_head_empty (tlinks s) (TimerLink t) then add_timer t s else s)"

text \<open>
  One visit of \<^verbatim>\<open>do_timer_event\<close>, and its loop: the next link is read after the entry has run, so
  an entry may change the list under the loop.
\<close>

definition timer_visit ::
  "(u32 \<Rightarrow> u32 \<Rightarrow> 'z timer_sys_scheme \<Rightarrow> 'z timer_sys_scheme option) \<Rightarrow> u32 \<Rightarrow>
   'z timer_sys_scheme \<Rightarrow> 'z timer_sys_scheme option" where
  "timer_visit call t s =
     (let tm = timers s t in
      if texpires tm = 0 then Some s
      else if mrt_time_after (jiffies s) (texpires tm) \<and> tentry tm \<noteq> 0 then call (tentry tm) (tdata tm) s
      else Some s)"

partial_function (option) do_timer_from ::
  "(u32 \<Rightarrow> u32 \<Rightarrow> 'z timer_sys_scheme \<Rightarrow> 'z timer_sys_scheme option) \<Rightarrow> tlink \<Rightarrow>
   'z timer_sys_scheme \<Rightarrow> 'z timer_sys_scheme option" where
  "do_timer_from call pos s =
     (if pos = TimerHead then Some s
      else do {
        s \<leftarrow> timer_visit call (link_timer pos) s;
        do_timer_from call (sprt_next (tlinks s pos)) s
      })"

definition do_timer_event ::
  "(u32 \<Rightarrow> u32 \<Rightarrow> 'z timer_sys_scheme \<Rightarrow> 'z timer_sys_scheme option) \<Rightarrow>
   'z timer_sys_scheme \<Rightarrow> 'z timer_sys_scheme option" where
  "do_timer_event call s = do_timer_from call (sprt_next (tlinks s TimerHead)) s"

subsection \<open>Conversions\<close>

lemma time_spec_msecs: "time_spec_to_msecs (msecs_to_time_spec m) = m"
proof -
  define r where "r = m - m div 1000 * 1000"
  have le: "unat m div 1000 * 1000 \<le> unat m" by simp
  have mul: "unat (m div 1000 * 1000) = unat m div 1000 * 1000"
    using u32_less[of m] le by (simp add: unat_word_ariths unat_div)
  have rest: "unat r = unat m mod 1000" by (simp add: r_def minus_div_mult_eq_mod unat_mod)
  have "unat (r * 1000 * 1000) = unat m mod 1000 * 1000000" by (simp add: unat_word_ariths rest)
  then have "unat (r * 1000 * 1000 div 1000 div 1000) = unat m mod 1000" by (simp add: unat_div)
  then have "unat (m div 1000 * 1000 + r * 1000 * 1000 div 1000 div 1000) = unat m"
    using mul u32_less[of m] by (subst u32_add) simp_all
  moreover have "time_spec_to_msecs (msecs_to_time_spec m) = m div 1000 * 1000 + r * 1000 * 1000 div 1000 div 1000"
    by (simp only: time_spec_to_msecs_def msecs_to_time_spec_def Let_def time_spec.simps r_def)
  ultimately show ?thesis by (simp only: u32_eq_iff)
qed

lemma msecs_to_jiffies_unat:
  assumes "m \<noteq> 0" and "unat m < 42949673"
  shows "unat (msecs_to_jiffies m) = unat m div 10 + 1"
proof -
  have "unat (m * 100) = unat m * 100" using assms by (simp add: unat_word_ariths)
  then have "unat (m * 100 div 1000) = unat m div 10" by (simp add: unat_div)
  then show ?thesis using assms by (simp add: msecs_to_jiffies_def TICK_HZ_def u32_add)
qed

lemma msecs_to_jiffies_rounds_up:
  assumes "m \<noteq> 0" and "unat m < 42949673"
  shows "unat m < 10 * unat (msecs_to_jiffies m)" and "10 * unat (msecs_to_jiffies m) \<le> unat m + 10"
  unfolding msecs_to_jiffies_unat[OF assms] by simp_all

lemma msecs_to_jiffies_wraps: "msecs_to_jiffies 42949673 = 1"
  unfolding msecs_to_jiffies_def TICK_HZ_def by code_simp

lemma msecs_to_timeclock_eq:
  "msecs_to_timeclock c m =
     Some (c\<lparr>milsecond := ucast (m mod 1000), second := ucast (m div 1000 mod 60),
             minute := ucast (m div 1000 div 60 mod 60), hour := ucast (m div 1000 div 60 div 60 mod 60),
             day := ucast (m div 1000 div 60 div 60 div 60 mod 24),
             month := ucast (m div 1000 div 60 div 60 div 60 div 24 mod 30),
             year := m div 1000 div 60 div 60 div 60 div 24 div 30 mod 12\<rparr>)"
  by (simp add: msecs_to_timeclock_def udiv_integer_eq udiv_remainder_eq Let_def)

lemma unat_ucast_small:
  assumes "unat (w :: u32) < 2 ^ LENGTH('a)"
  shows "unat (ucast w :: 'a::len word) = unat w"
  using assms by (simp add: unsigned_ucast_eq take_bit_nat_eq_self)

lemma wait_until_reaches:
  assumes "\<exists>k\<ge>j. \<not> jf k < count"
  shows "\<exists>k\<ge>j. wait_until jf count j = Some k \<and> \<not> jf k < count \<and> (\<forall>i. j \<le> i \<and> i < k \<longrightarrow> jf i < count)"
proof -
  obtain k where "k \<ge> j" "\<not> jf k < count" using assms by blast
  then show ?thesis
  proof (induction "k - j" arbitrary: j)
    case 0
    then show ?case by (subst wait_until.simps) (auto simp: mrt_time_before_def mrt_time_after_def)
  next
    case (Suc n)
    show ?case
    proof (cases "jf j < count")
      case True
      have "\<exists>k\<ge>Suc j. wait_until jf count (Suc j) = Some k \<and> \<not> jf k < count \<and>
        (\<forall>i. Suc j \<le> i \<and> i < k \<longrightarrow> jf i < count)"
        using Suc by (intro Suc.hyps(1)) auto
      then obtain k' where k': "k' \<ge> Suc j" "wait_until jf count (Suc j) = Some k'" "\<not> jf k' < count"
        "\<forall>i. Suc j \<le> i \<and> i < k' \<longrightarrow> jf i < count" by blast
      have "\<forall>i. j \<le> i \<and> i < k' \<longrightarrow> jf i < count"
        using k'(4) True by (metis le_eq_less_or_eq Suc_leI)
      then show ?thesis using k' True
        by (subst wait_until.simps) (auto simp: mrt_time_before_def mrt_time_after_def intro!: exI[of _ k'])
    next
      case False
      then show ?thesis by (subst wait_until.simps) (auto simp: mrt_time_before_def mrt_time_after_def)
    qed
  qed
qed

subsection \<open>The timer list\<close>

text \<open>\<open>timer_ring s xs\<close>: the global list holds the timers \<open>xs\<close>, in this order.\<close>

definition timer_ring :: "'z timer_sys_scheme \<Rightarrow> u32 list \<Rightarrow> bool" where
  "timer_ring s xs \<longleftrightarrow> ring (tlinks s) TimerHead (map TimerLink xs)"

fun timer_pass ::
  "(u32 \<Rightarrow> u32 \<Rightarrow> 'z timer_sys_scheme \<Rightarrow> 'z timer_sys_scheme option) \<Rightarrow> u32 list \<Rightarrow>
   'z timer_sys_scheme \<Rightarrow> 'z timer_sys_scheme option" where
  "timer_pass call [] s = Some s"
| "timer_pass call (t # ts) s = do { s \<leftarrow> timer_visit call t s; timer_pass call ts s }"

definition timer_due :: "'z timer_sys_scheme \<Rightarrow> u32 \<Rightarrow> bool" where
  "timer_due s t \<longleftrightarrow> texpires (timers s t) \<noteq> 0 \<and> mrt_time_after (jiffies s) (texpires (timers s t)) \<and>
     tentry (timers s t) \<noteq> 0"

lemma ring_member_linked: "ring h r xs \<Longrightarrow> x \<in> set xs \<Longrightarrow> \<not> mrt_list_head_empty h x"
proof -
  assume *: "ring h r xs" "x \<in> set xs"
  then obtain as bs where "xs = as @ x # bs" by (auto dest: split_list)
  then have "ring h x (bs @ r # as)" using * by (simp add: ring_rotate)
  then show ?thesis by (simp add: ring_empty_iff)
qed

lemma find_equal: "List.find (\<lambda>y. y = x) xs = (if x \<in> set xs then Some x else None)"
  by (induction xs) auto

lemma setup_timer_ring:
  assumes "timer_ring s xs" and "t \<notin> set xs"
  shows "timer_ring (setup_timer t f d s) xs"
    and "isValid t \<Longrightarrow> mrt_list_head_empty (tlinks (setup_timer t f d s)) (TimerLink t)"
  using assms init_list_head_ring[of "tlinks s" "TimerLink t"]
  by (auto simp: timer_ring_def setup_timer_def ring_Nil_iff elim!: ring_frame intro!: init_list_head_other)

lemma mod_timer_unlinked:
  assumes "timer_ring s xs" and "t \<notin> set xs" and "isValid t" and "e \<noteq> 0"
    and "mrt_list_head_empty (tlinks s) (TimerLink t)"
  shows "timer_ring (mod_timer t e s) (xs @ [t])"
  using assms add_tail_ring[of "tlinks s" TimerHead "map TimerLink xs" "TimerLink t"]
  by (auto simp: timer_ring_def mod_timer_def add_timer_def Let_def)

lemma mod_timer_linked:
  assumes "timer_ring s xs" and "t \<in> set xs"
  shows "timer_ring (mod_timer t e s) xs" and "timers (mod_timer t e s) u = (if u = t \<and> isValid t then (timers s t)\<lparr>texpires := e\<rparr> else timers s u)"
  using assms ring_member_linked[of "tlinks s" TimerHead "map TimerLink xs" "TimerLink t"]
  by (auto simp: timer_ring_def mod_timer_def Let_def)

lemma del_timer_ring:
  assumes "timer_ring s xs" and "isValid t"
  shows "\<exists>s'. del_timer t s = Some s' \<and> timer_ring s' (remove1 t xs)"
proof -
  have r: "ring (tlinks s) TimerHead (map TimerLink xs)" using assms(1) by (simp add: timer_ring_def)
  have m: "map TimerLink (remove1 t xs) = remove1 (TimerLink t) (map TimerLink xs)"
    by (induction xs) auto
  show ?thesis
    using list_head_del_safe_ring[OF r, of "TimerLink t"] del_ring[OF r, of "TimerLink t"] assms(2) r
    by (cases "t \<in> set xs") (auto simp: del_timer_def timer_ring_def m remove1_idem)
qed

lemma find_timer_ring: "timer_ring s xs \<Longrightarrow> find_timer t s = Some (t \<in> set xs)"
  by (auto simp: timer_ring_def find_timer_def foreach_list_next_entry_ring find_equal)

lemma timer_visit_keeps:
  assumes "timer_visit call t s = Some s'" and "I s"
    and "\<And>s'. call (tentry (timers s t)) (tdata (timers s t)) s = Some s' \<Longrightarrow> I s'"
  shows "I s'"
  using assms by (auto simp: timer_visit_def Let_def split: if_splits)

lemma do_timer_from_pass:
  assumes "\<forall>s. I s \<longrightarrow> timer_ring s (xs @ ys)"
    and "\<forall>t\<in>set (xs @ ys). \<forall>s s'. I s \<longrightarrow> call (tentry (timers s t)) (tdata (timers s t)) s = Some s' \<longrightarrow> I s'"
    and "I s"
  shows "do_timer_from call (List.hd (map TimerLink ys @ [TimerHead])) s = timer_pass call ys s"
  using assms
proof (induction ys arbitrary: xs s)
  case Nil
  then show ?case by (simp add: do_timer_from.simps)
next
  case (Cons t ys)
  show ?case
  proof (cases "timer_visit call t s")
    case None
    then show ?thesis by (subst do_timer_from.simps) simp
  next
    case (Some s')
    have I': "I s'" using timer_visit_keeps[where I = I, OF Some Cons.prems(3)] Cons.prems(2,3) by auto
    then have "timer_ring s' (xs @ t # ys)" using Cons.prems(1) by blast
    then have "dpath (tlinks s') TimerHead (map TimerLink xs @ TimerLink t # map TimerLink ys) TimerHead"
      by (simp add: timer_ring_def ring_def)
    then have "sprt_next (tlinks s' (TimerLink t)) = List.hd (map TimerLink ys @ [TimerHead])"
      unfolding dpath_append by (blast dest: dpath_first)
    moreover have "do_timer_from call (List.hd (map TimerLink ys @ [TimerHead])) s' = timer_pass call ys s'"
      using Cons.IH[of "xs @ [t]" s'] Cons.prems(1,2) I' by simp
    ultimately show ?thesis using Some by (subst do_timer_from.simps) simp
  qed
qed

text \<open>
  A pass of \<^verbatim>\<open>do_timer_event\<close> over a list that the entries leave as it is (they may re-arm timers)
  visits every timer once, in list order.
\<close>

lemma do_timer_event_pass:
  assumes "\<forall>s. I s \<longrightarrow> timer_ring s xs"
    and "\<forall>t\<in>set xs. \<forall>s s'. I s \<longrightarrow> call (tentry (timers s t)) (tdata (timers s t)) s = Some s' \<longrightarrow> I s'"
    and "I s"
  shows "do_timer_event call s = timer_pass call xs s"
proof -
  have "timer_ring s xs" using assms(1,3) by blast
  then have "sprt_next (tlinks s TimerHead) = List.hd (map TimerLink xs @ [TimerHead])"
    by (auto simp: timer_ring_def ring_def dest: dpath_first)
  then show ?thesis using do_timer_from_pass[of I "[]" xs call s] assms by (simp add: do_timer_event_def)
qed

subsection \<open>Properties\<close>

text \<open>An entry that only notes its calls, in the part of the state behind the timers.\<close>

definition note_call :: "u32 \<Rightarrow> u32 \<Rightarrow> (u32 \<times> u32) list timer_sys_scheme \<Rightarrow> (u32 \<times> u32) list timer_sys_scheme option" where
  "note_call entry data s = Some (timer_sys.more_update (\<lambda>l. l @ [(entry, data)]) s)"

lemma more_update_sel [simp]:
  "tlinks (timer_sys.more_update f s) = tlinks s" "timers (timer_sys.more_update f s) = timers s"
  "jiffies (timer_sys.more_update f s) = jiffies s"
  by (cases s; simp)+

lemma timer_visit_note:
  "timer_visit note_call t s =
     Some (if timer_due s t then timer_sys.more_update (\<lambda>l. l @ [(tentry (timers s t), tdata (timers s t))]) s else s)"
  by (simp add: timer_visit_def note_call_def Let_def timer_due_def)

lemma timer_pass_note:
  "timer_pass note_call xs s =
     Some (timer_sys.more_update (\<lambda>l. l @ map (\<lambda>t. (tentry (timers s t), tdata (timers s t))) (filter (timer_due s) xs)) s)"
proof (induction xs arbitrary: s)
  case Nil
  then show ?case by (cases s) simp
next
  case (Cons t ts)
  have due: "timer_due (timer_sys.more_update f s) = timer_due s" for f by (intro ext) (simp add: timer_due_def)
  have comp: "timer_sys.more_update f (timer_sys.more_update g s) = timer_sys.more_update (\<lambda>l. f (g l)) s" for f g
    by (cases s) simp
  show ?case by (simp add: timer_visit_note Cons due comp)
qed

text \<open>C18: a tick calls the entry of exactly the armed timers that have expired, once each, in the order
  of the list, and passes each its own data.\<close>

theorem timer_event_fires:
  assumes "timer_ring s xs"
  shows "do_timer_event note_call s =
    Some (timer_sys.more_update (\<lambda>l. l @ map (\<lambda>t. (tentry (timers s t), tdata (timers s t))) (filter (timer_due s) xs)) s)"
proof -
  have "do_timer_event note_call s = timer_pass note_call xs s"
    by (rule do_timer_event_pass[where I = "\<lambda>s. timer_ring s xs"])
      (use assms in \<open>auto simp: note_call_def timer_ring_def\<close>)
  then show ?thesis by (simp add: timer_pass_note)
qed

definition demo_timers :: "(u32 \<times> u32) list timer_sys_scheme" where
  "demo_timers =
     \<lparr>tlinks = (\<lambda>l. if l = TimerHead then \<lparr>sprt_prev = TimerLink 0x200, sprt_next = TimerLink 0x100\<rparr>
                    else if l = TimerLink 0x100 then \<lparr>sprt_prev = TimerHead, sprt_next = TimerLink 0x200\<rparr>
                    else if l = TimerLink 0x200 then \<lparr>sprt_prev = TimerLink 0x100, sprt_next = TimerHead\<rparr>
                    else \<lparr>sprt_prev = l, sprt_next = l\<rparr>),
      timers = (\<lambda>t. if t = 0x100 then \<lparr>texpires = 50, tentry = 0x8000, tdata = 7\<rparr>
                    else if t = 0x200 then \<lparr>texpires = 90, tentry = 0x9000, tdata = 8\<rparr>
                    else \<lparr>texpires = 0, tentry = 0, tdata = 0\<rparr>),
      jiffies = 60, \<dots> = []\<rparr>"

lemma demo_timers_ring: "timer_ring demo_timers [0x100, 0x200]"
  by (simp add: timer_ring_def ring_def demo_timers_def)

theorem timer_event_fires_witness:
  "map_option timer_sys.more (do_timer_event note_call demo_timers) = Some [(0x8000, 7)]"
  using timer_event_fires[OF demo_timers_ring]
  by (simp add: demo_timers_def timer_due_def mrt_time_after_def)

text \<open>C19: a timer that is set up and then armed stands at the end of the list; re-arming it leaves the
  list alone, and \<^verbatim>\<open>del_timer\<close> takes it out again.\<close>

theorem timer_lifecycle:
  assumes "timer_ring s xs" and "t \<notin> set xs" and "isValid t" and "e \<noteq> 0"
    and "s1 = mod_timer t e (setup_timer t f d s)"
  shows "timer_ring s1 (xs @ [t]) \<and> timer_ring (mod_timer t e' s1) (xs @ [t]) \<and> find_timer t s1 = Some True \<and>
         (\<exists>s2. del_timer t s1 = Some s2 \<and> timer_ring s2 xs \<and> find_timer t s2 = Some False)"
proof -
  have a: "timer_ring s1 (xs @ [t])"
    unfolding assms(5) using setup_timer_ring[OF assms(1,2)] assms by (intro mod_timer_unlinked) auto
  have b: "timer_ring (mod_timer t e' s1) (xs @ [t])" using mod_timer_linked(1)[OF a] by simp
  have "remove1 t (xs @ [t]) = xs" using assms(2) by (simp add: remove1_append)
  then obtain s2 where "del_timer t s1 = Some s2" "timer_ring s2 xs" using del_timer_ring[OF a assms(3)] by auto
  then show ?thesis using a b assms(2) find_timer_ring[OF a, of t] find_timer_ring[of s2 xs t] by auto
qed

theorem timer_lifecycle_witness:
  "timer_ring (mod_timer 0x300 100 (setup_timer 0x300 0xA000 1 demo_timers)) [0x100, 0x200, 0x300]"
  using timer_lifecycle[OF demo_timers_ring, where t = "0x300" and e = 100 and f = "0xA000" and d = 1, OF _ _ _ refl] by (simp add: isValid_iff)

text \<open>C20: a number of milliseconds survives the way through \<^verbatim>\<open>struct time_spec\<close> and back. As long as
  \<^verbatim>\<open>m * TICK_HZ\<close> does not wrap, \<^verbatim>\<open>msecs_to_jiffies\<close> gives for \<open>m > 0\<close> one tick of 10 milliseconds more than the full
  ticks in \<open>m\<close>, so that the wait is longer than \<open>m\<close> by at most one whole tick (and by exactly one where \<open>m\<close> is a
  multiple of 10); at 42949673 milliseconds the product wraps and one tick is left.\<close>

theorem time_conversions:
  "time_spec_to_msecs (msecs_to_time_spec m) = m \<and>
   (m \<noteq> 0 \<longrightarrow> unat m < 42949673 \<longrightarrow>
      unat (msecs_to_jiffies m) = unat m div 10 + 1 \<and>
      unat m < 10 * unat (msecs_to_jiffies m) \<and> 10 * unat (msecs_to_jiffies m) \<le> unat m + 10) \<and>
   msecs_to_jiffies 0 = 0 \<and> msecs_to_jiffies 42949673 = 1"
  using time_spec_msecs msecs_to_jiffies_unat msecs_to_jiffies_rounds_up msecs_to_jiffies_wraps
  by (simp add: msecs_to_jiffies_def[of 0])

theorem time_conversions_witness:
  "(1234 :: nat) < 10 * unat (msecs_to_jiffies 1234) \<and> 10 * unat (msecs_to_jiffies 1234) \<le> 1244"
  using time_conversions[of 1234] by simp

text \<open>C21: \<^verbatim>\<open>msecs_to_timeclock\<close> returns for every input and its fields determine the input, with an hour
  field that counts to 59 and a day of sixty hours.\<close>

theorem timeclock_fields:
  "\<exists>k. msecs_to_timeclock c m = Some k \<and>
     unat (milsecond k) < 1000 \<and> unat (second k) < 60 \<and> unat (minute k) < 60 \<and> unat (hour k) < 60 \<and>
     unat m = unat (milsecond k) + 1000 * (unat (second k) + 60 * (unat (minute k) +
              60 * (unat (hour k) + 60 * unat (day k))))"
proof -
  let ?h = "m div 1000 div 60 div 60"
  have small: "unat (?h div 60) < 24" using u32_less[of m] by (simp add: unat_div)
  have "unat (m mod 1000) < 1000" "unat (m div 1000 mod 60) < 60" "unat (m div 1000 div 60 mod 60) < 60"
    "unat (?h mod 60) < 60" "unat (?h div 60 mod 24) < 24"
    by (simp_all add: unat_mod)
  then have f: "unat (ucast (m mod 1000) :: u16) = unat m mod 1000"
    "unat (ucast (m div 1000 mod 60) :: u8) = unat m div 1000 mod 60"
    "unat (ucast (m div 1000 div 60 mod 60) :: u8) = unat m div 1000 div 60 mod 60"
    "unat (ucast (?h mod 60) :: u8) = unat m div 1000 div 60 div 60 mod 60"
    "unat (ucast (?h div 60 mod 24) :: u8) = unat m div 1000 div 60 div 60 div 60"
    using small by (simp_all add: unat_ucast_small unat_mod unat_div)
  have split: "unat m = unat m mod 1000 + 1000 * (unat m div 1000 mod 60 + 60 * (unat m div 1000 div 60 mod 60 +
    60 * (unat m div 1000 div 60 div 60 mod 60 + 60 * (unat m div 1000 div 60 div 60 div 60))))"
    by (simp only: mod_mult_div_eq)
  define k where "k = the (msecs_to_timeclock c m)"
  have k: "unat (milsecond k) = unat m mod 1000" "unat (second k) = unat m div 1000 mod 60"
    "unat (minute k) = unat m div 1000 div 60 mod 60" "unat (hour k) = unat m div 1000 div 60 div 60 mod 60"
    "unat (day k) = unat m div 1000 div 60 div 60 div 60"
    by (simp_all add: k_def msecs_to_timeclock_eq f)
  have "unat (milsecond k) < 1000" "unat (second k) < 60" "unat (minute k) < 60" "unat (hour k) < 60"
    by (simp_all add: k)
  moreover have "unat m = unat (milsecond k) + 1000 * (unat (second k) + 60 * (unat (minute k) +
    60 * (unat (hour k) + 60 * unat (day k))))"
    unfolding k by (rule split)
  moreover have "msecs_to_timeclock c m = Some k" by (simp add: k_def msecs_to_timeclock_eq)
  ultimately show ?thesis by blast
qed

text \<open>After one day the clock shows hour 24 of day 0.\<close>

theorem timeclock_after_a_day:
  "map_option (\<lambda>k. (hour k, day k)) (msecs_to_timeclock c 86400000) = Some (24, 0)"
  by (simp add: msecs_to_timeclock_eq)

end
