(* ===== verification/Api_String.thy ===== *)
theory Api_String
  imports Generic
begin

text \<open>
  The string routines of \<^verbatim>\<open>common/generic/api_string.c\<close> on the byte store: length, copies,
  comparisons, reversal, decimal conversion and search. A routine that runs over a string
  without an end is \<open>None\<close>.
\<close>

subsection \<open>Lengths and copies\<close>

function get_integrater_loop :: "u64 \<Rightarrow> u32 \<Rightarrow> u32" where
  "get_integrater_loop num lenth =
     (let num = num div 10; lenth = lenth + 1
      in if num \<noteq> 0 then get_integrater_loop num lenth else lenth)"
  by pat_completeness auto

lemma div10_decreases: "num div 10 \<noteq> 0 \<Longrightarrow> unat (num div 10 :: u64) < unat num"
proof -
  assume "num div 10 \<noteq> 0"
  then have "unat num \<noteq> 0" by (auto simp: unat_eq_zero)
  then show ?thesis by (simp add: unat_div)
qed

termination get_integrater_loop
  using div10_decreases by (relation "measure (\<lambda>(num, _). unat num)") auto

declare get_integrater_loop.simps [simp del]

definition get_integrater_lenth :: "u64 \<Rightarrow> u32" where
  "get_integrater_lenth val = get_integrater_loop val 0"

partial_function (option) strlen_loop :: "bmem \<Rightarrow> u32 \<Rightarrow> u32 option" where
  "strlen_loop m p = (if m p \<noteq> 0 then strlen_loop m (p + 1) else Some (p + 1))"

definition get_string_lenth :: "bmem \<Rightarrow> u32 \<Rightarrow> u32 option" where
  "get_string_lenth m src = do { p \<leftarrow> strlen_loop m src; Some (p - src - 1) }"

partial_function (option) split_loop :: "u32 \<Rightarrow> u32 \<Rightarrow> bmem \<Rightarrow> bmem option" where
  "split_loop buf c m = (if m c \<noteq> 0 then split_loop (buf + 1) (c + 1) (m(buf := m c)) else Some m)"

definition do_string_split :: "u32 \<Rightarrow> u32 \<Rightarrow> u32 \<Rightarrow> bmem \<Rightarrow> bmem option" where
  "do_string_split dst offset src m = split_loop (dst + offset) src m"

partial_function (option) copy_loop :: "u32 \<Rightarrow> u32 \<Rightarrow> bmem \<Rightarrow> bmem option" where
  "copy_loop buf c m =
     (let m = m(buf := m c) in if m (c + 1) \<noteq> 0 then copy_loop (buf + 1) (c + 1) m else Some m)"

definition do_string_copy :: "u32 \<Rightarrow> u32 \<Rightarrow> bmem \<Rightarrow> (bmem \<times> u32) option" where
  "do_string_copy dst src m = do { m \<leftarrow> copy_loop dst src m; Some (m, dst) }"

partial_function (option) n_copy_loop :: "u32 \<Rightarrow> u32 \<Rightarrow> u32 \<Rightarrow> bmem \<Rightarrow> bmem option" where
  "n_copy_loop buf c sz m =
     (if m c \<noteq> 0 \<and> sz \<noteq> 0 then n_copy_loop (buf + 1) (c + 1) (sz - 1) (m(buf := m c)) else Some m)"

definition do_string_n_copy :: "u32 \<Rightarrow> u32 \<Rightarrow> u32 \<Rightarrow> bmem \<Rightarrow> (bmem \<times> u32) option" where
  "do_string_n_copy dst src sz m = do { m \<leftarrow> n_copy_loop dst src sz m; Some (m, dst) }"

partial_function (option) n_copy_rev_loop :: "u32 \<Rightarrow> u32 \<Rightarrow> u32 \<Rightarrow> bmem \<Rightarrow> bmem option" where
  "n_copy_rev_loop buf c sz m =
     (if sz \<noteq> 0 then n_copy_rev_loop (buf - 1) (c - 1) (sz - 1) (m(buf := m c)) else Some m)"

definition do_string_n_copy_rev :: "u32 \<Rightarrow> u32 \<Rightarrow> u32 \<Rightarrow> bmem \<Rightarrow> (bmem \<times> u32) option" where
  "do_string_n_copy_rev dst src sz m = do {
     m \<leftarrow> n_copy_rev_loop (dst + sz - 1) (src + sz - 1) sz m;
     Some (m, dst)
   }"

partial_function (option) n_copy_safe_loop :: "u32 \<Rightarrow> u32 \<Rightarrow> u32 \<Rightarrow> bmem \<Rightarrow> bmem option" where
  "n_copy_safe_loop buf c sz m =
     (if m c \<noteq> 0 \<and> sz \<noteq> 0 then
        (let sz = sz - 1 in
         if sz \<noteq> 0 then n_copy_safe_loop (buf + 1) (c + 1) sz (m(buf := m c))
         else n_copy_safe_loop buf c sz (m(buf := 0)))
      else Some m)"

definition do_string_n_copy_safe :: "u32 \<Rightarrow> u32 \<Rightarrow> u32 \<Rightarrow> bmem \<Rightarrow> (bmem \<times> u32) option" where
  "do_string_n_copy_safe dst src sz m = do {
     lenth \<leftarrow> get_string_lenth m src;
     m \<leftarrow> n_copy_safe_loop dst src sz m;
     Some (m, lenth)
   }"

subsection \<open>Comparison, reversal, decimal numbers and search\<close>

partial_function (option) compare_loop :: "bmem \<Rightarrow> u32 \<Rightarrow> u32 \<Rightarrow> bool option" where
  "compare_loop m buf c =
     (if m buf \<noteq> m c then Some True
      else if m (c + 1) \<noteq> 0 then compare_loop m (buf + 1) (c + 1) else Some False)"

definition do_string_compare :: "bmem \<Rightarrow> u32 \<Rightarrow> u32 \<Rightarrow> bool option" where
  "do_string_compare m dst src = compare_loop m dst src"

partial_function (option) n_compare_loop :: "bmem \<Rightarrow> u32 \<Rightarrow> u32 \<Rightarrow> u32 \<Rightarrow> bool option" where
  "n_compare_loop m buf c sz =
     (if m buf \<noteq> m c then Some True
      else if m (c + 1) \<noteq> 0 \<and> sz - 1 \<noteq> 0 then n_compare_loop m (buf + 1) (c + 1) (sz - 1)
      else Some False)"

definition do_string_n_compare :: "bmem \<Rightarrow> u32 \<Rightarrow> u32 \<Rightarrow> u32 \<Rightarrow> bool option" where
  "do_string_n_compare m dst src sz = (if sz = 0 then Some True else n_compare_loop m dst src sz)"

partial_function (option) reverse_loop :: "u32 \<Rightarrow> u32 \<Rightarrow> bmem \<Rightarrow> bmem option" where
  "reverse_loop p q m =
     (if q > p then
        (let ch = m p; m = m(p := m q) in reverse_loop (p + 1) (q - 1) (m(q := ch)))
      else Some m)"

definition do_string_reverse :: "u32 \<Rightarrow> u32 \<Rightarrow> bmem \<Rightarrow> bmem option" where
  "do_string_reverse src sz m = do {
     n \<leftarrow> (if sz \<noteq> 0 then Some sz else get_string_lenth m src);
     (let tail = src + n in
      if tail - src \<le> 1 then Some m else reverse_loop src (tail - 1) m)
   }"

function number_loop :: "u32 \<Rightarrow> u32 \<Rightarrow> u64 \<Rightarrow> u64 \<Rightarrow> u32 \<Rightarrow> bmem \<Rightarrow> bmem \<times> u32" where
  "number_loop dst buf num val lenth m =
     (let num = num div 10; lenth = lenth + 1;
          (buf, val, m) =
            (if isValid dst then (buf + 1, val div 10, m(buf := ucast (val - (push_bit 1 num + push_bit 3 num)) + 48))
             else (buf, val, m))
      in if num \<noteq> 0 then number_loop dst buf num val lenth m else (m, lenth))"
  by pat_completeness auto
termination number_loop
  using div10_decreases by (relation "measure (\<lambda>(_, _, num, _). unat num)") auto

declare number_loop.simps [simp del]

definition convert_number_to_string :: "u32 \<Rightarrow> u64 \<Rightarrow> bmem \<Rightarrow> (bmem \<times> u32) option" where
  "convert_number_to_string dst val m =
     (let (m, lenth) = number_loop dst dst val val 0 m in
      if isValid dst then do { m \<leftarrow> do_string_reverse dst lenth m; Some (m, lenth) } else Some (m, lenth))"

partial_function (option) seek_char_in_string :: "bmem \<Rightarrow> u32 \<Rightarrow> u8 \<Rightarrow> u32 option" where
  "seek_char_in_string m p ch =
     (if m p \<noteq> 0 then (if ch = m p then Some p else seek_char_in_string m (p + 1) ch) else Some 0)"

partial_function (option) seek_pos_loop :: "bmem \<Rightarrow> u32 \<Rightarrow> u32 \<Rightarrow> u32 option" where
  "seek_pos_loop m p e = (if m p \<noteq> 0 then (if p = e then Some p else seek_pos_loop m (p + 1) e) else Some 0)"

definition seek_char_by_pos :: "bmem \<Rightarrow> u32 \<Rightarrow> u32 \<Rightarrow> u32 option" where
  "seek_char_by_pos m src index = seek_pos_loop m src (src + index)"

definition kstrlen :: "bmem \<Rightarrow> u32 \<Rightarrow> u32 option" where "kstrlen m s = get_string_lenth m s"
definition kstrcpy :: "u32 \<Rightarrow> u32 \<Rightarrow> bmem \<Rightarrow> (bmem \<times> u32) option" where "kstrcpy d s m = do_string_copy d s m"
definition kstrncpy :: "u32 \<Rightarrow> u32 \<Rightarrow> u32 \<Rightarrow> bmem \<Rightarrow> (bmem \<times> u32) option" where
  "kstrncpy d s n m = do_string_n_copy d s n m"
definition kstrlcpy :: "u32 \<Rightarrow> u32 \<Rightarrow> u32 \<Rightarrow> bmem \<Rightarrow> (bmem \<times> u32) option" where
  "kstrlcpy d s n m = do_string_n_copy_safe d s n m"
definition kstrncpyr :: "u32 \<Rightarrow> u32 \<Rightarrow> u32 \<Rightarrow> bmem \<Rightarrow> (bmem \<times> u32) option" where
  "kstrncpyr d s n m = do_string_n_copy_rev d s n m"
definition kstrcmp :: "bmem \<Rightarrow> u32 \<Rightarrow> u32 \<Rightarrow> bool option" where "kstrcmp m s1 s2 = do_string_compare m s1 s2"
definition kstrncmp :: "bmem \<Rightarrow> u32 \<Rightarrow> u32 \<Rightarrow> u32 \<Rightarrow> bool option" where
  "kstrncmp m s1 s2 n = do_string_n_compare m s1 s2 n"
definition kstrchr :: "bmem \<Rightarrow> u32 \<Rightarrow> u8 \<Rightarrow> u32 option" where "kstrchr m s ch = seek_char_in_string m s ch"
definition kstrcat :: "bmem \<Rightarrow> u32 \<Rightarrow> u32 \<Rightarrow> u32 option" where "kstrcat m s index = seek_char_by_pos m s index"

subsection \<open>Runs of bytes\<close>

text \<open>\<open>write_bytes m p xs\<close> stores \<open>xs\<close> from \<open>p\<close> on; \<open>span p n\<close> are the \<open>n\<close> addresses from \<open>p\<close> on.\<close>

fun write_bytes :: "bmem \<Rightarrow> u32 \<Rightarrow> u8 list \<Rightarrow> bmem" where
  "write_bytes m p [] = m"
| "write_bytes m p (x # xs) = write_bytes (m(p := x)) (p + 1) xs"

definition span :: "u32 \<Rightarrow> nat \<Rightarrow> u32 set" where
  "span p n = (\<lambda>i. p + of_nat i) ` {..<n}"

lemma span_0 [simp]: "span p 0 = {}"
  by (simp add: span_def)

lemma span_Suc: "span p (Suc n) = insert p (span (p + 1) n)"
proof -
  have "{..<Suc n} = insert 0 (Suc ` {..<n})" by (rule lessThan_Suc_eq_insert_0)
  then show ?thesis by (simp add: span_def image_image algebra_simps)
qed

lemma span_mono: "n \<le> k \<Longrightarrow> span p n \<subseteq> span p k"
  by (auto simp: span_def)

lemma span_sub: "i + n \<le> k \<Longrightarrow> span (p + of_nat i) n \<subseteq> span p k"
proof
  fix q assume "i + n \<le> k" "q \<in> span (p + of_nat i) n"
  then obtain j where "j < n" "q = p + of_nat (i + j)" by (auto simp: span_def algebra_simps)
  then show "q \<in> span p k" using \<open>i + n \<le> k\<close> by (auto simp: span_def simp del: of_nat_add)
qed

lemma in_span: "i < n \<Longrightarrow> p + of_nat i \<in> span p n"
  by (auto simp: span_def)

lemma span_fresh:
  assumes "n \<le> i" and "i < 4294967296"
  shows "p + of_nat i \<notin> span p n"
proof
  assume "p + of_nat i \<in> span p n"
  then obtain j where "j < n" "p + of_nat i = p + of_nat j" by (auto simp: span_def)
  then show False using inj_onD[OF u32_offset_inj[of p], of i j] assms by auto
qed

lemma write_bytes_append: "write_bytes m p (xs @ ys) = write_bytes (write_bytes m p xs) (p + of_nat (length xs)) ys"
  by (induction xs arbitrary: m p) (simp_all add: algebra_simps)

lemma write_bytes_other: "q \<notin> span p (length xs) \<Longrightarrow> write_bytes m p xs q = m q"
  by (induction xs arbitrary: m p) (auto simp: span_Suc)

lemma write_bytes_at:
  "length xs \<le> 4294967296 \<Longrightarrow> bytes_at (write_bytes m p xs) p xs"
proof (induction xs arbitrary: m p)
  case (Cons x xs)
  have "p \<notin> span (p + 1) (length xs)"
  proof
    assume "p \<in> span (p + 1) (length xs)"
    then obtain i where i: "i < length xs" "p = p + of_nat (Suc i)" by (auto simp: span_def algebra_simps)
    then have z: "of_nat (Suc i) = (0 :: u32)" by (metis add_cancel_left_right)
    have "unat (of_nat (Suc i) :: u32) = Suc i" using i Cons.prems by (intro u32_of_nat) simp
    then show False by (simp only: z unsigned_0)
  qed
  then show ?case using Cons by (simp add: write_bytes_other)
qed simp

lemma bytes_at_cong: "(\<And>q. q \<in> span p (length xs) \<Longrightarrow> m' q = m q) \<Longrightarrow> bytes_at m' p xs = bytes_at m p xs"
  by (induction xs arbitrary: p) (simp_all add: span_Suc)

lemma cstr_cong: "(\<And>q. q \<in> span p (Suc (length cs)) \<Longrightarrow> m' q = m q) \<Longrightarrow> cstr m' p cs = cstr m p cs"
  unfolding cstr_bytes using bytes_at_cong[of p "cs @ [0]" m' m] by simp

lemma fold_write_bytes:
  "fold (\<lambda>i m. m(p + of_nat i := f i)) [0..<n] m = write_bytes m p (map f [0..<n])"
proof (induction n)
  case (Suc n)
  define F where "F = (\<lambda>i m. m(p + of_nat i := f i) :: bmem)"
  have IH: "fold F [0..<n] m = write_bytes m p (map f [0..<n])" unfolding F_def by (rule Suc)
  have "fold F [0..<Suc n] m = F n (fold F [0..<n] m)" by simp
  also have "\<dots> = write_bytes m p (map f [0..<Suc n])" by (simp only: IH) (simp add: F_def write_bytes_append)
  finally show ?case by (simp only: F_def)
qed simp

lemma put_reversed_write: "put_reversed buf temp m = write_bytes m (buf + 2) (rev temp)"
proof -
  have swap: "buf + of_nat i + 2 = buf + 2 + of_nat i" for i by (simp add: add.commute add.left_commute)
  have "map (\<lambda>i. temp ! (length temp - i - 1)) [0..<length temp] = rev temp"
    by (rule nth_equalityI) (simp_all add: rev_nth)
  then show ?thesis unfolding put_reversed_def swap by (simp add: fold_write_bytes)
qed

subsection \<open>Strings\<close>

lemma strlen_loop_cstr: "cstr m p cs \<Longrightarrow> strlen_loop m p = Some (p + of_nat (length cs) + 1)"
proof (induction cs arbitrary: p)
  case (Cons c cs)
  then show ?case by (subst strlen_loop.simps) (simp add: algebra_simps)
qed (simp add: strlen_loop.simps)

lemma get_string_lenth_cstr: "cstr m p cs \<Longrightarrow> get_string_lenth m p = Some (of_nat (length cs))"
  by (simp add: get_string_lenth_def strlen_loop_cstr)

text \<open>A copied string stays clear of its source.\<close>

definition clear_of :: "u32 \<Rightarrow> nat \<Rightarrow> u32 \<Rightarrow> nat \<Rightarrow> bool" where
  "clear_of p n q k \<longleftrightarrow> span p n \<inter> span q k = {}"

lemma clear_of_head: "clear_of p (Suc n) q (Suc k) \<Longrightarrow> p \<noteq> q \<and> p \<notin> span (q + 1) k \<and> q \<notin> span (p + 1) n \<and> clear_of (p + 1) n (q + 1) k"
  by (auto simp: clear_of_def span_Suc)

lemma cstr_upd_clear: "p \<notin> span q (Suc (length cs)) \<Longrightarrow> cstr (m(p := x)) q cs = cstr m q cs"
  by (rule cstr_cong) auto

lemma split_loop_cstr:
  assumes "cstr m c cs" and "clear_of buf (length cs) c (Suc (length cs))"
  shows "split_loop buf c m = Some (write_bytes m buf cs)"
  using assms
proof (induction cs arbitrary: buf c m)
  case Nil
  then show ?case by (simp add: split_loop.simps)
next
  case (Cons x xs)
  note h = clear_of_head[OF Cons.prems(2)[simplified]]
  have "cstr (m(buf := x)) (c + 1) xs" using Cons.prems(1) h by (simp add: cstr_upd_clear)
  then have "split_loop (buf + 1) (c + 1) (m(buf := x)) = Some (write_bytes (m(buf := x)) (buf + 1) xs)"
    using h Cons.IH by blast
  then show ?case using Cons.prems(1) by (subst split_loop.simps) simp
qed

lemma do_string_split_cstr:
  "cstr m src cs \<Longrightarrow> clear_of (dst + off) (length cs) src (Suc (length cs)) \<Longrightarrow>
   do_string_split dst off src m = Some (write_bytes m (dst + off) cs)"
  by (simp add: do_string_split_def split_loop_cstr)

lemma n_copy_loop_cstr:
  assumes "cstr m c cs" and "clear_of buf (length cs) c (Suc (length cs))"
  shows "n_copy_loop buf c sz m = Some (write_bytes m buf (take (unat sz) cs))"
  using assms
proof (induction cs arbitrary: buf c sz m)
  case Nil
  then show ?case by (simp add: n_copy_loop.simps)
next
  case (Cons x xs)
  show ?case
  proof (cases "sz = 0")
    case True
    then show ?thesis by (simp add: n_copy_loop.simps)
  next
    case False
    note h = clear_of_head[OF Cons.prems(2)[simplified]]
    have "cstr (m(buf := x)) (c + 1) xs" using Cons.prems(1) h by (simp add: cstr_upd_clear)
    then have "n_copy_loop (buf + 1) (c + 1) (sz - 1) (m(buf := x)) =
      Some (write_bytes (m(buf := x)) (buf + 1) (take (unat (sz - 1)) xs))"
      using h Cons.IH by blast
    moreover have "unat sz = Suc (unat (sz - 1))" using False by (simp add: unat_minus_one unat_gt_0)
    ultimately show ?thesis using Cons.prems(1) False by (subst n_copy_loop.simps) simp
  qed
qed

text \<open>
  \<^verbatim>\<open>kstrlcpy\<close>: a source longer than the space is cut and closed; one that fits is copied without its end.
\<close>

lemma n_copy_safe_loop_cstr:
  assumes "cstr m c cs" and "clear_of buf (length cs) c (Suc (length cs))"
  shows "n_copy_safe_loop buf c sz m =
    Some (write_bytes m buf (if length cs < unat sz then cs
                             else if sz = 0 then [] else take (unat sz - 1) cs @ (if cs = [] then [] else [0])))"
  using assms
proof (induction cs arbitrary: buf c sz m)
  case Nil
  then show ?case by (simp add: n_copy_safe_loop.simps)
next
  case (Cons x xs)
  note h = clear_of_head[OF Cons.prems(2)[simplified]]
  consider "sz = 0" | "sz = 1" | "1 < unat sz"
    by (metis One_nat_def less_one linorder_neqE_nat unat_1 unat_eq_zero word_unat_eq_iff)
  then show ?case
  proof cases
    case 1
    then show ?thesis by (simp add: n_copy_safe_loop.simps)
  next
    case 2
    then show ?thesis using Cons.prems(1) h by (subst n_copy_safe_loop.simps, subst n_copy_safe_loop.simps) (simp add: Let_def)
  next
    case 3
    then have s: "unat (sz - 1) = unat sz - 1" "sz \<noteq> 0" "sz - 1 \<noteq> 0" by (auto simp: unat_minus_one word_unat_eq_iff)
    have "cstr (m(buf := x)) (c + 1) xs" using Cons.prems(1) h by (simp add: cstr_upd_clear)
    then have "n_copy_safe_loop (buf + 1) (c + 1) (sz - 1) (m(buf := x)) =
      Some (write_bytes (m(buf := x)) (buf + 1)
        (if length xs < unat (sz - 1) then xs
         else if sz - 1 = 0 then [] else take (unat (sz - 1) - 1) xs @ (if xs = [] then [] else [0])))"
      using h Cons.IH by blast
    moreover have "unat sz - 1 = Suc (unat sz - 2)" using 3 by simp
    ultimately show ?thesis using Cons.prems(1) s 3 by (subst n_copy_safe_loop.simps) (auto simp: Let_def)
  qed
qed

lemma span_next_fresh: "n < 4294967296 \<Longrightarrow> p \<notin> span (p + 1) n"
proof
  assume n: "n < 4294967296" and "p \<in> span (p + 1) n"
  then obtain i where i: "i < n" "p = p + of_nat (Suc i)" by (auto simp: span_def algebra_simps)
  then have z: "of_nat (Suc i) = (0 :: u32)" by (metis add_cancel_left_right)
  have "unat (of_nat (Suc i) :: u32) = Suc i" using i n by (intro u32_of_nat) simp
  then show False by (simp only: z unsigned_0)
qed

lemma write_bytes_upd: "q \<notin> span p (length xs) \<Longrightarrow> write_bytes (m(q := x)) p xs = (write_bytes m p xs)(q := x)"
proof (induction xs arbitrary: m p)
  case (Cons y ys)
  then have "p \<noteq> q" "q \<notin> span (p + 1) (length ys)" by (auto simp: span_Suc)
  define m1 where "m1 = m(p := y)"
  have "write_bytes (m1(q := x)) (p + 1) ys = (write_bytes m1 (p + 1) ys)(q := x)"
    by (rule Cons.IH) fact
  moreover have "m(q := x, p := y) = m1(q := x)" unfolding m1_def using \<open>p \<noteq> q\<close> by (rule fun_upd_twist[symmetric])
  ultimately show ?case by (simp only: write_bytes.simps m1_def)
qed simp

lemma write_bytes_over:
  "length xs = length ys \<Longrightarrow> length xs \<le> 4294967296 \<Longrightarrow> write_bytes (write_bytes m p xs) p ys = write_bytes m p ys"
proof (induction xs ys arbitrary: m p rule: list_induct2)
  case (Cons x xs y ys)
  then have "p \<notin> span (p + 1) (length xs)" by (intro span_next_fresh) simp
  then have "(write_bytes (m(p := x)) (p + 1) xs)(p := y) = write_bytes (m(p := y)) (p + 1) xs"
    using write_bytes_upd[of p "p + 1" xs "m(p := x)" y] by simp
  moreover define m1 where "m1 = m(p := y)"
  moreover have "write_bytes (write_bytes m1 (p + 1) xs) (p + 1) ys = write_bytes m1 (p + 1) ys"
    using Cons.IH[of m1 "p + 1"] Cons.prems by simp
  ultimately show ?case by (simp only: write_bytes.simps)
qed simp

lemma compare_loop_cstr:
  assumes "cstr m b bs" and "cstr m c cs" and "cs \<noteq> []"
  shows "compare_loop m b c = Some (take (length cs) bs \<noteq> cs)"
  using assms
proof (induction cs arbitrary: b c bs)
  case (Cons x xs)
  then show ?case
  proof (cases bs)
    case Nil
    then show ?thesis using Cons.prems by (subst compare_loop.simps) simp
  next
    case bs: (Cons y ys)
    show ?thesis
    proof (cases "xs = []")
      case True
      then show ?thesis using Cons.prems bs by (subst compare_loop.simps) auto
    next
      case False
      then have "m (c + 1) \<noteq> 0" using Cons.prems by (cases xs) auto
      moreover have "compare_loop m (b + 1) (c + 1) = Some (take (length xs) ys \<noteq> xs)"
        using Cons.IH[of "b + 1" ys "c + 1"] Cons.prems bs False by simp
      ultimately show ?thesis using Cons.prems bs by (subst compare_loop.simps) auto
    qed
  qed
qed simp

lemma n_compare_loop_cstr:
  assumes "cstr m b bs" and "cstr m c cs" and "cs \<noteq> []" and "sz \<noteq> 0"
  shows "n_compare_loop m b c sz = Some (take (min (unat sz) (length cs)) bs \<noteq> take (unat sz) cs)"
  using assms
proof (induction cs arbitrary: b c bs sz)
  case (Cons x xs)
  have s: "unat sz = Suc (unat (sz - 1))" using Cons.prems(4) by (simp add: unat_minus_one unat_gt_0)
  show ?case
  proof (cases bs)
    case Nil
    then show ?thesis using Cons.prems s by (subst n_compare_loop.simps) simp
  next
    case bs: (Cons y ys)
    show ?thesis
    proof (cases "xs = [] \<or> sz - 1 = 0")
      case True
      then have "m (c + 1) = 0 \<or> sz - 1 = 0" using Cons.prems by auto
      moreover have "min (unat sz) (length (x # xs)) = 1" using True s by auto
      ultimately show ?thesis using Cons.prems bs True s by (subst n_compare_loop.simps) auto
    next
      case False
      then have "m (c + 1) \<noteq> 0" using Cons.prems by (cases xs) auto
      moreover have "n_compare_loop m (b + 1) (c + 1) (sz - 1) =
        Some (take (min (unat (sz - 1)) (length xs)) ys \<noteq> take (unat (sz - 1)) xs)"
        using Cons.IH[of "b + 1" ys "c + 1" "sz - 1"] Cons.prems bs False by simp
      ultimately show ?thesis using Cons.prems bs False s by (subst n_compare_loop.simps) auto
    qed
  qed
qed simp

lemma reverse_loop_bytes:
  assumes "bytes_at m p xs" and "unat p + length xs \<le> 4294967296" and "xs \<noteq> [] \<or> p \<noteq> 0"
  shows "reverse_loop p (p + of_nat (length xs) - 1) m = Some (write_bytes m p (rev xs))"
  using assms
proof (induction "length xs" arbitrary: xs m p rule: less_induct)
  case less
  consider "xs = []" | x where "xs = [x]" | x ys y where "xs = x # ys @ [y]"
    by (metis append_butlast_last_id list.exhaust)
  then show ?case
  proof cases
    case 1
    then have "unat (p - 1) < unat p" using less.prems(3) by (simp add: unat_minus_one unat_gt_0)
    then show ?thesis using 1 by (subst reverse_loop.simps) (simp add: word_less_nat_alt)
  next
    case 2
    then have "m(p := x) = m" using less.prems(1) by (simp add: fun_upd_idem)
    then show ?thesis using 2 by (subst reverse_loop.simps) simp
  next
    case 3
    let ?q = "p + of_nat (length ys) + 1"
    have len: "unat p + length ys + 2 \<le> 4294967296" using less.prems(2) 3 by simp
    have q: "p + of_nat (length xs) - 1 = ?q" using 3 by (simp add: algebra_simps)
    have uq: "unat ?q = unat p + length ys + 1" using len by (simp add: u32_add u32_of_nat)
    have up: "unat (p + 1) = unat p + 1" using len by (simp add: u32_add)
    have b: "m p = x" "bytes_at m (p + 1) ys" "m ?q = y"
      using less.prems(1) 3 by (auto simp: bytes_at_append algebra_simps)
    have qf: "?q \<notin> span (p + 1) (length ys)"
      using span_fresh[of "length ys" "length ys" "p + 1"] len by (simp add: algebra_simps)
    have pf: "p \<notin> span (p + 1) (length ys)" using len by (intro span_next_fresh) simp
    define m' where "m' = m(p := y, ?q := x)"
    have "m' r = m r" if "r \<in> span (p + 1) (length ys)" for r
    proof -
      have "r \<noteq> p" "r \<noteq> ?q" using that qf pf by blast+
      then show ?thesis by (simp add: m'_def)
    qed
    then have "bytes_at m' (p + 1) ys" using b(2) bytes_at_cong[of "p + 1" ys m' m] by blast
    moreover have "p + 1 \<noteq> 0" using up by auto
    ultimately have "reverse_loop (p + 1) (p + 1 + of_nat (length ys) - 1) m' = Some (write_bytes m' (p + 1) (rev ys))"
      using less.hyps[of ys m' "p + 1"] 3 up len by simp
    moreover have "write_bytes m' (p + 1) (rev ys) = write_bytes m p (rev xs)"
      using qf 3 by (simp add: m'_def write_bytes_upd write_bytes_append algebra_simps)
    moreover have "reverse_loop p ?q m = reverse_loop (p + 1) (?q - 1) m'"
    proof -
      have "?q > p" using uq by (simp add: word_less_nat_alt)
      moreover have "m(p := m ?q, ?q := m p) = m'" using b by (simp only: m'_def)
      ultimately show ?thesis by (subst reverse_loop.simps) (simp only: Let_def if_True)
    qed
    moreover have "?q - 1 = p + 1 + of_nat (length ys) - 1" by (simp add: algebra_simps)
    ultimately show ?thesis unfolding q by (simp only:)
  qed
qed

subsection \<open>Decimal conversion\<close>

lemma decimal_digit:
  "ucast (num - (push_bit 1 (num div 10) + push_bit 3 (num div 10 :: u64))) + 48 = (of_nat (unat num mod 10) + 48 :: u8)"
proof -
  have "push_bit 1 (num div 10) + push_bit 3 (num div 10) = num div 10 * 10"
    unfolding push_bit_eq_mult by (simp flip: distrib_left)
  then have "num - (push_bit 1 (num div 10) + push_bit 3 (num div 10)) = num mod 10"
    by (simp only: minus_div_mult_eq_mod)
  moreover have "ucast (num mod 10) = (of_nat (unat (num mod 10)) :: u8)" by (simp only: of_nat_unat)
  moreover have "unat (num mod 10) = unat num mod 10" by (simp add: unat_mod)
  ultimately show ?thesis by (simp only:)
qed

lemma number_loop_valid:
  "isValid dst \<Longrightarrow> number_loop dst buf num num lenth m =
     (if num div 10 \<noteq> 0 then number_loop dst (buf + 1) (num div 10) (num div 10) (lenth + 1) (m(buf := of_nat (unat num mod 10) + 48))
      else (m(buf := of_nat (unat num mod 10) + 48), lenth + 1))"
  by (subst number_loop.simps) (simp only: Let_def if_True prod.case decimal_digit)

lemma number_loop_invalid:
  "\<not> isValid dst \<Longrightarrow> number_loop dst buf num val lenth m =
     (if num div 10 \<noteq> 0 then number_loop dst buf (num div 10) val (lenth + 1) m else (m, lenth + 1))"
  by (subst number_loop.simps) (simp only: Let_def if_False prod.case)

lemma div10_zero_iff: "num div 10 = 0 \<longleftrightarrow> unat (num :: u64) < 10"
  by (simp add: word_unat_eq_iff unat_div div_eq_0_iff)

lemma pdigits_10_unfold:
  "pdigits 10 (unat (num :: u64)) =
     (if num div 10 \<noteq> 0 then (unat num mod 10) # pdigits 10 (unat (num div 10)) else [unat num mod 10])"
  by (subst pdigits.simps) (simp add: div10_zero_iff unat_div)

definition dec_text :: "u64 \<Rightarrow> u8 list" where
  "dec_text num = map (\<lambda>d. of_nat d + 48) (rev (pdigits 10 (unat num)))"

lemma number_loop_writes:
  assumes "isValid dst"
  shows "number_loop dst buf num num lenth m =
    (write_bytes m buf (rev (dec_text num)), lenth + of_nat (length (dec_text num)))"
proof (induction "unat num" arbitrary: buf num lenth m rule: less_induct)
  case less
  define m1 where "m1 = m(buf := of_nat (unat num mod 10) + 48)"
  show ?case
  proof (cases "num div 10 = 0")
    case True
    then show ?thesis using assms by (subst number_loop_valid) (simp_all add: dec_text_def pdigits_10_unfold[of num])
  next
    case False
    have "number_loop dst (buf + 1) (num div 10) (num div 10) (lenth + 1) m1 =
      (write_bytes m1 (buf + 1) (rev (dec_text (num div 10))), lenth + 1 + of_nat (length (dec_text (num div 10))))"
      using False by (intro less) (rule div10_decreases)
    moreover have "rev (dec_text num) = (of_nat (unat num mod 10) + 48) # rev (dec_text (num div 10))"
      using False by (simp add: dec_text_def pdigits_10_unfold[of num])
    then have "write_bytes m buf (rev (dec_text num)) = write_bytes m1 (buf + 1) (rev (dec_text (num div 10)))"
      and "length (dec_text num) = Suc (length (dec_text (num div 10)))"
      using length_rev[of "dec_text num"] by (simp_all add: m1_def)
    ultimately show ?thesis using assms False by (subst number_loop_valid) (simp_all add: m1_def[symmetric] add.assoc)
  qed
qed

lemma number_loop_counts:
  assumes "\<not> isValid dst"
  shows "number_loop dst buf num val lenth m = (m, lenth + of_nat (length (dec_text num)))"
proof (induction "unat num" arbitrary: buf num val lenth rule: less_induct)
  case less
  show ?case
  proof (cases "num div 10 = 0")
    case True
    then show ?thesis using assms by (subst number_loop_invalid) (simp_all add: dec_text_def pdigits_10_unfold[of num])
  next
    case False
    have "number_loop dst buf (num div 10) val (lenth + 1) m = (m, lenth + 1 + of_nat (length (dec_text (num div 10))))"
      using False by (intro less) (rule div10_decreases)
    then show ?thesis using assms False
      by (subst number_loop_invalid) (simp_all add: dec_text_def pdigits_10_unfold[of num] algebra_simps)
  qed
qed

lemma dec_text_length: "length (dec_text num) \<le> 20" "dec_text num \<noteq> []"
proof -
  have "unat num < 18446744073709551616" using unsigned_less[of num] by simp
  then have "unat num < 10 ^ Suc 19" by simp
  then have "length (pdigits 10 (unat num)) \<le> Suc 19" by (intro pdigits_length) simp_all
  then show "length (dec_text num) \<le> 20" by (simp add: dec_text_def)
  show "dec_text num \<noteq> []" by (simp add: dec_text_def pdigits_nonempty)
qed

lemma dec_text_nonzero: "c \<in> set (dec_text num) \<Longrightarrow> 48 \<le> c \<and> c \<le> 57"
proof -
  assume "c \<in> set (dec_text num)"
  then obtain d where d: "c = of_nat d + 48" "d \<in> set (pdigits 10 (unat num))" by (auto simp: dec_text_def)
  then have "d < 10" using pdigits_bound[of 10 d "unat num"] by simp
  moreover have "c = of_nat (d + 48)" using d by simp
  ultimately show ?thesis by (simp add: word_le_nat_alt u8_of_nat del: of_nat_add)
qed

lemma convert_number_to_string_eq:
  "convert_number_to_string dst val m =
     Some (if isValid dst then write_bytes m dst (dec_text val) else m, of_nat (length (dec_text val)))"
proof (cases "isValid dst")
  case True
  let ?t = "dec_text val" and ?n = "of_nat (length (dec_text val)) :: u32"
  define m1 where "m1 = write_bytes m dst (rev ?t)"
  have len: "length ?t \<le> 20" "0 < length ?t" using dec_text_length[of val] by auto
  have un: "unat ?n = length ?t" using len by (intro u32_of_nat) simp
  have at: "bytes_at m1 dst (rev ?t)" unfolding m1_def using len by (intro write_bytes_at) simp
  have over: "write_bytes m1 dst ?t = write_bytes m dst ?t"
    unfolding m1_def using len by (intro write_bytes_over) simp_all
  have "do_string_reverse dst ?n m1 = Some (write_bytes m dst ?t)"
  proof (cases "length ?t = 1")
    case True
    then obtain x where "?t = [x]" by (auto simp: length_Suc_conv)
    then have "m1 = write_bytes m dst ?t" by (simp add: m1_def)
    then show ?thesis using True un by (simp add: do_string_reverse_def word_le_nat_alt)
  next
    case False
    have "reverse_loop dst (dst + of_nat (length (rev ?t)) - 1) m1 = Some (write_bytes m1 dst (rev (rev ?t)))"
      using at True len by (intro reverse_loop_bytes) (auto simp: isValid_iff)
    moreover have "2 \<le> length ?t" using False len by linarith
    then have "?n \<noteq> 0" "\<not> ?n \<le> 1" using un by (auto simp: word_le_nat_alt word_unat_eq_iff)
    ultimately show ?thesis by (simp add: do_string_reverse_def Let_def over)
  qed
  then show ?thesis using True by (simp add: convert_number_to_string_def number_loop_writes m1_def)
next
  case False
  then show ?thesis by (simp add: convert_number_to_string_def number_loop_counts)
qed

lemma get_integrater_lenth_eq: "get_integrater_lenth val = of_nat (length (dec_text val))"
proof -
  have "get_integrater_loop val n = n + of_nat (length (dec_text val))" for n
  proof (induction "unat val" arbitrary: val n rule: less_induct)
    case less
    show ?case
    proof (cases "val div 10 = 0")
      case True
      then show ?thesis by (subst get_integrater_loop.simps) (simp add: dec_text_def pdigits_10_unfold[of val])
    next
      case False
      have "get_integrater_loop (val div 10) (n + 1) = n + 1 + of_nat (length (dec_text (val div 10)))"
        using False by (intro less) (rule div10_decreases)
      then show ?thesis using False
        by (subst get_integrater_loop.simps) (simp add: dec_text_def pdigits_10_unfold[of val] algebra_simps)
    qed
  qed
  then show ?thesis by (simp add: get_integrater_lenth_def)
qed

lemma decimal_reads_back:
  assumes "isValid dst" and "convert_number_to_string dst w m = Some (m', n)" and "m (dst + n) = 0"
  shows "ascii_to_dec m' dst = Some (ucast w)" and "n \<le> 20" and "unat w < 4294967296 \<Longrightarrow> n \<le> 10"
proof -
  let ?ds = "pdigits 10 (unat w)" and ?t = "dec_text w"
  have t: "?t = map (\<lambda>d. of_nat d + 48) (rev ?ds)" by (simp add: dec_text_def)
  have len: "length ?t \<le> 20" by (rule dec_text_length)
  have n: "n = of_nat (length ?t)" and m': "m' = write_bytes m dst ?t"
    using assms(1,2) by (auto simp: convert_number_to_string_eq)
  have b: "bytes_at m' dst ?t" unfolding m' using len by (intro write_bytes_at) simp
  have z: "m' (dst + of_nat (length ?t)) = 0"
    unfolding m' using assms(3) n len span_fresh[of "length ?t" "length ?t" dst] by (simp add: write_bytes_other)
  have digits: "48 \<le> c \<and> c \<le> 57" if "c \<in> set ?t" for c using dec_text_nonzero[OF that] .
  have str: "cstr m' dst ?t" using b z digits[of 0] by (auto simp: cstr_def)
  obtain c cs where cs: "?t = c # cs" using dec_text_length(2) by (cases ?t) auto
  have "m' (dst + 1) \<notin> {88, 120, 66, 98}"
  proof (cases cs)
    case Nil
    then show ?thesis using str cs by simp
  next
    case (Cons e es)
    then have "m' (dst + 1) = e" "48 \<le> e \<and> e \<le> 57" using str cs digits[of e] by auto
    then show ?thesis by (auto simp: word_le_nat_alt)
  qed
  then have "ascii_type m' dst = 10" by (auto simp: ascii_type_def)
  moreover have "ascii_loop m' 10 0 dst = Some (ucast w)"
  proof -
    have "d < 10" if "d \<in> set (rev ?ds)" for d using pdigits_bound[of 10 d "unat w"] that by simp
    then show ?thesis
      using ascii_loop_digits[of m' dst "\<lambda>d. of_nat d + 48" "rev ?ds" 10 10 0] str ascii_step_dec
        pdigits_foldl_word[of 10 "unat w"] by (simp add: t)
  qed
  ultimately show "ascii_to_dec m' dst = Some (ucast w)" using assms(1) by (auto simp: ascii_to_dec_def Let_def)
  show "n \<le> 20" using n len by (simp add: word_le_nat_alt u32_of_nat)
  show "n \<le> 10" if "unat w < 4294967296"
    using n len pdigits_length[of 10 "unat w" 9] that by (simp add: t word_le_nat_alt u32_of_nat)
qed

lemma clear_of_mono: "clear_of p n q k \<Longrightarrow> n' \<le> n \<Longrightarrow> k' \<le> k \<Longrightarrow> clear_of p n' q k'"
  unfolding clear_of_def using span_mono[of n' n p] span_mono[of k' k q] by blast

lemma copy_loop_cstr:
  assumes "cstr m c cs" and "cs \<noteq> []" and "clear_of buf (length cs) c (Suc (length cs))"
  shows "copy_loop buf c m = Some (write_bytes m buf cs)"
  using assms
proof (induction cs arbitrary: buf c m)
  case (Cons x xs)
  note h = clear_of_head[OF Cons.prems(3)[simplified]]
  define m1 where "m1 = m(buf := m c)"
  have x: "m c = x" and tail: "cstr m1 (c + 1) xs"
    using Cons.prems(1) h by (simp_all add: m1_def cstr_upd_clear)
  have step: "copy_loop buf c m = (if m1 (c + 1) \<noteq> 0 then copy_loop (buf + 1) (c + 1) m1 else Some m1)"
    by (subst copy_loop.simps) (simp only: Let_def m1_def)
  show ?case
  proof (cases "xs = []")
    case True
    then have "copy_loop buf c m = Some m1" using step tail by simp
    then show ?thesis by (simp only: True m1_def x write_bytes.simps)
  next
    case False
    then have "m1 (c + 1) \<noteq> 0" using tail by (cases xs) auto
    moreover have "copy_loop (buf + 1) (c + 1) m1 = Some (write_bytes m1 (buf + 1) xs)"
      using Cons.IH[OF tail False] h by blast
    ultimately have "copy_loop buf c m = Some (write_bytes m1 (buf + 1) xs)" using step by simp
    then show ?thesis by (simp only: m1_def x write_bytes.simps)
  qed
qed simp

lemma write_bytes_cstr:
  assumes "length cs < 4294967296" and "0 \<notin> set cs"
  shows "cstr (write_bytes m p (cs @ [0])) p cs"
  unfolding cstr_bytes using assms write_bytes_at[of "cs @ [0]" m p] by simp

subsection \<open>Properties\<close>

text \<open>C22: the decimal text of a 64-bit number, closed by a zero byte behind it, is read back by
  \<^verbatim>\<open>ascii_to_dec\<close>, whose result has 32 bits, as that number modulo \<open>2 ^ 32\<close>; it takes at most 20 characters, and at
  most 10 where the number has 32 bits. Without a buffer \<^verbatim>\<open>convert_number_to_string\<close> only counts, and counts the
  same as \<^verbatim>\<open>get_integrater_lenth\<close>.\<close>

theorem decimal_roundtrip:
  assumes "isValid dst" and "convert_number_to_string dst w m = Some (m', n)" and "m (dst + n) = 0"
  shows "ascii_to_dec m' dst = Some (ucast w) \<and> n \<le> 20 \<and> (unat w < 2 ^ 32 \<longrightarrow> n \<le> 10) \<and>
         convert_number_to_string 0 w m = Some (m, n) \<and> get_integrater_lenth w = n"
  using decimal_reads_back[OF assms] assms(1,2)
  by (auto simp: convert_number_to_string_eq get_integrater_lenth_eq)

theorem decimal_roundtrip_witness:
  "\<exists>m'. convert_number_to_string 4096 (ucast (90210 :: u32)) (\<lambda>_. 0) = Some (m', 5) \<and> ascii_to_dec m' 4096 = Some 90210"
proof -
  have t: "length (dec_text 90210) = 5" by (simp add: dec_text_def pdigits.simps)
  have v: "isValid 4096" by (simp add: isValid_iff)
  then obtain m' where m': "convert_number_to_string 4096 (ucast (90210 :: u32)) (\<lambda>_. 0) = Some (m', 5)"
    using t by (simp add: convert_number_to_string_eq)
  show ?thesis using decimal_roundtrip[OF v m'] m' by simp
qed

text \<open>C23: \<^verbatim>\<open>kstrlcpy\<close> returns the length of the source; a source that does not fit is cut to one character
  less than the space and closed by a zero byte, one that fits is copied without a zero byte, as
  \<^verbatim>\<open>kstrcpy\<close> copies every non-empty source.\<close>

theorem string_copy_ends:
  assumes "cstr m src cs" and "cs \<noteq> []" and "length cs < 4294967295"
    and "clear_of dst (Suc (length cs)) src (Suc (length cs))"
  shows "(\<exists>m'. kstrlcpy dst src n m = Some (m', of_nat (length cs)) \<and>
            (if n = 0 then m' = m
             else if unat n \<le> length cs then cstr m' dst (take (unat n - 1) cs)
             else bytes_at m' dst cs \<and> m' (dst + of_nat (length cs)) = m (dst + of_nat (length cs)))) \<and>
         (\<exists>m'. kstrcpy dst src m = Some (m', dst) \<and> bytes_at m' dst cs \<and>
               m' (dst + of_nat (length cs)) = m (dst + of_nat (length cs)))"
proof -
  have clear: "clear_of dst (length cs) src (Suc (length cs))"
    using assms(4) by (rule clear_of_mono) simp_all
  have z: "0 \<notin> set cs" using assms(1) by (simp add: cstr_def)
  have keep: "bytes_at (write_bytes m dst cs) dst cs"
    "write_bytes m dst cs (dst + of_nat (length cs)) = m (dst + of_nat (length cs))"
    using assms(3) write_bytes_at[of cs m dst] span_fresh[of "length cs" "length cs" dst] by (simp_all add: write_bytes_other)
  have cut: "cstr (write_bytes m dst (take (unat n - 1) cs @ [0])) dst (take (unat n - 1) cs)"
    using assms(3) z by (intro write_bytes_cstr) (auto dest: in_set_takeD)
  have "kstrlcpy dst src n m = Some (write_bytes m dst
      (if length cs < unat n then cs else if n = 0 then [] else take (unat n - 1) cs @ [0]), of_nat (length cs))"
    using n_copy_safe_loop_cstr[OF assms(1) clear, of n] assms(2)
    by (simp add: kstrlcpy_def do_string_n_copy_safe_def get_string_lenth_cstr[OF assms(1)])
  moreover have "kstrcpy dst src m = Some (write_bytes m dst cs, dst)"
    using copy_loop_cstr[OF assms(1,2) clear] by (simp add: kstrcpy_def do_string_copy_def)
  ultimately show ?thesis using keep cut by auto
qed

definition demo_text :: bmem where
  "demo_text = (\<lambda>p. if p = 0x100 then 97 else if p = 0x101 then 98 else if p = 0x102 then 99 else 0)"

lemma demo_text_str: "cstr demo_text 0x100 [97, 98, 99]"
  by (simp add: demo_text_def)

lemma demo_clear: "clear_of 0x200 (Suc (Suc (Suc (Suc 0)))) 0x100 (Suc (Suc (Suc (Suc 0))))"
  by (simp add: clear_of_def span_Suc)

theorem string_copy_ends_witness:
  "\<exists>m'. kstrlcpy 0x200 0x100 3 demo_text = Some (m', 3) \<and> cstr m' 0x200 [97, 98]"
  using string_copy_ends[OF demo_text_str, of "0x200" 3] demo_clear by auto

text \<open>C24: with a non-empty second argument, \<^verbatim>\<open>kstrcmp\<close> reports a difference exactly when it is not a prefix
  of the first, and \<^verbatim>\<open>kstrncmp\<close> with \<open>n > 0\<close> when its first \<open>n\<close> characters are not. The edges differ: an empty second
  argument differs from every non-empty first one, with \<open>n = 0\<close> \<^verbatim>\<open>kstrncmp\<close> always reports a difference, and two
  empty strings are compared behind their ends unless another zero byte follows the second.\<close>

theorem string_compare_prefix:
  assumes "cstr m p ps" and "cstr m q qs"
  shows "(if qs \<noteq> [] then kstrcmp m p q = Some (take (length qs) ps \<noteq> qs)
          else if ps \<noteq> [] then kstrcmp m p q = Some True
          else kstrcmp m p q = (if m (q + 1) = 0 then Some False else kstrcmp m (p + 1) (q + 1))) \<and>
         (if n = 0 then kstrncmp m p q n = Some True
          else if qs \<noteq> [] then kstrncmp m p q n = Some (take (min (unat n) (length qs)) ps \<noteq> take (unat n) qs)
          else if ps \<noteq> [] then kstrncmp m p q n = Some True
          else kstrncmp m p q n = (if m (q + 1) = 0 \<or> n = 1 then Some False else kstrncmp m (p + 1) (q + 1) (n - 1)))"
proof -
  have ends: "ps = [] \<longleftrightarrow> m p = 0" "qs = [] \<longleftrightarrow> m q = 0" using assms by (cases ps; cases qs; auto)+
  have 1: "qs \<noteq> [] \<Longrightarrow> kstrcmp m p q = Some (take (length qs) ps \<noteq> qs)"
    "n \<noteq> 0 \<Longrightarrow> qs \<noteq> [] \<Longrightarrow> kstrncmp m p q n = Some (take (min (unat n) (length qs)) ps \<noteq> take (unat n) qs)"
    using compare_loop_cstr[OF assms] n_compare_loop_cstr[OF assms]
    by (simp_all add: kstrcmp_def do_string_compare_def kstrncmp_def do_string_n_compare_def)
  have 2: "kstrcmp m p q = Some True" "n \<noteq> 0 \<Longrightarrow> kstrncmp m p q n = Some True" if "qs = []" "ps \<noteq> []"
    using that ends unfolding kstrcmp_def do_string_compare_def kstrncmp_def do_string_n_compare_def
    by (simp_all add: compare_loop.simps[of m p q] n_compare_loop.simps[of m p q n])
  have 3: "kstrcmp m p q = (if m (q + 1) = 0 then Some False else kstrcmp m (p + 1) (q + 1))"
    "n \<noteq> 0 \<Longrightarrow> kstrncmp m p q n = (if m (q + 1) = 0 \<or> n = 1 then Some False else kstrncmp m (p + 1) (q + 1) (n - 1))"
    if "qs = []" "ps = []"
    using that ends unfolding kstrcmp_def do_string_compare_def kstrncmp_def do_string_n_compare_def
    by (simp_all add: compare_loop.simps[of m p q] n_compare_loop.simps[of m p q n])
  have 4: "kstrncmp m p q 0 = Some True" by (simp add: kstrncmp_def do_string_n_compare_def)
  show ?thesis using 1 2 3 4 by (cases "n = 0"; cases "qs = []"; cases "ps = []") simp_all
qed

theorem string_compare_prefix_witness:
  "kstrcmp (demo_text(0x200 := 97)) 0x100 0x200 = Some False \<and>
   kstrncmp (demo_text(0x200 := 97)) 0x100 0x200 2 = Some False \<and> kstrncmp (demo_text(0x200 := 97)) 0x100 0x200 0 = Some True"
  using string_compare_prefix[of "demo_text(0x200 := 97)" "0x100" "[97, 98, 99]" "0x200" "[97]" 2]
    string_compare_prefix[of "demo_text(0x200 := 97)" "0x100" "[97, 98, 99]" "0x200" "[97]" 0]
  by (simp add: demo_text_def)

end
