(* ===== verification/Fmt.thy ===== *)
theory Fmt
  imports Api_String Mempool
begin

text \<open>
  The formatted output of \<^verbatim>\<open>common/generic/api_string.c\<close>: \<^verbatim>\<open>do_fmt_convert\<close> and the functions that
  call it. The variable arguments are a list of 32- and 64-bit values; taking one of the wrong
  width, or one too many, has no defined result. Indices and lengths have the widths of the
  source.
\<close>

datatype fmt_arg = A32 u32 | A64 u64

fun va_arg32 :: "fmt_arg list \<Rightarrow> (u32 \<times> fmt_arg list) option" where
  "va_arg32 (A32 w # args) = Some (w, args)"
| "va_arg32 _ = None"

fun va_arg64 :: "fmt_arg list \<Rightarrow> (u64 \<times> fmt_arg list) option" where
  "va_arg64 (A64 w # args) = Some (w, args)"
| "va_arg64 _ = None"

record fmt_state =
  fm :: bmem
  fdata :: u32
  flen :: u32
  fi :: u64
  fargs :: "fmt_arg list"

text \<open>The cases of the switch, with \<open>sz\<close> the space left for characters. Where a text does not fit, the
  \<^verbatim>\<open>break\<close> leaves the switch only.\<close>

definition put_char :: "u32 \<Rightarrow> u8 \<Rightarrow> fmt_state \<Rightarrow> fmt_state" where
  "put_char buf c s =
     (let s = (if isValid buf then s\<lparr>fm := (fm s)(fdata s := c), fdata := fdata s + 1\<rparr> else s)
      in s\<lparr>flen := flen s + 1\<rparr>)"

definition advance :: "u32 \<Rightarrow> u32 \<Rightarrow> fmt_state \<Rightarrow> fmt_state" where
  "advance buf count s =
     (let s = (if isValid buf then s\<lparr>fdata := fdata s + count\<rparr> else s) in s\<lparr>flen := flen s + count\<rparr>)"

definition fmt_char :: "u32 \<Rightarrow> u32 \<Rightarrow> fmt_state \<Rightarrow> fmt_state option" where
  "fmt_char buf sz s = do {
     (num, args) \<leftarrow> va_arg32 (fargs s);
     let s = s\<lparr>fargs := args\<rparr>;
     Some (if flen s + 1 > sz then s else put_char buf (ucast num) s)
   }"

definition fmt_dec :: "u32 \<Rightarrow> u32 \<Rightarrow> fmt_state \<Rightarrow> fmt_state option" where
  "fmt_dec buf sz s = do {
     (num, args) \<leftarrow> va_arg32 (fargs s);
     let s = s\<lparr>fargs := args\<rparr>;
     (m, count) \<leftarrow> convert_number_to_string 0 (ucast num) (fm s);
     if flen s + count > sz then Some s
     else do {
       (m, _) \<leftarrow> convert_number_to_string (fdata s) (ucast num) (fm s);
       Some (advance buf count (s\<lparr>fm := m\<rparr>))
     }
   }"

definition fmt_percent :: "u32 \<Rightarrow> u32 \<Rightarrow> fmt_state \<Rightarrow> fmt_state" where
  "fmt_percent buf sz s =
     (if flen s + 1 > sz then s else (let s = put_char buf 37 s in s\<lparr>fi := fi s - 1\<rparr>))"

definition fmt_long :: "u32 \<Rightarrow> u32 \<Rightarrow> u32 \<Rightarrow> fmt_state \<Rightarrow> fmt_state option" where
  "fmt_long buf fmt sz s =
     (if fm s (fmt + ucast (fi s) + 1) = 100 then do {
        (num, args) \<leftarrow> va_arg64 (fargs s);
        let s = s\<lparr>fargs := args\<rparr>;
        (m, count) \<leftarrow> convert_number_to_string 0 num (fm s);
        if flen s + count > sz then Some s
        else do {
          s \<leftarrow> (if isValid buf then do {
                    (m, _) \<leftarrow> convert_number_to_string (fdata s) num (fm s);
                    Some (s\<lparr>fm := m, fdata := fdata s + count\<rparr>)
                  } else Some s);
          Some (s\<lparr>fi := fi s + 1, flen := flen s + count\<rparr>)
        }
      }
      else Some (fmt_percent buf sz s))"

definition fmt_str :: "u32 \<Rightarrow> u32 \<Rightarrow> fmt_state \<Rightarrow> fmt_state option" where
  "fmt_str buf sz s = do {
     (p, args) \<leftarrow> va_arg32 (fargs s);
     let s = s\<lparr>fargs := args\<rparr>;
     count \<leftarrow> get_string_lenth (fm s) p;
     if flen s + count > sz then Some s
     else do {
       s \<leftarrow> (if isValid buf then do {
                 m \<leftarrow> do_string_split (fdata s) 0 p (fm s);
                 Some (s\<lparr>fm := m, fdata := fdata s + count\<rparr>)
               } else Some s);
       Some (s\<lparr>flen := flen s + count\<rparr>)
     }
   }"

definition fmt_hex :: "u32 \<Rightarrow> u32 \<Rightarrow> fmt_state \<Rightarrow> fmt_state option" where
  "fmt_hex buf sz s = do {
     (num, args) \<leftarrow> va_arg32 (fargs s);
     let s = s\<lparr>fargs := args\<rparr>;
     let count = snd (dec_to_hex 0 num False (fm s));
     Some (if flen s + count > sz then s
           else advance buf count (s\<lparr>fm := fst (dec_to_hex (fdata s) num False (fm s))\<rparr>))
   }"

definition fmt_bin :: "u32 \<Rightarrow> u32 \<Rightarrow> fmt_state \<Rightarrow> fmt_state option" where
  "fmt_bin buf sz s = do {
     (num, args) \<leftarrow> va_arg32 (fargs s);
     let s = s\<lparr>fargs := args\<rparr>;
     let count = snd (dec_to_binary 0 num (fm s));
     Some (if flen s + count > sz then s
           else advance buf count (s\<lparr>fm := fst (dec_to_binary (fdata s) num (fm s))\<rparr>))
   }"

definition fmt_switch :: "u32 \<Rightarrow> u32 \<Rightarrow> u32 \<Rightarrow> u8 \<Rightarrow> fmt_state \<Rightarrow> fmt_state option" where
  "fmt_switch buf fmt sz ch s =
     (if ch = 99 then fmt_char buf sz s
      else if ch = 100 then fmt_dec buf sz s
      else if ch = 108 then fmt_long buf fmt sz s
      else if ch = 115 then fmt_str buf sz s
      else if ch = 120 \<or> ch = 112 then fmt_hex buf sz s
      else if ch = 98 then fmt_bin buf sz s
      else Some (fmt_percent buf sz s))"

text \<open>One round of the loop; \<open>False\<close> is the \<^verbatim>\<open>break\<close> that ends it.\<close>

definition fmt_round :: "u32 \<Rightarrow> u32 \<Rightarrow> u32 \<Rightarrow> u32 \<Rightarrow> fmt_state \<Rightarrow> (fmt_state \<times> bool) option" where
  "fmt_round buf level fmt sz s =
     (let ch = fm s (fmt + ucast (fi s)) in
      if fi s = 0 \<and> ch = 1 then
        (let s = s\<lparr>fi := fi s + 1\<rparr>;
             s = (if level \<noteq> 0 then
                    s\<lparr>fm := (fm s)(level := 1, level + 1 := ((fm s)(level := 1)) (fmt + ucast (fi s)))\<rparr>
                  else s)
         in Some (s, True))
      else if ch \<noteq> 37 then
        Some (if flen s + 1 > sz then (s, False) else (put_char buf ch s, True))
      else do {
        let s = s\<lparr>fi := fi s + 1\<rparr>;
        s \<leftarrow> fmt_switch buf fmt sz (fm s (fmt + ucast (fi s))) s;
        Some (s, True)
      })"

partial_function (option) fmt_loop :: "u32 \<Rightarrow> u32 \<Rightarrow> u32 \<Rightarrow> u32 \<Rightarrow> fmt_state \<Rightarrow> fmt_state option" where
  "fmt_loop buf level fmt sz s =
     (if fm s (fmt + ucast (fi s)) = 0 then Some s
      else do {
        (s, more) \<leftarrow> fmt_round buf level fmt sz s;
        if more then fmt_loop buf level fmt sz (s\<lparr>fi := fi s + 1\<rparr>) else Some s
      })"

definition do_fmt_convert ::
  "u32 \<Rightarrow> u32 \<Rightarrow> u32 \<Rightarrow> fmt_arg list \<Rightarrow> u32 \<Rightarrow> bmem \<Rightarrow> (bmem \<times> u32) option" where
  "do_fmt_convert buf level fmt args sz m =
     (if sz < 1 then Some (m, 0)
      else do {
        s \<leftarrow> fmt_loop buf level fmt (sz - 1) \<lparr>fm = m, fdata = buf, flen = 0, fi = 0, fargs = args\<rparr>;
        Some (if isValid buf then (fm s)(fdata s := 0) else fm s, flen s)
      })"

text \<open>The callers: with a buffer of the caller, and with a buffer from the kernel heap that the first pass
  measures.\<close>

definition vasprintk :: "u32 \<Rightarrow> u32 \<Rightarrow> fmt_arg list \<Rightarrow> bmem \<Rightarrow> (bmem \<times> u32) option" where
  "vasprintk buf fmt args m = do_fmt_convert buf 0 fmt args (NOT 0) m"

definition sprintk :: "u32 \<Rightarrow> u32 \<Rightarrow> fmt_arg list \<Rightarrow> bmem \<Rightarrow> (bmem \<times> u32) option" where
  "sprintk buf fmt args m = do_fmt_convert buf 0 fmt args (NOT 0) m"

definition lv_vasprintk_safe ::
  "u32 \<Rightarrow> u32 \<Rightarrow> fmt_arg list \<Rightarrow> mempool_sys \<times> bmem \<Rightarrow> ((mempool_sys \<times> bmem) \<times> u32 \<times> u32) option" where
  "lv_vasprintk_safe fmt lv args = (\<lambda>(h, m).
     if fmt = 0 then Some ((h, m), 0, 0)
     else do {
       (m, lenth) \<leftarrow> do_fmt_convert 0 0 fmt args (NOT 0) m;
       (h, ptr) \<leftarrow> kmalloc (lenth + 1) GFP_KERNEL h;
       if \<not> isValid ptr then Some ((h, m), 0, 0)
       else do {
         (m, _) \<leftarrow> do_fmt_convert ptr lv fmt args (lenth + 1) m;
         Some ((h, m), ptr, lenth)
       }
     })"

definition vasprintk_safe ::
  "u32 \<Rightarrow> fmt_arg list \<Rightarrow> mempool_sys \<times> bmem \<Rightarrow> ((mempool_sys \<times> bmem) \<times> u32 \<times> u32) option" where
  "vasprintk_safe fmt args = (\<lambda>(h, m).
     if fmt = 0 then Some ((h, m), 0, 0)
     else do {
       (m, lenth) \<leftarrow> do_fmt_convert 0 0 fmt args (NOT 0) m;
       (h, ptr) \<leftarrow> kmalloc (lenth + 1) GFP_KERNEL h;
       if \<not> isValid ptr then Some ((h, m), 0, 0)
       else do {
         (m, _) \<leftarrow> do_fmt_convert ptr 0 fmt args (lenth + 1) m;
         Some ((h, m), ptr, lenth)
       }
     })"

definition sprintk_safe ::
  "u32 \<Rightarrow> fmt_arg list \<Rightarrow> mempool_sys \<times> bmem \<Rightarrow> ((mempool_sys \<times> bmem) \<times> u32) option" where
  "sprintk_safe fmt args = (\<lambda>(h, m).
     if fmt = 0 then Some ((h, m), 0)
     else do {
       (m, lenth) \<leftarrow> do_fmt_convert 0 0 fmt args (NOT 0) m;
       (h, ptr) \<leftarrow> kmalloc (lenth + 1) GFP_KERNEL h;
       if \<not> isValid ptr then Some ((h, m), 0)
       else do {
         (m, _) \<leftarrow> do_fmt_convert ptr 0 fmt args (lenth + 1) m;
         Some ((h, m), ptr)
       }
     })"

definition fmt_free :: "u32 \<Rightarrow> mempool_sys \<Rightarrow> mempool_sys option" where
  "fmt_free ptr h = (if ptr \<noteq> 0 then kfree ptr h else Some h)"

subsection \<open>What a format means\<close>

text \<open>
  \<open>fmt_text S F args\<close> is the text of the format \<open>F\<close>; \<open>S\<close> gives the strings at the pointers that
  \<^verbatim>\<open>%s\<close> takes. A \<^verbatim>\<open>%\<close> that starts no conversion stands for itself and the character behind it is
  read again.
\<close>

definition hex_text :: "u32 \<Rightarrow> u8 list" where
  "hex_text w = [48, 120] @ map (\<lambda>d. hex_char False (of_nat d)) (rev (pdigits 16 (unat w)))"

definition bin_text :: "u32 \<Rightarrow> u8 list" where
  "bin_text w = [48, 98] @ map (\<lambda>d. of_nat d + 48) (rev (pdigits 2 (unat w)))"

function fmt_text :: "(u32 \<Rightarrow> u8 list option) \<Rightarrow> u8 list \<Rightarrow> fmt_arg list \<Rightarrow> u8 list option" where
  "fmt_text S [] args = Some []"
| "fmt_text S [c] args = Some [c]"
| "fmt_text S (c # d # F) args =
     (if c \<noteq> 37 then map_option (Cons c) (fmt_text S (d # F) args)
      else if d = 99 then do { (w, args) \<leftarrow> va_arg32 args; t \<leftarrow> fmt_text S F args; Some (ucast w # t) }
      else if d = 100 then do { (w, args) \<leftarrow> va_arg32 args; t \<leftarrow> fmt_text S F args; Some (dec_text (ucast w) @ t) }
      else if d = 108 \<and> F \<noteq> [] \<and> List.hd F = 100 then
        do { (w, args) \<leftarrow> va_arg64 args; t \<leftarrow> fmt_text S (List.tl F) args; Some (dec_text w @ t) }
      else if d = 115 then
        do { (p, args) \<leftarrow> va_arg32 args; cs \<leftarrow> S p; t \<leftarrow> fmt_text S F args; Some (cs @ t) }
      else if d = 120 \<or> d = 112 then do { (w, args) \<leftarrow> va_arg32 args; t \<leftarrow> fmt_text S F args; Some (hex_text w @ t) }
      else if d = 98 then do { (w, args) \<leftarrow> va_arg32 args; t \<leftarrow> fmt_text S F args; Some (bin_text w @ t) }
      else map_option (Cons 37) (fmt_text S (d # F) args))"
  by pat_completeness auto
termination by (relation "measure (\<lambda>(_, F, _). length F)") auto

declare fmt_text.simps(3) [simp del]

text \<open>The effect of writing \<open>t\<close> where the output stands.\<close>

definition emit :: "u32 \<Rightarrow> u8 list \<Rightarrow> fmt_state \<Rightarrow> fmt_state" where
  "emit buf t s = s\<lparr>fm := (if isValid buf then write_bytes (fm s) (fdata s) t else fm s),
     fdata := (if isValid buf then fdata s + of_nat (length t) else fdata s),
     flen := flen s + of_nat (length t)\<rparr>"

lemma emit_emit: "emit buf u (emit buf t s) = emit buf (t @ u) s"
  by (simp add: emit_def write_bytes_append algebra_simps)

lemma emit_sel [simp]: "fargs (emit buf t s) = fargs s" "fi (emit buf t s) = fi s"
  "flen (emit buf t s) = flen s + of_nat (length t)"
  by (simp_all add: emit_def)

lemma emit_upd [simp]:
  "emit buf t (s\<lparr>fi := i\<rparr>) = (emit buf t s)\<lparr>fi := i\<rparr>"
  "emit buf t (s\<lparr>fargs := a\<rparr>) = (emit buf t s)\<lparr>fargs := a\<rparr>"
  by (simp_all add: emit_def)

lemma put_char_emit: "put_char buf c s = emit buf [c] s"
  by (simp add: put_char_def emit_def Let_def)

text \<open>
  The state of the loop: the output stands at the end of what is written, and the format and
  the strings are where they were. \<open>n\<close> is the space for characters.
\<close>

definition fmt_ok :: "u32 \<Rightarrow> nat \<Rightarrow> u32 \<Rightarrow> u8 list \<Rightarrow> (u32 \<Rightarrow> u8 list option) \<Rightarrow> fmt_state \<Rightarrow> bool" where
  "fmt_ok buf n fmt F S s \<longleftrightarrow>
     (if isValid buf then fdata s = buf + flen s else buf = 0 \<and> fdata s = 0) \<and>
     cstr (fm s) fmt F \<and> (\<forall>p cs. S p = Some cs \<longrightarrow> cstr (fm s) p cs)"

text \<open>The buffer is in the range of valid pointers and shares no byte with the format or the strings.\<close>

definition fmt_room :: "u32 \<Rightarrow> nat \<Rightarrow> u32 \<Rightarrow> u8 list \<Rightarrow> (u32 \<Rightarrow> u8 list option) \<Rightarrow> bool" where
  "fmt_room buf n fmt F S \<longleftrightarrow> n < 4294967296 \<and> length F < 4294967296 \<and>
     (isValid buf \<longrightarrow> unat buf + n < 4294963200 \<and> clear_of buf (Suc n) fmt (Suc (length F)) \<and>
        (\<forall>p cs. S p = Some cs \<longrightarrow> clear_of buf (Suc n) p (Suc (length cs)))) \<and>
     (\<forall>p cs. S p = Some cs \<longrightarrow> length cs < 4294967296)"

lemma clear_of_offset:
  assumes "clear_of buf n q k" and "i + j \<le> n"
  shows "clear_of (buf + of_nat i) j q k"
  using assms span_sub[of i j n buf] by (auto simp: clear_of_def)

lemma cstr_write_clear:
  assumes "cstr m q cs" and "clear_of p (length t) q (Suc (length cs))"
  shows "cstr (write_bytes m p t) q cs"
proof -
  have "write_bytes m p t r = m r" if "r \<in> span q (Suc (length cs))" for r
    using that assms(2) by (intro write_bytes_other) (auto simp: clear_of_def)
  then show ?thesis using assms(1) cstr_cong[of q cs "write_bytes m p t" m] by blast
qed

lemma u32_len: "unat l + k \<le> n \<Longrightarrow> n < 4294967296 \<Longrightarrow> unat (l + of_nat k :: u32) = unat l + k"
  by (simp add: u32_add u32_of_nat)

lemma fmt_ok_emit:
  assumes ok: "fmt_ok buf n fmt F S s" and room: "fmt_room buf n fmt F S" and fit: "unat (flen s) + length t \<le> n"
  shows "fmt_ok buf n fmt F S (emit buf t s)"
proof (cases "isValid buf")
  case True
  have d: "fdata s = buf + of_nat (unat (flen s))" using ok True by (simp add: fmt_ok_def)
  have cl: "clear_of (fdata s) (length t) q k" if "clear_of buf (Suc n) q k" for q k
    unfolding d using clear_of_offset[OF that, of "unat (flen s)" "length t"] fit by simp
  have "cstr (write_bytes (fm s) (fdata s) t) fmt F"
    using ok room True cl by (intro cstr_write_clear) (auto simp: fmt_ok_def fmt_room_def)
  moreover have "\<forall>p cs. S p = Some cs \<longrightarrow> cstr (write_bytes (fm s) (fdata s) t) p cs"
    using ok room True cl by (auto simp: fmt_ok_def fmt_room_def intro!: cstr_write_clear)
  ultimately show ?thesis using ok True by (simp add: fmt_ok_def emit_def algebra_simps)
next
  case False
  then show ?thesis using ok by (simp add: fmt_ok_def emit_def)
qed

lemma fits: "unat (flen s) + k \<le> unat sz \<Longrightarrow> \<not> flen s + of_nat k > sz"
  using u32_len[of "flen s" k "unat sz"] u32_less[of sz] by (simp add: word_less_nat_alt)

subsection \<open>The conversions write their text\<close>

lemma dec_to_hex_write:
  "dec_to_hex p w False m = (if p = 0 then m else write_bytes m p (hex_text w), of_nat (length (hex_text w)))"
  by (simp add: dec_to_hex_def hex_digits_eq put_reversed_write hex_text_def Let_def rev_map algebra_simps)

lemma dec_to_binary_write:
  "dec_to_binary p w m = (if p = 0 then m else write_bytes m p (bin_text w), of_nat (length (bin_text w)))"
  by (simp add: dec_to_binary_def bin_digits_eq put_reversed_write bin_text_def Let_def rev_map algebra_simps)

lemma fdata_valid:
  assumes "fmt_ok buf n fmt F S s" and "fmt_room buf n fmt F S" and "unat (flen s) \<le> n"
  shows "isValid (fdata s) = isValid buf" and "fdata s = 0 \<longleftrightarrow> \<not> isValid buf"
proof -
  have "isValid (fdata s) \<and> fdata s \<noteq> 0" if "isValid buf"
  proof -
    have "unat (fdata s) = unat buf + unat (flen s)" "unat buf + n < 4294963200" "0 < unat buf"
      using assms that by (auto simp: fmt_ok_def fmt_room_def u32_add isValid_iff)
    then show ?thesis using assms(3) by (auto simp: isValid_iff)
  qed
  moreover have "fdata s = 0" if "\<not> isValid buf" using assms(1) that by (simp add: fmt_ok_def)
  ultimately show "isValid (fdata s) = isValid buf" "fdata s = 0 \<longleftrightarrow> \<not> isValid buf"
    by (cases "isValid buf"; simp)+
qed

lemma advance_emit:
  assumes "m = (if isValid buf then write_bytes (fm s) (fdata s) t else fm s)"
  shows "advance buf (of_nat (length t)) (s\<lparr>fm := m\<rparr>) = emit buf t s"
  using assms by (simp add: advance_def emit_def Let_def)

lemma fmt_dec_emit:
  assumes "fmt_ok buf n fmt F S s" and "fmt_room buf n fmt F S" "n \<le> unat sz"
    and "va_arg32 (fargs s) = Some (w, r)" and "unat (flen s) + length (dec_text (ucast w)) \<le> n"
  shows "fmt_dec buf sz s = Some (emit buf (dec_text (ucast w)) (s\<lparr>fargs := r\<rparr>))"
  using assms(4) fits[OF order.trans[OF assms(5,3)]] fdata_valid[OF assms(1,2)] assms(5)
  by (simp add: fmt_dec_def convert_number_to_string_eq advance_def emit_def Let_def)

lemma fmt_long_emit:
  assumes "fmt_ok buf n fmt F S s" and "fmt_room buf n fmt F S" "n \<le> unat sz"
    and "fm s (fmt + ucast (fi s) + 1) = 100"
    and "va_arg64 (fargs s) = Some (w, r)" and "unat (flen s) + length (dec_text w) \<le> n"
  shows "fmt_long buf fmt sz s = Some (emit buf (dec_text w) (s\<lparr>fargs := r, fi := fi s + 1\<rparr>))"
  using assms(4,5) fits[OF order.trans[OF assms(6,3)]] fdata_valid[OF assms(1,2)] assms(6)
  by (simp add: fmt_long_def convert_number_to_string_eq emit_def Let_def)

lemma fmt_str_emit:
  assumes ok: "fmt_ok buf n fmt F S s" and room: "fmt_room buf n fmt F S" "n \<le> unat sz"
    and arg: "va_arg32 (fargs s) = Some (p, r)" "S p = Some cs" and fit: "unat (flen s) + length cs \<le> n"
  shows "fmt_str buf sz s = Some (emit buf cs (s\<lparr>fargs := r\<rparr>))"
proof -
  have str: "cstr (fm s) p cs" using ok arg(2) by (simp add: fmt_ok_def)
  have "do_string_split (fdata s) 0 p (fm s) = Some (write_bytes (fm s) (fdata s) cs)" if "isValid buf"
  proof -
    have d: "fdata s = buf + of_nat (unat (flen s))" using ok that by (simp add: fmt_ok_def)
    have "clear_of buf (Suc n) p (Suc (length cs))" using room arg(2) that by (simp add: fmt_room_def)
    then have "clear_of (fdata s) (length cs) p (Suc (length cs))"
      unfolding d using fit by (intro clear_of_offset[where n = "Suc n"]) simp_all
    then show ?thesis using do_string_split_cstr[OF str, of "fdata s" 0] by simp
  qed
  then show ?thesis using arg(1) get_string_lenth_cstr[OF str] fits[OF order.trans[OF fit room(2)]]
    by (simp add: fmt_str_def emit_def Let_def)
qed

lemma fmt_hex_emit:
  assumes "fmt_ok buf n fmt F S s" and "fmt_room buf n fmt F S" "n \<le> unat sz"
    and "va_arg32 (fargs s) = Some (w, r)" and "unat (flen s) + length (hex_text w) \<le> n"
  shows "fmt_hex buf sz s = Some (emit buf (hex_text w) (s\<lparr>fargs := r\<rparr>))"
  using assms(4) fits[OF order.trans[OF assms(5,3)]] fdata_valid[OF assms(1,2)] assms(5)
  by (simp add: fmt_hex_def dec_to_hex_write advance_def emit_def Let_def)

lemma fmt_bin_emit:
  assumes "fmt_ok buf n fmt F S s" and "fmt_room buf n fmt F S" "n \<le> unat sz"
    and "va_arg32 (fargs s) = Some (w, r)" and "unat (flen s) + length (bin_text w) \<le> n"
  shows "fmt_bin buf sz s = Some (emit buf (bin_text w) (s\<lparr>fargs := r\<rparr>))"
  using assms(4) fits[OF order.trans[OF assms(5,3)]] fdata_valid[OF assms(1,2)] assms(5)
  by (simp add: fmt_bin_def dec_to_binary_write advance_def emit_def Let_def)

lemma fmt_char_emit:
  assumes "va_arg32 (fargs s) = Some (w, r)" and "unat (flen s) + 1 \<le> unat sz"
  shows "fmt_char buf sz s = Some (emit buf [ucast w] (s\<lparr>fargs := r\<rparr>))"
  using assms(1) fits[of s 1 sz] assms(2) by (simp add: fmt_char_def put_char_emit Let_def)

lemma fmt_percent_emit:
  assumes "unat (flen s) + 1 \<le> unat sz"
  shows "fmt_percent buf sz s = emit buf [37] (s\<lparr>fi := fi s - 1\<rparr>)"
  using fits[of s 1 sz] assms by (simp add: fmt_percent_def put_char_emit Let_def)

subsection \<open>The loop\<close>

definition fmt_done :: "u32 \<Rightarrow> u8 list \<Rightarrow> fmt_state \<Rightarrow> fmt_state \<Rightarrow> bool" where
  "fmt_done buf t s s' \<longleftrightarrow>
     fm s' = fm (emit buf t s) \<and> fdata s' = fdata (emit buf t s) \<and> flen s' = flen (emit buf t s)"

text \<open>From any point of the format the loop ends, having written the text of what is left.\<close>

definition fmt_runs :: "u32 \<Rightarrow> u32 \<Rightarrow> nat \<Rightarrow> u32 \<Rightarrow> u8 list \<Rightarrow> (u32 \<Rightarrow> u8 list option) \<Rightarrow> u8 list \<Rightarrow> fmt_arg list \<Rightarrow> bool" where
  "fmt_runs buf fmt n sz F S R args \<longleftrightarrow>
     (\<forall>F1 s t. fmt_text S R args = Some t \<longrightarrow> F = F1 @ R \<longrightarrow> fmt_ok buf n fmt F S s \<longrightarrow>
        fi s = of_nat (length F1) \<longrightarrow> fargs s = args \<longrightarrow> (F1 = [] \<longrightarrow> R = [] \<or> List.hd R \<noteq> 1) \<longrightarrow>
        unat (flen s) + length t \<le> n \<longrightarrow>
        (\<exists>s'. fmt_loop buf 0 fmt sz s = Some s' \<and> fmt_done buf t s s'))"

lemma cstr_suffix: "cstr m p (xs @ ys) \<Longrightarrow> cstr m (p + of_nat (length xs)) ys"
  by (simp add: cstr_def bytes_at_append algebra_simps)

lemma ucast_index: "k < 4294967296 \<Longrightarrow> ucast (of_nat k :: u64) = (of_nat k :: u32)"
  by (simp add: unsigned_of_nat take_bit_nat_eq_self)

lemma index_zero: "k < 4294967296 \<Longrightarrow> (of_nat k :: u64) = 0 \<longleftrightarrow> k = 0"
proof -
  assume "k < 4294967296"
  then have "unat (of_nat k :: u64) = k" by (simp add: unsigned_of_nat take_bit_nat_eq_self)
  then show ?thesis using unat_eq_zero[of "of_nat k :: u64"] by simp
qed

lemma fmt_done_emit:
  "fmt_done buf u ((emit buf t s)\<lparr>fargs := r, fi := i\<rparr>) s' \<Longrightarrow> fmt_done buf (t @ u) s s'"
  unfolding fmt_done_def emit_emit[symmetric] by (simp add: emit_def)

lemma fmt_continue:
  assumes runs: "fmt_runs buf fmt n sz F S R r" and room: "fmt_room buf n fmt F S" "n \<le> unat sz"
    and ok: "fmt_ok buf n fmt F S s" and F: "F = F1 @ pre @ R" and pre: "pre \<noteq> []"
    and c: "fm s (fmt + ucast (fi s)) \<noteq> 0"
    and round: "fmt_round buf 0 fmt sz s = Some (s1, True)"
    and s1: "s1\<lparr>fi := fi s1 + 1\<rparr> = (emit buf t s)\<lparr>fargs := r, fi := of_nat (length (F1 @ pre))\<rparr>"
    and u: "fmt_text S R r = Some u" and fit: "unat (flen s) + length (t @ u) \<le> n"
  shows "\<exists>s'. fmt_loop buf 0 fmt sz s = Some s' \<and> fmt_done buf (t @ u) s s'"
proof -
  let ?s2 = "(emit buf t s)\<lparr>fargs := r, fi := of_nat (length (F1 @ pre))\<rparr>"
  have "fmt_ok buf n fmt F S (emit buf t s)" using ok room fit by (intro fmt_ok_emit) simp_all
  then have ok2: "fmt_ok buf n fmt F S ?s2" by (simp add: fmt_ok_def)
  have len: "unat (flen ?s2) + length u \<le> n"
    using u32_len[of "flen s" "length t" n] room(1) fit by (simp add: fmt_room_def)
  have "\<exists>s'. fmt_loop buf 0 fmt sz ?s2 = Some s' \<and> fmt_done buf u ?s2 s'"
    using runs[unfolded fmt_runs_def, rule_format, of u "F1 @ pre" ?s2] u F ok2 pre len by simp
  then obtain s' where "fmt_loop buf 0 fmt sz ?s2 = Some s'" "fmt_done buf u ?s2 s'" by blast
  moreover have "fmt_loop buf 0 fmt sz s = fmt_loop buf 0 fmt sz ?s2"
    using c round s1 by (subst fmt_loop.simps) simp
  ultimately show ?thesis using fmt_done_emit by auto
qed

lemma fmt_runs_Nil:
  assumes room: "fmt_room buf n fmt F S" "n \<le> unat sz"
  shows "fmt_runs buf fmt n sz F S [] args"
  unfolding fmt_runs_def
proof (intro allI impI)
  fix F1 s t
  assume a: "fmt_text S [] args = Some t" "F = F1 @ []" "fmt_ok buf n fmt F S s" "fi s = of_nat (length F1)"
  have "length F < 4294967296" using room by (simp add: fmt_room_def)
  then have "fm s (fmt + ucast (fi s)) = 0"
    using a cstr_suffix[of "fm s" fmt F1 "[]"] by (simp add: fmt_ok_def ucast_index)
  then have "fmt_loop buf 0 fmt sz s = Some s" by (subst fmt_loop.simps) simp
  then show "\<exists>s'. fmt_loop buf 0 fmt sz s = Some s' \<and> fmt_done buf t s s'"
    using a(1) by (simp add: fmt_done_def emit_def)
qed

lemma fmt_point:
  assumes "fmt_room buf n fmt F S" "n \<le> unat sz" and "fmt_ok buf n fmt F S s"
    and "F = F1 @ c # R" and "fi s = of_nat (length F1)"
  shows "fm s (fmt + ucast (fi s)) = c" and "c \<noteq> 0"
    and "cstr (fm s) (fmt + ucast (fi s + 1)) R"
proof -
  have len: "length F < 4294967296" using assms(1) by (simp add: fmt_room_def)
  have str: "cstr (fm s) fmt (F1 @ c # R)" using assms(3,4) by (simp add: fmt_ok_def)
  show "fm s (fmt + ucast (fi s)) = c" "c \<noteq> 0"
    using cstr_suffix[OF str] len assms(4,5) by (simp_all add: ucast_index)
  have "cstr (fm s) (fmt + of_nat (Suc (length F1))) R"
    using cstr_suffix[of "fm s" fmt "F1 @ [c]" R] str by simp
  moreover have "fi s + 1 = of_nat (Suc (length F1))" using assms(5) by simp
  ultimately show "cstr (fm s) (fmt + ucast (fi s + 1)) R"
    using len assms(4) ucast_index[of "Suc (length F1)"] by (simp del: of_nat_Suc)
qed

lemma fmt_round_plain:
  assumes "fm s (fmt + ucast (fi s)) = c" and "c \<noteq> 37" and "\<not> (fi s = 0 \<and> c = 1)" and "unat (flen s) + 1 \<le> unat sz"
  shows "fmt_round buf 0 fmt sz s = Some (emit buf [c] s, True)"
  using assms fits[of s 1 sz] by (auto simp: fmt_round_def Let_def put_char_emit)

lemma fmt_round_percent:
  assumes "fm s (fmt + ucast (fi s)) = 37" and "fm s (fmt + ucast (fi s + 1)) = d"
    and "fmt_switch buf fmt sz d (s\<lparr>fi := fi s + 1\<rparr>) = Some s1"
  shows "fmt_round buf 0 fmt sz s = Some (s1, True)"
  using assms by (simp add: fmt_round_def Let_def)

lemma fmt_conversion:
  assumes room: "fmt_room buf n fmt F S" "n \<le> unat sz" and ok: "fmt_ok buf n fmt F S s"
    and F: "F = F1 @ 37 # d # R" "F = F1 @ pre @ R'" "pre \<noteq> []" and i: "fi s = of_nat (length F1)"
    and runs: "fmt_runs buf fmt n sz F S R' r"
    and sw: "fmt_switch buf fmt sz d (s\<lparr>fi := fi s + 1\<rparr>) =
      Some ((emit buf t s)\<lparr>fi := of_nat (length (F1 @ pre)) - 1, fargs := r\<rparr>)"
    and u: "fmt_text S R' r = Some u" and fit: "unat (flen s) + length (t @ u) \<le> n"
  shows "\<exists>s'. fmt_loop buf 0 fmt sz s = Some s' \<and> fmt_done buf (t @ u) s s'"
proof -
  note pt = fmt_point[OF room ok F(1) i]
  have "fm s (fmt + ucast (fi s + 1)) = d" using pt(3) by simp
  note round = fmt_round_percent[OF pt(1) this sw]
  have c: "fm s (fmt + ucast (fi s)) \<noteq> 0" using pt(1) by simp
  show ?thesis
    by (rule fmt_continue[OF runs room ok F(2) F(3) c round _ u fit]) simp
qed

lemma fmt_runs_percent:
  assumes room: "fmt_room buf n fmt F S" "n \<le> unat sz"
    and IH: "\<And>R' r. length R' < Suc (Suc (length R)) \<Longrightarrow> fmt_runs buf fmt n sz F S R' r"
  shows "fmt_runs buf fmt n sz F S (37 # d # R) args"
  unfolding fmt_runs_def
proof (intro allI impI)
  fix F1 s t
  assume t: "fmt_text S (37 # d # R) args = Some t" and F: "F = F1 @ 37 # d # R"
    and ok: "fmt_ok buf n fmt F S s" and i: "fi s = of_nat (length F1)" and args: "fargs s = args"
    and fit: "unat (flen s) + length t \<le> n"
  let ?s = "s\<lparr>fi := fi s + 1\<rparr>"
  let ?goal = "\<exists>s'. fmt_loop buf 0 fmt sz s = Some s' \<and> fmt_done buf t s s'"
  have ok1: "fmt_ok buf n fmt F S ?s" using ok by (simp add: fmt_ok_def)
  have two: ?goal
    if "fmt_switch buf fmt sz d ?s = Some (emit buf v (?s\<lparr>fargs := r\<rparr>))" "fmt_text S R r = Some u" "t = v @ u" for v u r
    using fmt_conversion[OF room ok F, of "[37, d]" R r v u] IH[of R r] i that fit F by simp
  have one: ?goal
    if "fmt_switch buf fmt sz d ?s = Some (emit buf [37] (?s\<lparr>fi := fi ?s - 1\<rparr>))" "fmt_text S (d # R) args = Some u" "t = [37] @ u" for u
    using fmt_conversion[OF room ok F, of "[37]" "d # R" args "[37]" u] IH[of "d # R" args] i that fit F args by simp
  note pt = fmt_point[OF room ok F i]
  have arg: "fargs ?s = args" and fl: "flen ?s = flen s" using args by simp_all
  consider "d = 99" | "d = 100" | "d = 108" "R \<noteq> []" "List.hd R = 100" | "d = 115" | "d = 120 \<or> d = 112" | "d = 98"
    | "d \<notin> {99, 100, 115, 120, 112, 98}" "\<not> (d = 108 \<and> R \<noteq> [] \<and> List.hd R = 100)" by blast
  then show ?goal
  proof cases
    case 1
    then obtain w r u where "va_arg32 args = Some (w, r)" "fmt_text S R r = Some u" "t = [ucast w] @ u"
      using t by (auto simp: fmt_text.simps(3) bind_eq_Some_conv)
    then show ?thesis using two[of "[ucast w]" r u] fmt_char_emit[of ?s w r sz buf] 1 arg fl fit room(2)
      by (simp add: fmt_switch_def)
  next
    case 2
    then obtain w r u where "va_arg32 args = Some (w, r)" "fmt_text S R r = Some u" "t = dec_text (ucast w) @ u"
      using t by (auto simp: fmt_text.simps(3) bind_eq_Some_conv)
    then show ?thesis using two[of "dec_text (ucast w)" r u] fmt_dec_emit[OF ok1 room, of w r] 2 arg fl fit
      by (simp add: fmt_switch_def)
  next
    case 3
    then obtain R' where R: "R = 100 # R'" by (cases R) auto
    obtain w r u where t': "va_arg64 args = Some (w, r)" "fmt_text S R' r = Some u" "t = dec_text w @ u"
      using t 3 R by (auto simp: fmt_text.simps(3) bind_eq_Some_conv)
    have "fm ?s (fmt + ucast (fi ?s) + 1) = 100" using pt(3) R by simp
    then have "fmt_switch buf fmt sz d ?s = Some (emit buf (dec_text w) (?s\<lparr>fargs := r, fi := fi ?s + 1\<rparr>))"
      using fmt_long_emit[OF ok1 room, of w r] t' 3 arg fl fit by (simp add: fmt_switch_def)
    then show ?thesis
      using fmt_conversion[OF room ok F, of "[37, d, 100]" R' r "dec_text w" u] IH[of R' r] i t' fit F R by simp
  next
    case 4
    then obtain p cs r u where "va_arg32 args = Some (p, r)" "S p = Some cs" "fmt_text S R r = Some u" "t = cs @ u"
      using t by (auto simp: fmt_text.simps(3) bind_eq_Some_conv)
    then show ?thesis using two[of cs r u] fmt_str_emit[OF ok1 room, of p r cs] 4 arg fl fit
      by (simp add: fmt_switch_def)
  next
    case 5
    then obtain w r u where "va_arg32 args = Some (w, r)" "fmt_text S R r = Some u" "t = hex_text w @ u"
      using t by (auto simp: fmt_text.simps(3) bind_eq_Some_conv)
    then show ?thesis using two[of "hex_text w" r u] fmt_hex_emit[OF ok1 room, of w r] 5 arg fl fit
      by (auto simp: fmt_switch_def)
  next
    case 6
    then obtain w r u where "va_arg32 args = Some (w, r)" "fmt_text S R r = Some u" "t = bin_text w @ u"
      using t by (auto simp: fmt_text.simps(3) bind_eq_Some_conv)
    then show ?thesis using two[of "bin_text w" r u] fmt_bin_emit[OF ok1 room, of w r] 6 arg fl fit
      by (simp add: fmt_switch_def)
  next
    case 7
    then obtain u where "fmt_text S (d # R) args = Some u" "t = [37] @ u"
      using t by (auto simp: fmt_text.simps(3))
    moreover have "d = 108 \<Longrightarrow> fm ?s (fmt + ucast (fi ?s) + 1) \<noteq> 100" using pt(3) 7 by (cases R) auto
    ultimately show ?thesis using one[of u] fmt_percent_emit[of ?s sz buf] 7 fl fit room(2)
      by (auto simp: fmt_switch_def fmt_long_def)
  qed
qed

lemma fmt_runs_all:
  assumes room: "fmt_room buf n fmt F S" "n \<le> unat sz"
  shows "fmt_runs buf fmt n sz F S R args"
proof (induction "length R" arbitrary: R args rule: less_induct)
  case (less R args)
  consider "R = []" | d R' where "R = 37 # d # R'" | c R' where "R = c # R'" "c \<noteq> 37 \<or> R' = []"
    by (metis neq_Nil_conv)
  then show ?case
  proof cases
    case 1
    then show ?thesis using fmt_runs_Nil[OF room] by simp
  next
    case 2
    then show ?thesis using fmt_runs_percent[OF room, of R'] less by simp
  next
    case 3
    show ?thesis unfolding fmt_runs_def
    proof (intro allI impI)
      fix F1 s t
      assume t: "fmt_text S R args = Some t" and F: "F = F1 @ R" and ok: "fmt_ok buf n fmt F S s"
        and i: "fi s = of_nat (length F1)" and args: "fargs s = args" and soh: "F1 = [] \<longrightarrow> R = [] \<or> List.hd R \<noteq> 1"
        and fit: "unat (flen s) + length t \<le> n"
      note pt = fmt_point[OF room ok F[unfolded 3(1)] i]
      obtain u where u: "fmt_text S R' args = Some u" "t = [c] @ u"
        using t 3 by (cases R') (auto simp: fmt_text.simps(3))
      have "length F < 4294967296" using room by (simp add: fmt_room_def)
      then have no_soh: "\<not> (fi s = 0 \<and> c = 1)" using i F soh 3(1) index_zero[of "length F1"] by auto
      have round: "fmt_round buf 0 fmt sz s = Some (emit buf [c] s, True)"
      proof (cases "c = 37")
        case False
        then show ?thesis using pt(1) no_soh fit u room(2) by (intro fmt_round_plain) simp_all
      next
        case True
        then have "fm s (fmt + ucast (fi s + 1)) = 0" using pt(3) 3 by simp
        moreover have "fmt_switch buf fmt sz 0 (s\<lparr>fi := fi s + 1\<rparr>) = Some (emit buf [37] s)"
          using fmt_percent_emit[of "s\<lparr>fi := fi s + 1\<rparr>" sz buf] fit u room(2) by (simp add: fmt_switch_def)
        ultimately show ?thesis using fmt_round_percent[of s fmt 0] pt(1) True by simp
      qed
      have c0: "fm s (fmt + ucast (fi s)) \<noteq> 0" using pt(1,2) by simp
      have F': "F = F1 @ [c] @ R'" using F 3(1) by simp
      show "\<exists>s'. fmt_loop buf 0 fmt sz s = Some s' \<and> fmt_done buf t s s'"
        unfolding u(2)
        by (rule fmt_continue[OF less[of R' args] room ok F' _ c0 round _ u(1)])
          (use 3(1) i args fit u(2) in simp_all)
    qed
  qed
qed

lemma fmt_loop_text:
  assumes "fmt_room buf n fmt F S" "n \<le> unat sz" and "isValid buf \<or> buf = 0" and "cstr m fmt F"
    and "\<forall>p cs. S p = Some cs \<longrightarrow> cstr m p cs" and "fmt_text S F args = Some t"
    and "F = [] \<or> List.hd F \<noteq> 1" and "length t \<le> n"
  shows "\<exists>s'. fmt_loop buf 0 fmt sz \<lparr>fm = m, fdata = buf, flen = 0, fi = 0, fargs = args\<rparr> = Some s' \<and>
    fm s' = (if isValid buf then write_bytes m buf t else m) \<and> flen s' = of_nat (length t) \<and>
    (isValid buf \<longrightarrow> fdata s' = buf + of_nat (length t))"
proof -
  let ?s = "\<lparr>fm = m, fdata = buf, flen = 0, fi = 0, fargs = args\<rparr>"
  have ok: "fmt_ok buf n fmt F S ?s" using assms(3-5) by (auto simp: fmt_ok_def)
  have "\<exists>s'. fmt_loop buf 0 fmt sz ?s = Some s' \<and> fmt_done buf t ?s s'"
    using fmt_runs_all[OF assms(1,2), unfolded fmt_runs_def, rule_format, of F args t "[]" ?s] ok assms(6-8) by simp
  then show ?thesis by (auto simp: fmt_done_def emit_def)
qed

lemma do_fmt_convert_text:
  assumes room: "fmt_room buf n fmt F S" "n < unat sz" and buf: "isValid buf \<or> buf = 0" and "cstr m fmt F"
    and "\<forall>p cs. S p = Some cs \<longrightarrow> cstr m p cs" and "fmt_text S F args = Some t"
    and "F = [] \<or> List.hd F \<noteq> 1" and len: "length t \<le> n"
  shows "do_fmt_convert buf 0 fmt args sz m =
    Some (if isValid buf then write_bytes m buf (t @ [0]) else m, of_nat (length t))"
proof -
  have sz: "sz \<noteq> 0" using room(2) by auto
  then have sz1: "n \<le> unat (sz - 1)" using room(2) by (simp add: unat_minus_one)
  obtain s' where "fmt_loop buf 0 fmt (sz - 1) \<lparr>fm = m, fdata = buf, flen = 0, fi = 0, fargs = args\<rparr> = Some s'"
    "fm s' = (if isValid buf then write_bytes m buf t else m)" "flen s' = of_nat (length t)"
    "isValid buf \<longrightarrow> fdata s' = buf + of_nat (length t)"
    using fmt_loop_text[OF room(1) sz1 buf, of m args t] assms by auto
  moreover have "\<not> sz < 1" using sz by (simp add: word_less_nat_alt unat_gt_0)
  ultimately show ?thesis using sz by (simp add: do_fmt_convert_def write_bytes_append)
qed

lemma u32_max: "unat (- 1 :: u32) = 4294967295"
  by (simp add: unsigned_minus_1_eq_mask mask_eq_exp_minus_1)

lemma span_bounds:
  assumes "unat p + n \<le> 4294967296" and "r \<in> span p n"
  shows "unat p \<le> unat r \<and> unat r < unat p + n"
proof -
  obtain i where "i < n" "r = p + of_nat i" using assms(2) by (auto simp: span_def)
  then have "unat r = unat p + i" using assms(1) by (simp add: u32_add u32_of_nat)
  then show ?thesis using \<open>i < n\<close> by simp
qed

lemma clear_of_apart:
  assumes "unat p + n \<le> unat q \<or> unat q + k \<le> unat p" and "unat p + n \<le> 4294967296" and "unat q + k \<le> 4294967296"
  shows "clear_of p n q k"
  using assms span_bounds[of p n] span_bounds[of q k] by (fastforce simp: clear_of_def)

lemma sys_live_valid:
  assumes "sys_wf h" and "(unat p, k) \<in> sys_live h"
  shows "unat p + k < 4294963200"
proof -
  obtain i where i: "i < length (pools h)" "(unat p, k) \<in> pool_live (pool_info (pools h ! i))"
    using assms(2) by (auto simp: sys_live_def)
  then have "pool_ok (pools h ! i)" using assms(1) by (auto simp: sys_wf_def)
  then show ?thesis using pool_ok_region(1,2)[OF _ i(2)] by fastforce
qed

text \<open>\<^verbatim>\<open>sprintk\<close> is given no bound: the space that has to be clear is that of the text.\<close>

lemma sprintk_text:
  assumes "fmt_room buf (length t) fmt F S" and "isValid buf" and "cstr m fmt F" and "\<forall>p cs. S p = Some cs \<longrightarrow> cstr m p cs"
    and "fmt_text S F args = Some t" and "F = [] \<or> List.hd F \<noteq> 1" and "length t < 4294967295"
  shows "sprintk buf fmt args m = Some (write_bytes m buf (t @ [0]), of_nat (length t))"
  using do_fmt_convert_text[OF assms(1) _ _ assms(3-6), of "NOT 0"] assms(2,7) by (simp add: sprintk_def u32_max)

subsection \<open>Properties\<close>

text \<open>C25: with a buffer that shares no byte with the format and the strings and has room for the text,
  \<^verbatim>\<open>do_fmt_convert\<close> ends, writes exactly the text of the format and a zero byte, and returns the length;
  without a buffer it returns the same length and writes nothing.\<close>

theorem fmt_convert_writes_text:
  assumes "cstr m fmt F" and "\<forall>p cs. S p = Some cs \<longrightarrow> cstr m p cs" and "fmt_text S F args = Some t"
    and "F = [] \<or> List.hd F \<noteq> 1" and "length t < unat sz"
    and "fmt_room buf (unat sz - 1) fmt F S" and "isValid buf"
  shows "do_fmt_convert buf 0 fmt args sz m = Some (write_bytes m buf (t @ [0]), of_nat (length t)) \<and>
         do_fmt_convert 0 0 fmt args sz m = Some (m, of_nat (length t))"
proof -
  have "fmt_room 0 (unat sz - 1) fmt F S" using assms(6) by (simp add: fmt_room_def)
  moreover have "unat sz - 1 < unat sz" "length t \<le> unat sz - 1" using assms(5) by simp_all
  ultimately show ?thesis
    using do_fmt_convert_text[OF assms(6) _ _ assms(1-4)] do_fmt_convert_text[of 0, OF _ _ _ assms(1-4)] assms(7) by simp
qed

definition demo_fmt :: bmem where
  "demo_fmt = (\<lambda>p. if p = 0x100 then 105 else if p = 0x101 then 61 else if p = 0x102 then 37
                  else if p = 0x103 then 120 else 0)"

lemma demo_fmt_str: "cstr demo_fmt 0x100 [105, 61, 37, 120]"
  by (simp add: demo_fmt_def)

lemma demo_fmt_text: "fmt_text (\<lambda>_. None) [105, 61, 37, 120] [A32 0x1F] = Some [105, 61, 48, 120, 49, 102]"
  by (simp add: fmt_text.simps(3) hex_text_def pdigits.simps hex_char_def word_le_nat_alt)

lemma demo_fmt_room: "fmt_room 0x200 6 0x100 [105, 61, 37, 120] (\<lambda>_. None)"
  by (auto simp: fmt_room_def intro!: clear_of_apart)

theorem fmt_convert_writes_text_witness:
  "do_fmt_convert 0x200 0 0x100 [A32 0x1F] 7 demo_fmt =
     Some (write_bytes demo_fmt 0x200 [105, 61, 48, 120, 49, 102, 0], 6)"
  using fmt_convert_writes_text[OF demo_fmt_str _ demo_fmt_text, of 7 "0x200"] demo_fmt_room
  by (simp add: isValid_iff)

text \<open>C26: \<^verbatim>\<open>sprintk_safe\<close> on a well-formed heap, with an admissible request for the length of its text, returns
  null and changes nothing, or returns a live region of the heap that holds the text and its end; it writes
  nowhere else.\<close>

theorem sprintk_safe_fits:
  assumes "sys_wf h" and "kmalloc_adm GFP_KERNEL h (of_nat (length t) + 1)" and "length t < 4294967290"
    and "cstr m fmt F" and "\<forall>p cs. S p = Some cs \<longrightarrow> cstr m p cs \<and> length cs < 4294967296" and "fmt_text S F args = Some t"
    and "F = [] \<or> List.hd F \<noteq> 1" and "fmt \<noteq> 0" and "length F < 4294967296"
    and "kmalloc (of_nat (length t) + 1) GFP_KERNEL h = Some (h', ptr)"
    and "ptr \<noteq> 0 \<longrightarrow> clear_of ptr (Suc (length t)) fmt (Suc (length F)) \<and>
           (\<forall>p cs. S p = Some cs \<longrightarrow> clear_of ptr (Suc (length t)) p (Suc (length cs)))"
  shows "if ptr = 0 then sprintk_safe fmt args (h, m) = Some ((h, m), 0)
         else sprintk_safe fmt args (h, m) = Some ((h', write_bytes m ptr (t @ [0])), ptr) \<and>
              (\<exists>k \<ge> Suc (length t). (unat ptr, k) \<in> sys_live h')"
proof -
  let ?n = "of_nat (length t) + 1 :: u32"
  have un: "unat ?n = length t + 1" using assms(3) by (simp add: u32_add u32_of_nat)
  have strs: "\<forall>p cs. S p = Some cs \<longrightarrow> cstr m p cs" using assms(5) by blast
  have room0: "fmt_room 0 (unat (NOT 0 :: u32) - 1) fmt F S" using assms(5,9) by (simp add: fmt_room_def u32_max)
  have measure: "do_fmt_convert 0 0 fmt args (NOT 0) m = Some (m, of_nat (length t))"
    using do_fmt_convert_text[OF room0 _ _ assms(4) strs assms(6,7)] assms(3) by (simp add: u32_max)
  show ?thesis
  proof (cases "ptr = 0")
    case True
    then have "h' = h" using kheap.alloc_null[OF assms(1,2)] assms(10) by simp
    then show ?thesis using True measure assms(8,10) by (simp add: sprintk_safe_def)
  next
    case False
    obtain k where k: "Suc (length t) \<le> k" "(unat ptr, k) \<in> sys_live h'" "sys_wf h'"
      using kheap.alloc_region[OF assms(1,2,10) False] un by auto
    then have hi: "unat ptr + Suc (length t) < 4294963200" using sys_live_valid[OF k(3,2)] by simp
    then have valid: "isValid ptr" using False by (simp add: isValid_iff unat_gt_0)
    have room: "fmt_room ptr (unat ?n - 1) fmt F S"
      using assms(3,5,9,11) False hi un by (auto simp: fmt_room_def)
    have "do_fmt_convert ptr 0 fmt args ?n m = Some (write_bytes m ptr (t @ [0]), of_nat (length t))"
      using do_fmt_convert_text[OF room _ _ assms(4) strs assms(6,7)] valid un by simp
    then show ?thesis using False valid measure assms(8,10) k by (auto simp: sprintk_safe_def)
  qed
qed

definition five_hex :: "u8 list" where
  "five_hex = [37, 120, 37, 120, 37, 120, 37, 120, 37, 120]"

definition five_args :: "fmt_arg list" where
  "five_args = map A32 [1, 2, 3, 4, 5]"

definition five_text :: "u8 list" where
  "five_text = [48, 120, 49, 48, 120, 50, 48, 120, 51, 48, 120, 52, 48, 120, 53]"

lemma five_fmt: "fmt_text (\<lambda>_. None) five_hex five_args = Some five_text"
  by (simp add: five_hex_def five_args_def five_text_def fmt_text.simps(3) hex_text_def pdigits.simps hex_char_def
      word_le_nat_alt)

theorem sprintk_safe_fits_witness:
  "\<exists>m'. sprintk_safe 0x100 five_args (heap_with block0, write_bytes (\<lambda>_. 0) 0x100 (five_hex @ [0])) =
     Some ((heap_with block1, m'), 8224) \<and> bytes_at m' 8224 five_text"
proof -
  let ?m = "write_bytes (\<lambda>_. 0) 0x100 (five_hex @ [0])"
  have F: "cstr ?m 0x100 five_hex" by (rule write_bytes_cstr) (simp_all add: five_hex_def)
  have len: "length five_text = 15" "length five_hex = 10" by (simp_all add: five_text_def five_hex_def)
  have "clear_of 8224 (Suc (length five_text)) 0x100 (Suc (length five_hex))"
    unfolding len by (rule clear_of_apart) simp_all
  then have "sprintk_safe 0x100 five_args (heap_with block0, ?m) =
    Some ((heap_with block1, write_bytes ?m 8224 (five_text @ [0])), 8224)"
    using sprintk_safe_fits[OF heap0_wf _ _ F _ five_fmt, of "heap_with block1" 8224] heap0_adm heap1
    by (simp add: len) (simp add: five_hex_def)
  moreover have "bytes_at (write_bytes ?m 8224 (five_text @ [0])) 8224 five_text"
    using write_bytes_at[of "five_text @ [0]" ?m 8224] len by (simp add: bytes_at_append)
  ultimately show ?thesis by blast
qed

end
