(* ===== verification/Sched.thy ===== *)
theory Sched
  imports Time Fmt
begin

text \<open>
  The scheduler, \<^verbatim>\<open>kernel/sched.c\<close> with \<^verbatim>\<open>include/kernel/sched.h\<close> and the accessors of
  \<^verbatim>\<open>include/kernel/thread.h\<close> it uses: the thread table, the ready, suspend and sleep lists, the
  transitions between them and the choice of the next thread. Threads and their attributes are
  records in stores indexed by their addresses, the lists are intrusive rings, address 0 is the
  null pointer, and \<open>None\<close> is a dereference of it or an index outside the thread table.
\<close>

subsection \<open>State\<close>

definition NR_THREAD_NONE :: u32 where [simp]: "NR_THREAD_NONE = 0"
definition NR_THREAD_RUNNING :: u32 where [simp]: "NR_THREAD_RUNNING = 1"
definition NR_THREAD_READY :: u32 where [simp]: "NR_THREAD_READY = 2"
definition NR_THREAD_SUSPEND :: u32 where [simp]: "NR_THREAD_SUSPEND = 3"
definition NR_THREAD_SLEEP :: u32 where [simp]: "NR_THREAD_SLEEP = 4"
definition NR_THREAD_STATUS_MAX :: u32 where [simp]: "NR_THREAD_STATUS_MAX = 5"

definition NR_THREAD_SIG_WAKEUP :: nat where [simp]: "NR_THREAD_SIG_WAKEUP = 6"
definition NR_THREAD_SIG_KILL :: nat where [simp]: "NR_THREAD_SIG_KILL = 7"
definition NR_THREAD_SIG_INTR :: nat where [simp]: "NR_THREAD_SIG_INTR = 8"

definition THREAD_MAX_NUM :: u32 where [simp]: "THREAD_MAX_NUM = 128"
definition THREAD_TID_IDLE :: u32 where [simp]: "THREAD_TID_IDLE = 0"
definition THREAD_TID_START :: u32 where [simp]: "THREAD_TID_START = 32"
definition THREAD_NAME_SIZE :: nat where [simp]: "THREAD_NAME_SIZE = 32"

record thread_attr =
  detachstate :: u32
  schedpolicy :: u32
  sched_priority :: u32
  sched_curpriority :: u32
  init_budget :: time_spec
  inheritsched :: u32
  ptr_stack_start :: u32
  stack_addr :: u32
  stacksize :: u32

record thread =
  tname :: "u8 list"
  tid :: u32
  status :: u32
  to_status :: u32
  start_routine :: u32
  sprt_attr :: u32
  ptr_args :: u32
  expires :: u32
  tflags :: u32
  tlock :: srt_spin_lock

datatype slink = ReadyHead | SuspendHead | SleepHead | ThreadLink u32

fun link_thread :: "slink \<Rightarrow> u32" where
  "link_thread (ThreadLink p) = p"
| "link_thread _ = 0"

text \<open>
  The context block holds addresses of fields: \<open>entry\<close> and \<open>args\<close> are represented by the thread
  whose fields they point to, \<open>next_sp\<close> and \<open>prev_sp\<close> by the attribute record whose
  \<^verbatim>\<open>stack_addr\<close> they point to (0: no previous thread).
\<close>

record scheduler_context =
  entry :: u32
  args :: u32
  next_sp :: u32
  prev_sp :: u32

record sched = timer_sys +
  thr :: "u32 \<Rightarrow> thread"
  attrs :: "u32 \<Rightarrow> thread_attr"
  slinks :: "slink lheap"
  tid_array :: "u32 \<Rightarrow> u32"
  sprt_work :: u32
  sched_cnt :: u32
  cnt_out :: u32
  sched_lock :: srt_spin_lock
  schedule_ref :: u32
  sgrt_context :: scheduler_context
  scpu :: cpu

definition thread_get_priority :: "thread_attr \<Rightarrow> u32" where
  "thread_get_priority a = sched_curpriority a"

definition thread_set_priority :: "u32 \<Rightarrow> thread_attr \<Rightarrow> thread_attr" where
  "thread_set_priority priority a =
     (let a = a\<lparr>sched_priority := (if 0 \<le> priority then priority else 0)\<rparr>
      in a\<lparr>sched_curpriority := sched_priority a\<rparr>)"

definition thread_set_time_slice :: "u32 \<Rightarrow> thread_attr \<Rightarrow> thread_attr" where
  "thread_set_time_slice mseconds a = a\<lparr>init_budget := msecs_to_time_spec mseconds\<rparr>"

definition thread_get_sched_msecs :: "thread_attr \<Rightarrow> u32" where
  "thread_get_sched_msecs a = time_spec_to_msecs (init_budget a)"

definition thread_attr_setstacksize :: "u32 \<Rightarrow> thread_attr \<Rightarrow> thread_attr" where
  "thread_attr_setstacksize sz a = a\<lparr>stacksize := (if sz \<ge> 512 then sz else 512)\<rparr>"

definition thread_attr_getstacksize :: "thread_attr \<Rightarrow> u32" where
  "thread_attr_getstacksize a = stacksize a"

definition IS_LOW_PRIO :: "u32 \<Rightarrow> u32 \<Rightarrow> bool" where
  "IS_LOW_PRIO prio prio2 \<longleftrightarrow> prio2 \<le> prio"

text \<open>Access to the thread table and to a thread.\<close>

definition SCHED_THREAD_HANDLER :: "u32 \<Rightarrow> sched \<Rightarrow> u32 option" where
  "SCHED_THREAD_HANDLER t s = (if t < THREAD_MAX_NUM then Some (tid_array s t) else None)"

definition deref :: "u32 \<Rightarrow> sched \<Rightarrow> thread option" where
  "deref p s = (if p = 0 then None else Some (thr s p))"

definition attr_of :: "u32 \<Rightarrow> sched \<Rightarrow> thread_attr option" where
  "attr_of p s = (if p = 0 \<or> sprt_attr (thr s p) = 0 then None else Some (attrs s (sprt_attr (thr s p))))"

definition set_thr :: "u32 \<Rightarrow> (thread \<Rightarrow> thread) \<Rightarrow> sched \<Rightarrow> sched" where
  "set_thr p f s = s\<lparr>thr := (thr s)(p := f (thr s p))\<rparr>"

definition SET_THREAD_STATUS :: "u32 \<Rightarrow> u32 \<Rightarrow> sched \<Rightarrow> sched option" where
  "SET_THREAD_STATUS t val s =
     (if val < NR_THREAD_STATUS_MAX then do {
        p \<leftarrow> SCHED_THREAD_HANDLER t s;
        _ \<leftarrow> deref p s;
        Some (set_thr p (\<lambda>t. t\<lparr>to_status := val\<rparr>) s)
      } else Some s)"

definition SYNC_THREAD_STATUS :: "u32 \<Rightarrow> u32 \<Rightarrow> sched \<Rightarrow> sched option" where
  "SYNC_THREAD_STATUS t val s =
     (if val < NR_THREAD_STATUS_MAX then do {
        p \<leftarrow> SCHED_THREAD_HANDLER t s;
        _ \<leftarrow> deref p s;
        Some (set_thr p (\<lambda>t. t\<lparr>status := val, to_status := NR_THREAD_NONE\<rparr>) s)
      } else Some s)"

definition GET_THREAD_STATUS :: "u32 \<Rightarrow> sched \<Rightarrow> u32 option" where
  "GET_THREAD_STATUS t s = do { p \<leftarrow> SCHED_THREAD_HANDLER t s; th \<leftarrow> deref p s; Some (status th) }"

definition lock_sched :: "sched \<Rightarrow> sched option" where
  "lock_sched s = do { (c, l) \<leftarrow> spin_lock_irqsave (scpu s) (sched_lock s); Some (s\<lparr>scpu := c, sched_lock := l\<rparr>) }"

definition unlock_sched :: "sched \<Rightarrow> sched" where
  "unlock_sched s = (let (c, l) = spin_unlock_irqrestore (scpu s) (sched_lock s) in s\<lparr>scpu := c, sched_lock := l\<rparr>)"

subsection \<open>The status lists\<close>

definition find_thread_from_scheduler :: "u32 \<Rightarrow> slink \<Rightarrow> sched \<Rightarrow> int option" where
  "find_thread_from_scheduler t head s = do {
     p \<leftarrow> SCHED_THREAD_HANDLER t s;
     if mrt_list_head_empty (slinks s) head then Some (- ER_NOTFOUND)
     else do {
       e \<leftarrow> foreach_list_next_entry (slinks s) head (\<lambda>l. link_thread l = p);
       Some (if e \<noteq> None then sint t else - ER_NOTFOUND)
     }
   }"

definition link_prio :: "sched \<Rightarrow> slink \<Rightarrow> u32" where
  "link_prio s l = thread_get_priority (attrs s (sprt_attr (thr s (link_thread l))))"

definition schedule_add_status_list :: "u32 \<Rightarrow> slink \<Rightarrow> sched \<Rightarrow> (sched \<times> int) option" where
  "schedule_add_status_list p head s =
     (if p = 0 then Some (s, - ER_FAULT)
      else do {
        a \<leftarrow> attr_of p s;
        let iPriority = thread_get_priority a;
        if mrt_list_head_empty (slinks s) head then
          Some (s\<lparr>slinks := list_head_add_head (slinks s) head (ThreadLink p)\<rparr>, ER_NORMAL)
        else do {
          r \<leftarrow> find_thread_from_scheduler (tid (thr s p)) head s;
          if r \<ge> 0 then Some (s, ER_NORMAL)
          else do {
            e \<leftarrow> foreach_list_prev_entry (slinks s) head (\<lambda>l. IS_LOW_PRIO iPriority (link_prio s l));
            Some (s\<lparr>slinks := list_head_add_head (slinks s) (case e of Some l \<Rightarrow> l | None \<Rightarrow> head) (ThreadLink p)\<rparr>, ER_NORMAL)
          }
        }
      })"

definition schedule_del_status_list :: "u32 \<Rightarrow> slink \<Rightarrow> sched \<Rightarrow> sched option" where
  "schedule_del_status_list p head s =
     (if p = 0 then Some s
      else do { h \<leftarrow> list_head_del_safe (slinks s) head (ThreadLink p); Some (s\<lparr>slinks := h\<rparr>) })"

definition schedule_add_ready_list :: "u32 \<Rightarrow> sched \<Rightarrow> (sched \<times> int) option" where
  "schedule_add_ready_list t s = do {
     p \<leftarrow> SCHED_THREAD_HANDLER t s;
     if p = 0 then Some (s, - ER_FAULT)
     else if NR_THREAD_READY = status (thr s p) then Some (s, - ER_UNVALID)
     else schedule_add_status_list p ReadyHead s
   }"

definition schedule_detach_ready_list :: "u32 \<Rightarrow> sched \<Rightarrow> (sched \<times> int) option" where
  "schedule_detach_ready_list t s = do {
     p \<leftarrow> SCHED_THREAD_HANDLER t s;
     if p = 0 then Some (s, - ER_FAULT)
     else if NR_THREAD_READY \<noteq> status (thr s p) then Some (s, - ER_UNVALID)
     else do { s \<leftarrow> schedule_del_status_list p ReadyHead s; Some (s, ER_NORMAL) }
   }"

definition schedule_add_suspend_list :: "u32 \<Rightarrow> sched \<Rightarrow> (sched \<times> int) option" where
  "schedule_add_suspend_list t s = do {
     p \<leftarrow> SCHED_THREAD_HANDLER t s;
     if p = 0 then Some (s, - ER_FAULT)
     else if NR_THREAD_SUSPEND = status (thr s p) then Some (s, - ER_UNVALID)
     else schedule_add_status_list p SuspendHead s
   }"

definition schedule_detach_suspend_list :: "u32 \<Rightarrow> sched \<Rightarrow> (sched \<times> int) option" where
  "schedule_detach_suspend_list t s = do {
     p \<leftarrow> SCHED_THREAD_HANDLER t s;
     if p = 0 then Some (s, - ER_FAULT)
     else if NR_THREAD_SUSPEND \<noteq> status (thr s p) then Some (s, - ER_UNVALID)
     else do { s \<leftarrow> schedule_del_status_list p SuspendHead s; Some (s, ER_NORMAL) }
   }"

definition schedule_add_sleep_list :: "u32 \<Rightarrow> sched \<Rightarrow> (sched \<times> int) option" where
  "schedule_add_sleep_list t s = do {
     p \<leftarrow> SCHED_THREAD_HANDLER t s;
     if p = 0 then Some (s, - ER_FAULT)
     else if NR_THREAD_SLEEP = status (thr s p) then Some (s, - ER_UNVALID)
     else schedule_add_status_list p SleepHead s
   }"

definition schedule_detach_sleep_list :: "u32 \<Rightarrow> sched \<Rightarrow> (sched \<times> int) option" where
  "schedule_detach_sleep_list t s = do {
     p \<leftarrow> SCHED_THREAD_HANDLER t s;
     if p = 0 then Some (s, - ER_FAULT)
     else if NR_THREAD_SLEEP \<noteq> status (thr s p) then Some (s, - ER_UNVALID)
     else do { s \<leftarrow> schedule_del_status_list p SleepHead s; Some (s, ER_NORMAL) }
   }"

text \<open>\<^verbatim>\<open>mrt_list_first_valid_entry\<close>: the first thread of a list, or null.\<close>

definition first_valid_entry :: "slink \<Rightarrow> sched \<Rightarrow> u32" where
  "first_valid_entry head s =
     (if mrt_list_head_empty (slinks s) head then 0 else link_thread (sprt_next (slinks s head)))"

subsection \<open>Changing the status of a thread\<close>

definition schedule_despoil_work_role :: "u32 \<Rightarrow> sched \<Rightarrow> (sched \<times> int) option" where
  "schedule_despoil_work_role t s = do {
     p \<leftarrow> SCHED_THREAD_HANDLER t s;
     if p = 0 then Some (s, - ER_FAULT)
     else if NR_THREAD_READY \<noteq> status (thr s p) then Some (s, - ER_UNVALID)
     else if sprt_work s \<noteq> 0 then do {
       (s, r) \<leftarrow> schedule_add_ready_list (tid (thr s (sprt_work s))) s;
       if r < 0 then Some (s, r)
       else do {
         s \<leftarrow> SYNC_THREAD_STATUS (tid (thr s (sprt_work s))) NR_THREAD_READY s;
         Some (s\<lparr>sprt_work := p\<rparr>, ER_NORMAL)
       }
     }
     else Some (s\<lparr>sprt_work := p\<rparr>, ER_NORMAL)
   }"

definition schedule_reinstall_work_role :: "u32 \<Rightarrow> sched \<Rightarrow> (sched \<times> int) option" where
  "schedule_reinstall_work_role t s = do {
     w \<leftarrow> deref (sprt_work s) s;
     if t \<noteq> tid w then Some (s, - ER_UNVALID)
     else if mrt_list_head_empty (slinks s) ReadyHead then Some (s, - ER_FAULT)
     else do {
       let p = first_valid_entry ReadyHead s;
       if p = 0 then Some (s, - ER_FAILD)
       else do {
         (s, _) \<leftarrow> schedule_detach_ready_list (tid (thr s p)) s;
         let s = s\<lparr>sprt_work := p\<rparr>;
         s \<leftarrow> SYNC_THREAD_STATUS (tid (thr s p)) NR_THREAD_RUNNING s;
         Some (s, ER_NORMAL)
       }
     }
   }"

definition switch_detach :: "u32 \<Rightarrow> u32 \<Rightarrow> sched \<Rightarrow> (sched \<times> int) option" where
  "switch_detach src t s =
     (if src = NR_THREAD_RUNNING then schedule_reinstall_work_role t s
      else if src = NR_THREAD_READY then do { (s, _) \<leftarrow> schedule_detach_ready_list t s; Some (s, ER_NORMAL) }
      else if src = NR_THREAD_SUSPEND then do { (s, _) \<leftarrow> schedule_detach_suspend_list t s; Some (s, ER_NORMAL) }
      else if src = NR_THREAD_SLEEP then do { (s, _) \<leftarrow> schedule_detach_sleep_list t s; Some (s, ER_NORMAL) }
      else Some (s, ER_NORMAL))"

definition switch_attach :: "u32 \<Rightarrow> u32 \<Rightarrow> sched \<Rightarrow> (sched \<times> int) option" where
  "switch_attach dst t s =
     (if dst = NR_THREAD_RUNNING then schedule_despoil_work_role t s
      else if dst = NR_THREAD_READY then schedule_add_ready_list t s
      else if dst = NR_THREAD_SUSPEND then schedule_add_suspend_list t s
      else if dst = NR_THREAD_SLEEP then schedule_add_sleep_list t s
      else Some (s, - ER_ERROR))"

text \<open>\<open>switch_end\<close> is both ends of \<^verbatim>\<open>schedule_thread_switch\<close>: the status that is set and the return value.\<close>

definition switch_end :: "u32 \<Rightarrow> u32 \<Rightarrow> int \<Rightarrow> sched \<Rightarrow> (sched \<times> int) option" where
  "switch_end t st r s = do {
     s \<leftarrow> SYNC_THREAD_STATUS t st s;
     Some (s\<lparr>scpu := mrt_preempt_enable (scpu s)\<rparr>, r)
   }"

definition schedule_thread_switch :: "u32 \<Rightarrow> sched \<Rightarrow> (sched \<times> int) option" where
  "schedule_thread_switch t s = do {
     let s = s\<lparr>scpu := mrt_preempt_disable (scpu s)\<rparr>;
     p \<leftarrow> SCHED_THREAD_HANDLER t s;
     th \<leftarrow> deref p s;
     let src = status th;
     let dst = to_status th;
     if src = dst \<or> dst \<ge> NR_THREAD_STATUS_MAX then switch_end t src (- ER_UNVALID) s
     else if t = THREAD_TID_IDLE \<and> dst \<noteq> NR_THREAD_RUNNING \<and> dst \<noteq> NR_THREAD_READY then
       switch_end t src (- ER_UNVALID) s
     else do {
       (s, r) \<leftarrow> switch_detach src t s;
       if r \<noteq> 0 then switch_end t src (- ER_UNVALID) s
       else do {
         (s, r) \<leftarrow> switch_attach dst t s;
         if r < 0 \<or> sprt_work s = 0 then switch_end t src (- ER_UNVALID) s
         else switch_end t dst ER_NORMAL s
       }
     }
   }"


subsection \<open>Looking at the lists\<close>

definition get_current_thread :: "sched \<Rightarrow> u32" where "get_current_thread s = sprt_work s"

definition get_ready_thread_table :: "sched \<Rightarrow> slink" where "get_ready_thread_table s = ReadyHead"

text \<open>The bound of \<^verbatim>\<open>get_thread_handle\<close> is compared signed: a negative \<^verbatim>\<open>tid\<close> reaches the array.\<close>

definition get_thread_handle :: "u32 \<Rightarrow> sched \<Rightarrow> u32 option" where
  "get_thread_handle t s = (if sint t \<ge> sint THREAD_MAX_NUM then Some 0 else SCHED_THREAD_HANDLER t s)"

text \<open>A name is the list of its bytes before the terminator; the field keeps at most 31 of them.\<close>

definition name_field :: "u8 list \<Rightarrow> u8 list" where
  "name_field name = (let n = take (THREAD_NAME_SIZE - 1) name in n @ replicate (THREAD_NAME_SIZE - length n) 0)"

definition thread_set_name :: "u32 \<Rightarrow> u8 list option \<Rightarrow> sched \<Rightarrow> sched option" where
  "thread_set_name t name s =
     (case name of
        None \<Rightarrow> Some s
      | Some n \<Rightarrow>
          if n = [] then Some s
          else do { p \<leftarrow> SCHED_THREAD_HANDLER t s; _ \<leftarrow> deref p s; Some (set_thr p (\<lambda>th. th\<lparr>tname := name_field n\<rparr>) s) })"

definition thread_set_self_name :: "u8 list option \<Rightarrow> sched \<Rightarrow> sched option" where
  "thread_set_self_name name s =
     (case name of
        None \<Rightarrow> Some s
      | Some n \<Rightarrow>
          if n = [] then Some s
          else do { _ \<leftarrow> deref (sprt_work s) s; Some (set_thr (sprt_work s) (\<lambda>th. th\<lparr>tname := name_field n\<rparr>) s) })"

definition thread_set_state :: "u32 \<Rightarrow> u32 \<Rightarrow> sched \<Rightarrow> sched option" where
  "thread_set_state p st s = do { th \<leftarrow> deref p s; SET_THREAD_STATUS (tid th) st s }"

partial_function (option) unused_tid_from :: "u32 \<Rightarrow> u32 \<Rightarrow> sched \<Rightarrow> u32 option option" where
  "unused_tid_from i bound s =
     (if i < bound then do {
        p \<leftarrow> SCHED_THREAD_HANDLER i s;
        if p = 0 then Some (Some i) else unused_tid_from (i + 1) bound s
      } else Some None)"

definition get_unused_tid_from_scheduler :: "u32 \<Rightarrow> u32 \<Rightarrow> sched \<Rightarrow> (sched \<times> int) option" where
  "get_unused_tid_from_scheduler i_start count s = do {
     s \<leftarrow> lock_sched s;
     r \<leftarrow> unused_tid_from i_start (i_start + count) s;
     Some (unlock_sched s, case r of Some i \<Rightarrow> sint i | None \<Rightarrow> - ER_MORE)
   }"

definition scheduler_record :: "sched \<Rightarrow> sched" where
  "scheduler_record s =
     (if sched_cnt s \<ge> NOT 0 then s\<lparr>sched_cnt := 0, cnt_out := cnt_out s + 1\<rparr>
      else s\<lparr>sched_cnt := sched_cnt s + 1\<rparr>)"

text \<open>The sum is formed in 32 bits and widened afterwards.\<close>

definition scheduler_stats_get :: "sched \<Rightarrow> (sched \<times> u64) option" where
  "scheduler_stats_get s = do {
     s \<leftarrow> lock_sched s;
     let sum = ucast (NOT 0 * cnt_out s + sched_cnt s);
     Some (unlock_sched s, sum)
   }"

definition is_ready_thread_empty :: "sched \<Rightarrow> bool" where
  "is_ready_thread_empty s = mrt_list_head_empty (slinks s) ReadyHead"
definition is_suspend_thread_empty :: "sched \<Rightarrow> bool" where
  "is_suspend_thread_empty s = mrt_list_head_empty (slinks s) SuspendHead"
definition is_sleep_thread_empty :: "sched \<Rightarrow> bool" where
  "is_sleep_thread_empty s = mrt_list_head_empty (slinks s) SleepHead"

definition get_first_ready_thread :: "sched \<Rightarrow> u32" where
  "get_first_ready_thread s = first_valid_entry ReadyHead s"
definition get_first_suspend_thread :: "sched \<Rightarrow> u32" where
  "get_first_suspend_thread s = first_valid_entry SuspendHead s"
definition get_first_sleep_thread :: "sched \<Rightarrow> u32" where
  "get_first_sleep_thread s = first_valid_entry SleepHead s"

definition is_thread_valid :: "u32 \<Rightarrow> sched \<Rightarrow> bool option" where
  "is_thread_valid t s = do {
     p \<leftarrow> get_thread_handle t s;
     th \<leftarrow> deref p s;
     Some (status th \<noteq> NR_THREAD_SLEEP \<and> to_status th \<noteq> NR_THREAD_SLEEP)
   }"

definition next_thread :: "slink \<Rightarrow> u32 \<Rightarrow> sched \<Rightarrow> u32" where
  "next_thread head prev s =
     (if mrt_list_head_empty (slinks s) head \<or> mrt_list_head_empty (slinks s) (ThreadLink prev) \<or>
         mrt_list_head_until (slinks s) (ThreadLink prev) head then 0
      else link_thread (sprt_next (slinks s (ThreadLink prev))))"

definition next_ready_thread :: "u32 \<Rightarrow> sched \<Rightarrow> u32" where
  "next_ready_thread prev s = (if prev = 0 then get_first_ready_thread s else next_thread ReadyHead prev s)"
definition next_suspend_thread :: "u32 \<Rightarrow> sched \<Rightarrow> u32" where
  "next_suspend_thread prev s = (if prev = 0 then get_first_suspend_thread s else next_thread SuspendHead prev s)"
definition next_sleep_thread :: "u32 \<Rightarrow> sched \<Rightarrow> u32" where
  "next_sleep_thread prev s = (if prev = 0 then get_first_sleep_thread s else next_thread SleepHead prev s)"

subsection \<open>Registering and scheduling\<close>

text \<open>
  \<open>thread_name\<close>: the field after the call \<^verbatim>\<open>sprintk(name, "thread-%d", tid)\<close>. The call runs in a byte memory that
  holds the field at one place and the format at another.
\<close>

definition thread_format :: "u8 list" where
  "thread_format = [0x74, 0x68, 0x72, 0x65, 0x61, 0x64, 0x2d, 0x25, 0x64]"

definition thread_name :: "u32 \<Rightarrow> u8 list \<Rightarrow> u8 list option" where
  "thread_name t field = do {
     let m = write_bytes (write_bytes (\<lambda>_. 0) 0x1000 field) 0x2000 (thread_format @ [0]);
     (m, _) \<leftarrow> sprintk 0x1000 0x2000 [A32 t] m;
     Some (map (\<lambda>i. m (0x1000 + of_nat i)) [0..<THREAD_NAME_SIZE])
   }"

definition register_new_thread :: "u32 \<Rightarrow> u32 \<Rightarrow> sched \<Rightarrow> (sched \<times> int) option" where
  "register_new_thread p t s = do {
     _ \<leftarrow> deref p s;
     h \<leftarrow> SCHED_THREAD_HANDLER t s;
     if h \<noteq> 0 then Some (s, - ER_UNVALID)
     else do {
       a \<leftarrow> attr_of p s;
       if stack_addr a = 0 then Some (s, - ER_NOMEM)
       else do {
         s \<leftarrow> lock_sched s;
         let s = s\<lparr>tid_array := (tid_array s)(t := p), slinks := init_list_head (slinks s) (ThreadLink p)\<rparr>;
         name \<leftarrow> thread_name t (tname (thr s p));
         let s = set_thr p (\<lambda>th. th\<lparr>tlock := spin_lock_init (tlock th), tname := name\<rparr>) s;
         (s, r) \<leftarrow> schedule_add_ready_list t s;
         if r < 0 then Some (unlock_sched (s\<lparr>tid_array := (tid_array s)(t := 0)\<rparr>), r)
         else do {
           s \<leftarrow> SYNC_THREAD_STATUS t NR_THREAD_READY s;
           Some (unlock_sched s, ER_NORMAL)
         }
       }
     }
   }"

definition thread_init_before :: "sched \<Rightarrow> sched option" where
  "thread_init_before s = do {
     a \<leftarrow> attr_of (sprt_work s) s;
     Some (set_thr (sprt_work s) (\<lambda>th. th\<lparr>expires := jiffies s + msecs_to_jiffies (thread_get_sched_msecs a)\<rparr>) s)
   }"

text \<open>The thread \<^verbatim>\<open>__schedule_thread\<close> takes the processor from: the running one, or the first
  ready one when nothing was ever scheduled. \<open>Some None\<close> is the jump to \<^verbatim>\<open>fail\<close>.\<close>

definition schedule_prev :: "sched \<Rightarrow> (sched \<times> u32) option option" where
  "schedule_prev s =
     (if sprt_work s \<noteq> 0 then Some (Some (s, sprt_work s))
      else if schedule_ref s \<noteq> 0 then Some None
      else do {
        let prev = first_valid_entry ReadyHead s;
        if prev = 0 then Some None
        else do { s \<leftarrow> SET_THREAD_STATUS (tid (thr s prev)) NR_THREAD_RUNNING s; Some (Some (s, prev)) }
      })"

definition default_status :: "u32 \<Rightarrow> sched \<Rightarrow> sched option" where
  "default_status prev s =
     (if to_status (thr s prev) = 0 then SET_THREAD_STATUS (tid (thr s prev)) NR_THREAD_READY s else Some s)"

definition schedule_context :: "u32 \<Rightarrow> sched \<Rightarrow> sched" where
  "schedule_context prev s =
     (let p = sprt_work s;
          s = s\<lparr>sgrt_context := \<lparr>entry = p, args = p, next_sp = sprt_attr (thr s p),
                prev_sp = (if schedule_ref s \<noteq> 0 then sprt_attr (thr s prev) else 0)\<rparr>\<rparr>
      in scheduler_record s)"

definition schedule_from :: "u32 \<Rightarrow> sched \<Rightarrow> (sched \<times> bool) option" where
  "schedule_from prev s = do {
     s \<leftarrow> default_status prev s;
     (s, r) \<leftarrow> schedule_thread_switch (tid (thr s prev)) s;
     if r < 0 \<or> sprt_work s = 0 then Some (s, False) else Some (schedule_context prev s, True)
   }"

definition do_schedule :: "sched \<Rightarrow> (sched \<times> bool) option" where
  "do_schedule s =
     (if mrt_list_head_empty (slinks s) ReadyHead then Some (s, False)
      else do {
        found \<leftarrow> schedule_prev s;
        (case found of None \<Rightarrow> Some (s, False) | Some (s, prev) \<Rightarrow> schedule_from prev s)
      })"

text \<open>
  \<open>context_switch\<close> is the part of \<^verbatim>\<open>__switch_to\<close> (\<^verbatim>\<open>arch/arm/kernel/context.S\<close>) that the scheduler's state sees: the
  first switch marks the scheduler as started, the time slice of the new thread is loaded, one
  level of the preemption count is taken off, and the status register becomes the new
  thread's (\<open>psr\<close>).
\<close>

definition context_switch :: "u32 \<Rightarrow> sched \<Rightarrow> sched option" where
  "context_switch psr s = do {
     let s = (if schedule_ref s = 0 then s\<lparr>schedule_ref := 1\<rparr> else s);
     s \<leftarrow> thread_init_before s;
     Some (s\<lparr>scpu := \<lparr>g_sched_preempt_cnt = g_sched_preempt_cnt (scpu s) - 1, cpsr = psr\<rparr>\<rparr>)
   }"

definition schedule_thread :: "(u32 \<Rightarrow> u32) \<Rightarrow> sched \<Rightarrow> sched option" where
  "schedule_thread psr s = do {
     let s = s\<lparr>scpu := mrt_preempt_disable (scpu s)\<rparr>;
     let saved = cpsr (scpu s);
     let s = s\<lparr>scpu := mrt_disable_cpu_irq (scpu s)\<rparr>;
     (s, ok) \<leftarrow> do_schedule s;
     if ok then context_switch (psr (sprt_work s)) s
     else Some (s\<lparr>scpu := mrt_preempt_enable ((scpu s)\<lparr>cpsr := saved\<rparr>)\<rparr>)
   }"

text \<open>
  \<^verbatim>\<open>__schedule_before\<close>, the way from the interrupt handler: it does nothing while preemption is
  disabled, and it reads the context block without looking whether \<^verbatim>\<open>__schedule_thread\<close> gave one.
\<close>

definition schedule_before :: "(u32 \<Rightarrow> u32) \<Rightarrow> sched \<Rightarrow> sched option" where
  "schedule_before psr s =
     (if g_sched_preempt_cnt (scpu s) \<noteq> 0 then Some s
      else do {
        let s = s\<lparr>scpu := (scpu s)\<lparr>g_sched_preempt_cnt := g_sched_preempt_cnt (scpu s) + 1\<rparr>\<rparr>;
        (s, ok) \<leftarrow> do_schedule s;
        if ok then context_switch (psr (sprt_work s)) s else None
      })"

definition schedule_self_suspend :: "(u32 \<Rightarrow> u32) \<Rightarrow> sched \<Rightarrow> sched option" where
  "schedule_self_suspend psr s = do {
     s \<leftarrow> lock_sched s;
     w \<leftarrow> deref (sprt_work s) s;
     s \<leftarrow> SET_THREAD_STATUS (tid w) NR_THREAD_SUSPEND s;
     schedule_thread psr (unlock_sched s)
   }"

definition schedule_self_sleep :: "(u32 \<Rightarrow> u32) \<Rightarrow> sched \<Rightarrow> sched option" where
  "schedule_self_sleep psr s = do {
     s \<leftarrow> lock_sched s;
     w \<leftarrow> deref (sprt_work s) s;
     s \<leftarrow> SET_THREAD_STATUS (tid w) NR_THREAD_SLEEP s;
     schedule_thread psr (unlock_sched s)
   }"

definition schedule_thread_suspend :: "(u32 \<Rightarrow> u32) \<Rightarrow> u32 \<Rightarrow> sched \<Rightarrow> (sched \<times> int) option" where
  "schedule_thread_suspend psr t s = do {
     w \<leftarrow> deref (sprt_work s) s;
     if t = tid w then do { s \<leftarrow> schedule_self_suspend psr s; Some (s, ER_NORMAL) }
     else do {
       s \<leftarrow> lock_sched s;
       s \<leftarrow> SET_THREAD_STATUS t NR_THREAD_SUSPEND s;
       (s, r) \<leftarrow> schedule_thread_switch t s;
       Some (unlock_sched s, r)
     }
   }"

definition schedule_thread_sleep :: "(u32 \<Rightarrow> u32) \<Rightarrow> u32 \<Rightarrow> sched \<Rightarrow> (sched \<times> int) option" where
  "schedule_thread_sleep psr t s = do {
     w \<leftarrow> deref (sprt_work s) s;
     if t = tid w then do { s \<leftarrow> schedule_self_sleep psr s; Some (s, ER_NORMAL) }
     else do {
       s \<leftarrow> lock_sched s;
       s \<leftarrow> SET_THREAD_STATUS t NR_THREAD_SLEEP s;
       (s, r) \<leftarrow> schedule_thread_switch t s;
       Some (unlock_sched s, r)
     }
   }"

definition schedule_thread_wakeup :: "u32 \<Rightarrow> sched \<Rightarrow> (sched \<times> int) option" where
  "schedule_thread_wakeup t s = do {
     s \<leftarrow> lock_sched s;
     st \<leftarrow> GET_THREAD_STATUS t s;
     if st \<noteq> NR_THREAD_SUSPEND \<and> st \<noteq> NR_THREAD_SLEEP then Some (unlock_sched s, - ER_UNVALID)
     else do {
       s \<leftarrow> SET_THREAD_STATUS t NR_THREAD_READY s;
       (s, r) \<leftarrow> schedule_thread_switch t s;
       Some (unlock_sched s, r)
     }
   }"

subsection \<open>Signals\<close>

definition mrt_thread_is_flags :: "nat \<Rightarrow> thread \<Rightarrow> bool" where
  "mrt_thread_is_flags sig th \<longleftrightarrow> tflags th AND push_bit sig 1 \<noteq> 0"
definition mrt_thread_set_flags :: "nat \<Rightarrow> thread \<Rightarrow> thread" where
  "mrt_thread_set_flags sig th = th\<lparr>tflags := tflags th OR push_bit sig 1\<rparr>"
definition mrt_thread_clr_flags :: "nat \<Rightarrow> thread \<Rightarrow> thread" where
  "mrt_thread_clr_flags sig th = th\<lparr>tflags := tflags th AND NOT (push_bit sig 1)\<rparr>"

definition thread_state_pending :: "u32 \<Rightarrow> sched \<Rightarrow> (sched \<times> bool) option" where
  "thread_state_pending p s = do {
     th \<leftarrow> deref p s;
     (c, l) \<leftarrow> spin_lock_irqsave (scpu s) (tlock th);
     let is_wakeup = mrt_thread_is_flags NR_THREAD_SIG_WAKEUP th;
     let is_killed = mrt_thread_is_flags NR_THREAD_SIG_KILL th;
     let th = mrt_thread_clr_flags NR_THREAD_SIG_KILL (mrt_thread_clr_flags NR_THREAD_SIG_WAKEUP th);
     let (c, l) = spin_unlock_irqrestore c l;
     Some (set_thr p (\<lambda>_. th\<lparr>tlock := l\<rparr>) (s\<lparr>scpu := c\<rparr>), is_wakeup \<or> is_killed)
   }"

definition thread_state_signal :: "u32 \<Rightarrow> nat \<Rightarrow> bool \<Rightarrow> sched \<Rightarrow> sched option" where
  "thread_state_signal p sig mode s = do {
     th \<leftarrow> deref p s;
     (c, l) \<leftarrow> spin_lock_irqsave (scpu s) (tlock th);
     let th = (if mode then mrt_thread_set_flags sig th else mrt_thread_clr_flags sig th);
     let (c, l) = spin_unlock_irqrestore c l;
     Some (set_thr p (\<lambda>_. th\<lparr>tlock := l\<rparr>) (s\<lparr>scpu := c\<rparr>))
   }"

end
