(* ===== verification/Sched_Lists.thy ===== *)
theory Sched_Lists
  imports Sched
begin

text \<open>
  What the lists of the scheduler represent, and what one switch of a thread does to them: the
  relation between the rings and lists of threads, insertion by priority, and for each kind of
  transition the lists afterwards, the refusals and the transitions that lose the thread.
\<close>

subsection \<open>What the lists represent\<close>

text \<open>
  \<open>lists_rel X s L srt\<close>: the three rings hold the threads \<open>L 2\<close>, \<open>L 3\<close> and \<open>L 4\<close>, each sorted by
  priority if \<open>srt\<close>, and every thread of the table is in one of them, running, or in \<open>X\<close> (the threads that
  an operation under way has taken out). \<open>stat_ok\<close>: the status field of a thread says where it is. The lists are
  sorted until the priority of a queued thread is changed, which \<^verbatim>\<open>thread_set_priority\<close> does in place; the operations
  do not rely on the order, so everything but the order is shown for both values of \<open>srt\<close>.
\<close>

definition statuses :: "u32 set" where
  "statuses = {NR_THREAD_READY, NR_THREAD_SUSPEND, NR_THREAD_SLEEP}"

definition head_of :: "u32 \<Rightarrow> slink" where
  "head_of st = (if st = NR_THREAD_READY then ReadyHead else if st = NR_THREAD_SUSPEND then SuspendHead else SleepHead)"

definition prio :: "sched \<Rightarrow> u32 \<Rightarrow> u32" where
  "prio s p = thread_get_priority (attrs s (sprt_attr (thr s p)))"

definition queued :: "(u32 \<Rightarrow> u32 list) \<Rightarrow> u32 set" where
  "queued L = (\<Union>st\<in>statuses. set (L st))"

definition known :: "sched \<Rightarrow> u32 \<Rightarrow> bool" where
  "known s p \<longleftrightarrow> p \<noteq> 0 \<and> sprt_attr (thr s p) \<noteq> 0 \<and> tid (thr s p) < THREAD_MAX_NUM \<and> tid_array s (tid (thr s p)) = p"

definition lists_rel :: "u32 set \<Rightarrow> sched \<Rightarrow> (u32 \<Rightarrow> u32 list) \<Rightarrow> bool \<Rightarrow> bool" where
  "lists_rel X s L srt \<longleftrightarrow>
     (\<forall>st\<in>statuses. ring (slinks s) (head_of st) (map ThreadLink (L st)) \<and> (srt \<longrightarrow> sorted (map (prio s) (L st)))) \<and>
     (\<forall>st\<in>statuses. \<forall>st'\<in>statuses. st \<noteq> st' \<longrightarrow> set (L st) \<inter> set (L st') = {}) \<and>
     sprt_work s \<notin> queued L \<union> X \<and> X \<inter> queued L = {} \<and>
     (\<forall>p\<in>queued L \<union> X. known s p) \<and> (sprt_work s \<noteq> 0 \<longrightarrow> known s (sprt_work s)) \<and>
     (\<forall>t<THREAD_MAX_NUM. tid_array s t \<noteq> 0 \<longrightarrow>
        tid (thr s (tid_array s t)) = t \<and> tid_array s t \<in> queued L \<union> X \<union> {sprt_work s})"

definition stat_ok :: "sched \<Rightarrow> (u32 \<Rightarrow> u32 list) \<Rightarrow> bool" where
  "stat_ok s L \<longleftrightarrow> (\<forall>st\<in>statuses. \<forall>p\<in>set (L st). status (thr s p) = st) \<and>
     (sprt_work s \<noteq> 0 \<longrightarrow> status (thr s (sprt_work s)) = NR_THREAD_RUNNING)"

definition lists_wf :: "sched \<Rightarrow> (u32 \<Rightarrow> u32 list) \<Rightarrow> bool \<Rightarrow> bool" where
  "lists_wf s L srt \<longleftrightarrow> lists_rel {} s L srt \<and> stat_ok s L"

abbreviation sched_rel :: "u32 set \<Rightarrow> sched \<Rightarrow> (u32 \<Rightarrow> u32 list) \<Rightarrow> bool" where
  "sched_rel X s L \<equiv> lists_rel X s L True"

abbreviation sched_wf :: "sched \<Rightarrow> (u32 \<Rightarrow> u32 list) \<Rightarrow> bool" where
  "sched_wf s L \<equiv> lists_wf s L True"

text \<open>What the operations on the lists leave alone.\<close>

definition sched_frame :: "sched \<Rightarrow> sched \<Rightarrow> bool" where
  "sched_frame s s' \<longleftrightarrow> attrs s' = attrs s \<and> tid_array s' = tid_array s \<and> sched_lock s' = sched_lock s \<and>
     schedule_ref s' = schedule_ref s \<and> sched_cnt s' = sched_cnt s \<and> cnt_out s' = cnt_out s \<and>
     sgrt_context s' = sgrt_context s \<and> tlinks s' = tlinks s \<and> timers s' = timers s \<and> jiffies s' = jiffies s \<and>
     (\<forall>q. \<exists>a b. thr s' q = (thr s q)\<lparr>status := a, to_status := b\<rparr>)"

lemma sched_frame_refl: "sched_frame s s"
proof -
  have "\<exists>a b. thr s q = (thr s q)\<lparr>status := a, to_status := b\<rparr>" for q
    by (rule exI[of _ "status (thr s q)"], rule exI[of _ "to_status (thr s q)"]) simp
  then show ?thesis by (simp add: sched_frame_def)
qed

lemma sched_frame_trans: "sched_frame s s' \<Longrightarrow> sched_frame s' s'' \<Longrightarrow> sched_frame s s''"
  unfolding sched_frame_def
proof (elim conjE, intro conjI allI)
  fix q assume "\<forall>q. \<exists>a b. thr s' q = (thr s q)\<lparr>status := a, to_status := b\<rparr>"
    and "\<forall>q. \<exists>a b. thr s'' q = (thr s' q)\<lparr>status := a, to_status := b\<rparr>"
  then obtain a b c d where "thr s' q = (thr s q)\<lparr>status := a, to_status := b\<rparr>"
    and "thr s'' q = (thr s' q)\<lparr>status := c, to_status := d\<rparr>" by meson
  then show "\<exists>a b. thr s'' q = (thr s q)\<lparr>status := a, to_status := b\<rparr>"
    by (intro exI[of _ c] exI[of _ d]) simp
qed simp_all

lemma sched_frame_thr:
  assumes "sched_frame s s'"
  shows "tid (thr s' q) = tid (thr s q)" and "sprt_attr (thr s' q) = sprt_attr (thr s q)"
proof -
  obtain a b where "thr s' q = (thr s q)\<lparr>status := a, to_status := b\<rparr>"
    using assms unfolding sched_frame_def by meson
  then show "tid (thr s' q) = tid (thr s q)" and "sprt_attr (thr s' q) = sprt_attr (thr s q)" by simp_all
qed

lemma sched_rel_cong:
  assumes "lists_rel X s L srt" and "slinks s' = slinks s" and "sprt_work s' = sprt_work s"
    and "tid_array s' = tid_array s" and "attrs s' = attrs s"
    and "\<And>q. tid (thr s' q) = tid (thr s q)" and "\<And>q. sprt_attr (thr s' q) = sprt_attr (thr s q)"
  shows "lists_rel X s' L srt"
proof -
  have "prio s' = prio s" "known s' = known s" using assms by (simp_all add: prio_def known_def fun_eq_iff)
  then show ?thesis using assms(1) by (simp add: lists_rel_def assms(2-))
qed

lemma sched_relD:
  assumes "lists_rel X s L srt"
  shows "st \<in> statuses \<Longrightarrow> ring (slinks s) (head_of st) (map ThreadLink (L st))"
    and "srt \<Longrightarrow> st \<in> statuses \<Longrightarrow> sorted (map (prio s) (L st))"
    and "st \<in> statuses \<Longrightarrow> st' \<in> statuses \<Longrightarrow> st \<noteq> st' \<Longrightarrow> set (L st) \<inter> set (L st') = {}"
    and "sprt_work s \<notin> queued L" and "sprt_work s \<notin> X" and "X \<inter> queued L = {}"
    and "p \<in> queued L \<Longrightarrow> known s p" and "p \<in> X \<Longrightarrow> known s p" and "sprt_work s \<noteq> 0 \<Longrightarrow> known s (sprt_work s)"
    and "t < THREAD_MAX_NUM \<Longrightarrow> tid_array s t \<noteq> 0 \<Longrightarrow> tid (thr s (tid_array s t)) = t"
    and "t < THREAD_MAX_NUM \<Longrightarrow> tid_array s t \<noteq> 0 \<Longrightarrow> tid_array s t \<in> queued L \<union> X \<union> {sprt_work s}"
  using assms unfolding lists_rel_def by blast+

lemma head_of_inj: "st \<in> statuses \<Longrightarrow> st' \<in> statuses \<Longrightarrow> head_of st = head_of st' \<longleftrightarrow> st = st'"
  by (auto simp: statuses_def head_of_def)

lemma head_of_thread [simp]: "head_of st \<noteq> ThreadLink p" "ThreadLink p \<noteq> head_of st"
  by (auto simp: head_of_def)

lemma head_of_simps [simp]: "head_of 2 = ReadyHead" "head_of 3 = SuspendHead" "head_of 4 = SleepHead"
  by (simp_all add: head_of_def)

lemma statuses_in [simp]: "2 \<in> statuses" "3 \<in> statuses" "4 \<in> statuses" "1 \<notin> statuses" "0 \<notin> statuses"
  by (simp_all add: statuses_def)

lemma first_entry_rel:
  assumes "lists_rel X s L srt" and "st \<in> statuses"
  shows "mrt_list_head_empty (slinks s) (head_of st) \<longleftrightarrow> L st = []"
    and "L st = q # qs \<Longrightarrow> first_valid_entry (head_of st) s = q"
  using ring_empty_iff[OF sched_relD(1)[OF assms]] ring_first[of "slinks s" "head_of st" "ThreadLink q" "map ThreadLink qs"]
    sched_relD(1)[OF assms] by (auto simp: first_valid_entry_def)

lemma queued_upd: "st \<in> statuses \<Longrightarrow> queued (L(st := xs)) = (\<Union>st'\<in>statuses - {st}. set (L st')) \<union> set xs"
  by (auto simp: queued_def split: if_splits)

text \<open>Other rings do not notice a change of one ring and of a node outside all of them.\<close>

lemma rings_other:
  assumes rel: "lists_rel X s L srt" and st: "st \<in> statuses" "st' \<in> statuses" "st' \<noteq> st" and p: "p \<notin> set (L st')"
    and same: "\<And>q. q \<notin> insert (ThreadLink p) (insert (head_of st) (set (map ThreadLink (L st)))) \<Longrightarrow> h q = slinks s q"
  shows "ring h (head_of st') (map ThreadLink (L st'))"
  by (rule ring_frame[OF sched_relD(1)[OF rel st(2)]])
     (rule same, use sched_relD(3)[OF rel st(2) st(1) st(3)] p head_of_inj[OF st(2) st(1)] st(3) in auto)

subsection \<open>Insertion by priority\<close>

text \<open>The reference: behind the last entry whose priority is at least as high (whose number is not greater).\<close>

fun prio_insert :: "(u32 \<Rightarrow> u32) \<Rightarrow> u32 \<Rightarrow> u32 list \<Rightarrow> u32 list" where
  "prio_insert k x [] = [x]"
| "prio_insert k x (y # ys) = (if \<exists>z\<in>set (y # ys). k z \<le> k x then y # prio_insert k x ys else x # y # ys)"

lemma prio_insert_split:
  "\<exists>ys zs. xs = ys @ zs \<and> prio_insert k x xs = ys @ x # zs \<and> (ys \<noteq> [] \<longrightarrow> k (last ys) \<le> k x) \<and> (\<forall>z\<in>set zs. k x < k z)"
proof (induction xs)
  case (Cons y xs)
  then obtain ys zs where s: "xs = ys @ zs" "prio_insert k x xs = ys @ x # zs" "ys \<noteq> [] \<longrightarrow> k (last ys) \<le> k x"
    "\<forall>z\<in>set zs. k x < k z" by blast
  show ?case
  proof (cases "\<exists>z\<in>set (y # xs). k z \<le> k x")
    case True
    then have "ys = [] \<Longrightarrow> k y \<le> k x" using s(1,4) by (auto simp: not_le[symmetric])
    then show ?thesis using True s by (intro exI[of _ "y # ys"] exI[of _ zs]) auto
  next
    case False
    then show ?thesis by (intro exI[of _ "[]"] exI[of _ "y # xs"]) (auto simp: not_le)
  qed
qed simp

lemma prio_insert_set [simp]: "set (prio_insert k x xs) = insert x (set xs)"
  by (induction xs) auto

lemma prio_insert_sorted:
  assumes "sorted (map k xs)"
  shows "sorted (map k (prio_insert k x xs))"
proof -
  obtain ys zs where s: "xs = ys @ zs" "prio_insert k x xs = ys @ x # zs" "ys \<noteq> [] \<longrightarrow> k (last ys) \<le> k x"
    "\<forall>z\<in>set zs. k x < k z" using prio_insert_split by blast
  have "k y \<le> k x" if "y \<in> set ys" for y
  proof -
    obtain us u where u: "ys = us @ [u]" using \<open>y \<in> set ys\<close> by (cases ys rule: rev_cases) auto
    then have "k y \<le> k u" using assms \<open>y \<in> set ys\<close> s(1) by (auto simp: sorted_append)
    then show ?thesis using u s(3) by auto
  qed
  then show ?thesis using assms s(1,2,4) by (fastforce simp: sorted_append intro: less_imp_le order.trans)
qed

lemma prio_insert_fifo:
  "filter (\<lambda>y. k y = v) (prio_insert k x xs) = filter (\<lambda>y. k y = v) xs @ (if k x = v then [x] else [])"
proof -
  obtain ys zs where "xs = ys @ zs" "prio_insert k x xs = ys @ x # zs" "\<forall>z\<in>set zs. k x < k z"
    using prio_insert_split by blast
  moreover from this(3) have "k x = v \<Longrightarrow> filter (\<lambda>y. k y = v) zs = []" by (auto simp: filter_empty_conv)
  ultimately show ?thesis by simp
qed

lemma find_rev_split:
  assumes "ys \<noteq> [] \<Longrightarrow> P (last ys)" and "\<And>z. z \<in> set zs \<Longrightarrow> \<not> P z"
  shows "List.find P (rev (ys @ zs)) = (if ys = [] then None else Some (last ys))"
proof -
  have none: "List.find P (rev zs @ us) = List.find P us" for us
    using assms(2) by (induction zs rule: rev_induct) auto
  show ?thesis
    by (cases ys rule: rev_cases) (use none assms(1) in \<open>auto simp: none[of "[]", simplified]\<close>)
qed

subsection \<open>Taking a thread out of a list and putting it in\<close>

lemma known_access:
  assumes "known s p"
  shows "SCHED_THREAD_HANDLER (tid (thr s p)) s = Some p" and "deref p s = Some (thr s p)"
    and "attr_of p s = Some (attrs s (sprt_attr (thr s p)))" and "p \<noteq> 0"
  using assms by (simp_all add: known_def SCHED_THREAD_HANDLER_def deref_def attr_of_def)

text \<open>The list structure after the list of one status got other members.\<close>

lemma sched_rel_upd:
  assumes rel: "lists_rel X s L srt" and st: "st \<in> statuses"
    and h: "ring h (head_of st) (map ThreadLink xs)"
    and same: "\<And>q. q \<notin> insert (ThreadLink p) (insert (head_of st) (set (map ThreadLink (L st)))) \<Longrightarrow> h q = slinks s q"
    and xs: "srt \<longrightarrow> sorted (map (prio s) xs)" "insert p (set xs) = insert p (set (L st))"
    and p: "p \<noteq> sprt_work s" "known s p" "p \<notin> queued (L(st := []))"
    and Y: "Y - {p} = X - {p}" "p \<in> Y \<longleftrightarrow> p \<notin> set xs"
  shows "lists_rel Y (s\<lparr>slinks := h\<rparr>) (L(st := xs)) srt"
proof -
  let ?s = "s\<lparr>slinks := h\<rparr>"
  have q: "queued (L(st := xs)) = (\<Union>st'\<in>statuses - {st}. set (L st')) \<union> set xs"
    and q0: "queued L = (\<Union>st'\<in>statuses - {st}. set (L st')) \<union> set (L st)"
    and p': "p \<notin> (\<Union>st'\<in>statuses - {st}. set (L st'))"
    using p(3) queued_upd[OF st, of L] queued_upd[OF st, of L "L st"] by (simp_all add: fun_upd_idem)
  have pk: "prio ?s = prio s" "known ?s = known s" by (simp_all add: prio_def known_def fun_eq_iff)
  have rings: "ring h (head_of st') (map ThreadLink ((L(st := xs)) st'))" if "st' \<in> statuses" for st'
  proof (cases "st' = st")
    case False
    then show ?thesis using rings_other[OF rel st that False, of p h] same that p' by auto
  qed (simp add: h)
  have un: "insert p (queued (L(st := xs)) \<union> Y) = insert p (queued L \<union> X)"
    using xs(2) Y(1) unfolding q q0 by blast
  have in_un: "p \<in> queued (L(st := xs)) \<union> Y" using Y(2) unfolding q by blast
  show ?thesis unfolding lists_rel_def pk
  proof (intro conjI ballI impI allI)
    fix a b assume ab: "a \<in> statuses" "b \<in> statuses" "a \<noteq> b"
    show "set ((L(st := xs)) a) \<inter> set ((L(st := xs)) b) = {}"
      using sched_relD(3)[OF rel ab] xs(2) p' ab by (auto split: if_splits)
  next
    fix t assume "t < THREAD_MAX_NUM" "tid_array ?s t \<noteq> 0"
    then show "tid (thr ?s (tid_array ?s t)) = t"
      and "tid_array ?s t \<in> queued (L(st := xs)) \<union> Y \<union> {sprt_work ?s}"
      using sched_relD(10,11)[OF rel, of t] un in_un by auto
  next
    show "Y \<inter> queued (L(st := xs)) = {}"
      using sched_relD(6)[OF rel] Y xs(2) p' unfolding q q0 by blast
  next
    show "sprt_work ?s \<notin> queued (L(st := xs)) \<union> Y" using sched_relD(4,5)[OF rel] p(1) un by auto
  next
    fix r assume "r \<in> queued (L(st := xs)) \<union> Y"
    then have "r = p \<or> r \<in> queued L \<union> X" using un by auto
    then show "known s r" using p(2) sched_relD(7,8)[OF rel] by auto
  qed (use rings xs(1) sched_relD(2,9)[OF rel] in auto)
qed

lemma del_status_list_rel:
  assumes rel: "lists_rel X s L srt" and st: "st \<in> statuses" and p: "p \<in> set (L st)"
  shows "\<exists>h. schedule_del_status_list p (head_of st) s = Some (s\<lparr>slinks := h\<rparr>) \<and>
             lists_rel (insert p X) (s\<lparr>slinks := h\<rparr>) (L(st := remove1 p (L st))) srt"
proof -
  let ?h = "list_head_del (slinks s) (ThreadLink p)"
  note r = sched_relD(1)[OF rel st]
  have pq: "p \<in> queued L" using p st by (auto simp: queued_def)
  have dist: "distinct (L st)" using ring_distinct[OF r] by (simp add: distinct_map)
  have inj: "remove1 (ThreadLink p) (map ThreadLink xs) = map ThreadLink (remove1 p xs)" for xs
    by (induction xs) auto
  have "schedule_del_status_list p (head_of st) s = Some (s\<lparr>slinks := ?h\<rparr>)"
    using p known_access(4)[OF sched_relD(7)[OF rel pq]]
    by (auto simp: schedule_del_status_list_def list_head_del_safe_ring[OF r])
  moreover have "lists_rel (insert p X) (s\<lparr>slinks := ?h\<rparr>) (L(st := remove1 p (L st))) srt"
  proof (rule sched_rel_upd[OF rel st, of ?h "remove1 p (L st)" p])
    show "ring ?h (head_of st) (map ThreadLink (remove1 p (L st)))"
      using del_ring[OF r, of "ThreadLink p"] p by (simp add: inj)
    show "?h q = slinks s q" if "q \<notin> insert (ThreadLink p) (insert (head_of st) (set (map ThreadLink (L st))))" for q
      by (rule del_other[OF r]) (use that p in auto)
    show "srt \<longrightarrow> sorted (map (prio s) (remove1 p (L st)))" using sorted_map_remove1[OF sched_relD(2)[OF rel _ st]] by simp
    show "p \<noteq> sprt_work s" using sched_relD(4)[OF rel] pq by auto
    show "p \<notin> queued (L(st := []))"
      using p sched_relD(3)[OF rel _ st] by (auto simp: queued_def split: if_splits)
  qed (use dist p sched_relD(7)[OF rel pq] in auto)
  ultimately show ?thesis by blast
qed

lemma add_status_list_rel:
  assumes rel: "lists_rel X s L srt" and st: "st \<in> statuses" and p: "p \<in> X"
  shows "\<exists>h. schedule_add_status_list p (head_of st) s = Some (s\<lparr>slinks := h\<rparr>, ER_NORMAL) \<and>
             lists_rel (X - {p}) (s\<lparr>slinks := h\<rparr>) (L(st := prio_insert (prio s) p (L st))) srt"
proof -
  note r = sched_relD(1)[OF rel st]
  note kp = sched_relD(8)[OF rel p]
  have pq: "p \<notin> queued L" using p sched_relD(6)[OF rel] by auto
  then have pL: "p \<notin> set (L st)" using st by (auto simp: queued_def)
  obtain ys zs where L: "L st = ys @ zs" and ins: "prio_insert (prio s) p (L st) = ys @ p # zs"
    and le: "ys \<noteq> [] \<longrightarrow> prio s (last ys) \<le> prio s p" and gt: "\<forall>z\<in>set zs. prio s p < prio s z"
    using prio_insert_split[of "L st" "prio s" p] by blast
  define at where "at = (if ys = [] then head_of st else ThreadLink (last ys))"
  let ?h = "list_head_add_head (slinks s) at (ThreadLink p)"
  have lp: "link_prio s (ThreadLink y) = prio s y" for y by (simp add: link_prio_def prio_def)
  have "List.find (\<lambda>l. link_prio s l \<le> prio s p) (rev (map ThreadLink ys @ map ThreadLink zs)) =
        (if map ThreadLink ys = [] then None else Some (last (map ThreadLink ys)))"
    by (rule find_rev_split) (use le gt in \<open>auto simp: lp last_map not_le\<close>)
  then have scan: "foreach_list_prev_entry (slinks s) (head_of st) (\<lambda>l. IS_LOW_PRIO (prio s p) (link_prio s l)) =
        Some (if ys = [] then None else Some (ThreadLink (last ys)))"
    unfolding foreach_list_prev_entry_ring[OF r] L map_append IS_LOW_PRIO_def by (cases "ys = []") (simp_all add: last_map)
  have "List.find (\<lambda>l. link_thread l = p) (map ThreadLink (L st)) = None"
    using pL by (auto simp: find_None_iff)
  then have find: "find_thread_from_scheduler (tid (thr s p)) (head_of st) s = Some (- ER_NOTFOUND)"
    by (simp add: find_thread_from_scheduler_def known_access(1)[OF kp] foreach_list_next_entry_ring[OF r])
  have emp: "mrt_list_head_empty (slinks s) (head_of st) \<Longrightarrow> ys = []"
    using ring_empty_iff[OF r] L by auto
  have pr: "thread_get_priority (attrs s (sprt_attr (thr s p))) = prio s p" by (simp add: prio_def)
  have "schedule_add_status_list p (head_of st) s = Some (s\<lparr>slinks := ?h\<rparr>, ER_NORMAL)"
  proof (cases "mrt_list_head_empty (slinks s) (head_of st)")
    case True
    then show ?thesis using known_access(3,4)[OF kp] emp by (simp add: schedule_add_status_list_def at_def Let_def)
  next
    case False
    then show ?thesis using known_access(3,4)[OF kp]
      by (cases "ys = []") (simp_all add: schedule_add_status_list_def find pr scan at_def er_code Let_def)
  qed
  moreover have "lists_rel (X - {p}) (s\<lparr>slinks := ?h\<rparr>) (L(st := prio_insert (prio s) p (L st))) srt"
  proof (rule sched_rel_upd[OF rel st, of ?h "prio_insert (prio s) p (L st)" p])
    have at: "at \<in> insert (head_of st) (set (map ThreadLink (L st)))" by (auto simp: at_def L)
    show "?h q = slinks s q" if "q \<notin> insert (ThreadLink p) (insert (head_of st) (set (map ThreadLink (L st))))" for q
      by (rule add_head_other[OF r at]) (use that in auto)
    have "ring ?h (head_of st) (map ThreadLink (ys @ p # zs))"
    proof (cases ys rule: rev_cases)
      case Nil
      then show ?thesis using add_head_ring[OF r, of "ThreadLink p"] pL L by (auto simp: at_def)
    next
      case (snoc us u)
      then show ?thesis
        using add_head_at[of "slinks s" "head_of st" "map ThreadLink us" "ThreadLink u" "map ThreadLink zs" "ThreadLink p"]
          r pL L by (auto simp: at_def)
    qed
    then show "ring ?h (head_of st) (map ThreadLink (prio_insert (prio s) p (L st)))" by (simp only: ins)
    show "p \<notin> queued (L(st := []))" using pq by (auto simp: queued_def split: if_splits)
    show "p \<noteq> sprt_work s" using p sched_relD(5)[OF rel] by auto
  qed (use prio_insert_sorted[OF sched_relD(2)[OF rel _ st]] kp in auto)
  ultimately show ?thesis by blast
qed

subsection \<open>One switch\<close>

definition set_status :: "u32 \<Rightarrow> u32 \<Rightarrow> sched \<Rightarrow> sched" where
  "set_status p st s = set_thr p (\<lambda>t. t\<lparr>status := st, to_status := NR_THREAD_NONE\<rparr>) s"

lemma set_status_sel [simp]:
  "slinks (set_status p st s) = slinks s" "sprt_work (set_status p st s) = sprt_work s"
  "tid_array (set_status p st s) = tid_array s" "attrs (set_status p st s) = attrs s"
  "scpu (set_status p st s) = scpu s" "schedule_ref (set_status p st s) = schedule_ref s"
  "tid (thr (set_status p st s) q) = tid (thr s q)" "sprt_attr (thr (set_status p st s) q) = sprt_attr (thr s q)"
  "status (thr (set_status p st s) q) = (if q = p then st else status (thr s q))"
  "to_status (thr (set_status p st s) q) = (if q = p then 0 else to_status (thr s q))"
  by (simp_all add: set_status_def set_thr_def)

lemma sched_view [simp]:
  "prio (s\<lparr>slinks := h\<rparr>) = prio s" "prio (s\<lparr>scpu := c\<rparr>) = prio s" "prio (s\<lparr>sprt_work := w\<rparr>) = prio s"
  "prio (set_status p st s) = prio s"
  "known (s\<lparr>slinks := h\<rparr>) = known s" "known (s\<lparr>scpu := c\<rparr>) = known s" "known (s\<lparr>sprt_work := w\<rparr>) = known s"
  "known (set_status p st s) = known s"
  by (simp_all add: prio_def known_def fun_eq_iff)

lemma sched_rel_set_status: "lists_rel X s L srt \<Longrightarrow> lists_rel X (set_status p st s) L srt"
  by (erule sched_rel_cong) simp_all

lemma sched_rel_scpu: "lists_rel X s L srt \<Longrightarrow> lists_rel X (s\<lparr>scpu := c\<rparr>) L srt"
  by (erule sched_rel_cong) simp_all

lemma SYNC_known: "known s p \<Longrightarrow> st < 5 \<Longrightarrow> SYNC_THREAD_STATUS (tid (thr s p)) st s = Some (set_status p st s)"
  by (simp add: SYNC_THREAD_STATUS_def known_access set_status_def)

lemma sched_frame_upd:
  "sched_frame s (s\<lparr>slinks := h\<rparr>)" "sched_frame s (s\<lparr>scpu := c\<rparr>)" "sched_frame s (s\<lparr>sprt_work := w\<rparr>)"
  "sched_frame s (set_status p st s)"
proof -
  show "sched_frame s (set_status p st s)"
    using sched_frame_refl[of s] by (auto simp: sched_frame_def set_status_def set_thr_def)
qed (use sched_frame_refl[of s] in \<open>simp_all add: sched_frame_def\<close>)

text \<open>The roles of the running thread and of one in \<open>X\<close> are exchanged.\<close>

lemma sched_rel_work:
  assumes rel: "lists_rel X s L srt" and q: "q \<in> X"
  shows "lists_rel (X - {q} \<union> ({sprt_work s} - {0})) (s\<lparr>sprt_work := q\<rparr>) L srt"
  using rel q sched_relD(9)[OF rel] sched_relD(8)[OF rel q] unfolding lists_rel_def sched_view
  by (auto simp: known_def)

lemma add_status_work:
  "schedule_add_status_list p head (s\<lparr>sprt_work := w\<rparr>) =
   map_option (\<lambda>(s', r). (s'\<lparr>sprt_work := w\<rparr>, r)) (schedule_add_status_list p head s)"
proof -
  have 1: "attr_of p (s\<lparr>sprt_work := w\<rparr>) = attr_of p s" for p by (simp add: attr_of_def)
  have 2: "find_thread_from_scheduler t head (s\<lparr>sprt_work := w\<rparr>) = find_thread_from_scheduler t head s" for t
    by (simp add: find_thread_from_scheduler_def SCHED_THREAD_HANDLER_def)
  have 3: "link_prio (s\<lparr>sprt_work := w\<rparr>) = link_prio s" by (simp add: link_prio_def fun_eq_iff)
  show ?thesis by (simp add: schedule_add_status_list_def 1 2 3 Let_def split: Option.bind_split)
qed

lemma switch_detach_rel:
  assumes rel: "lists_rel X s L srt" and st: "st \<in> statuses" and p: "p \<in> set (L st)" and "status (thr s p) = st"
  shows "\<exists>h. switch_detach st (tid (thr s p)) s = Some (s\<lparr>slinks := h\<rparr>, ER_NORMAL) \<and>
             lists_rel (insert p X) (s\<lparr>slinks := h\<rparr>) (L(st := remove1 p (L st))) srt"
proof -
  obtain h where h: "schedule_del_status_list p (head_of st) s = Some (s\<lparr>slinks := h\<rparr>)"
    "lists_rel (insert p X) (s\<lparr>slinks := h\<rparr>) (L(st := remove1 p (L st))) srt"
    using del_status_list_rel[OF rel st p] by blast
  have k: "known s p" using p st sched_relD(7)[OF rel] by (auto simp: queued_def)
  have "switch_detach st (tid (thr s p)) s = Some (s\<lparr>slinks := h\<rparr>, ER_NORMAL)"
    using st assms(4) h(1) known_access[OF k]
    by (auto simp: switch_detach_def schedule_detach_ready_list_def schedule_detach_suspend_list_def
        schedule_detach_sleep_list_def statuses_def head_of_def)
  then show ?thesis using h(2) by blast
qed

lemma switch_attach_rel:
  assumes rel: "lists_rel X s L srt" and st: "st \<in> statuses" and p: "p \<in> X" and "status (thr s p) \<noteq> st"
  shows "\<exists>h. switch_attach st (tid (thr s p)) s = Some (s\<lparr>slinks := h\<rparr>, ER_NORMAL) \<and>
             lists_rel (X - {p}) (s\<lparr>slinks := h\<rparr>) (L(st := prio_insert (prio s) p (L st))) srt"
proof -
  obtain h where h: "schedule_add_status_list p (head_of st) s = Some (s\<lparr>slinks := h\<rparr>, ER_NORMAL)"
    "lists_rel (X - {p}) (s\<lparr>slinks := h\<rparr>) (L(st := prio_insert (prio s) p (L st))) srt"
    using add_status_list_rel[OF rel st p] by blast
  have "switch_attach st (tid (thr s p)) s = Some (s\<lparr>slinks := h\<rparr>, ER_NORMAL)"
    using st assms(4) h(1) known_access[OF sched_relD(8)[OF rel p]]
    by (auto simp: switch_attach_def schedule_add_ready_list_def schedule_add_suspend_list_def
        schedule_add_sleep_list_def statuses_def head_of_def)
  then show ?thesis using h(2) by blast
qed

lemma reinstall_rel:
  assumes rel: "lists_rel {} s L srt" and w: "sprt_work s \<noteq> 0" and L: "L NR_THREAD_READY = q # rs"
    and q: "status (thr s q) = NR_THREAD_READY"
  shows "\<exists>h. schedule_reinstall_work_role (tid (thr s (sprt_work s))) s =
               Some (set_status q NR_THREAD_RUNNING (s\<lparr>slinks := h, sprt_work := q\<rparr>), ER_NORMAL) \<and>
             lists_rel {sprt_work s} (s\<lparr>slinks := h, sprt_work := q\<rparr>) (L(NR_THREAD_READY := rs)) srt"
proof -
  have st: "NR_THREAD_READY \<in> statuses" by simp
  have "q \<in> queued L" using L st unfolding queued_def by (intro UN_I[of NR_THREAD_READY]) simp_all
  then have kq: "known s q" by (rule sched_relD(7)[OF rel])
  obtain h where h: "schedule_del_status_list q ReadyHead s = Some (s\<lparr>slinks := h\<rparr>)"
    "lists_rel {q} (s\<lparr>slinks := h\<rparr>) (L(NR_THREAD_READY := rs)) srt"
    using del_status_list_rel[OF rel st, of q] L by auto
  have "first_valid_entry ReadyHead s = q" "\<not> mrt_list_head_empty (slinks s) ReadyHead"
    using first_entry_rel[OF rel st] L by simp_all
  moreover have "schedule_detach_ready_list (tid (thr s q)) s = Some (s\<lparr>slinks := h\<rparr>, ER_NORMAL)"
    using h(1) q known_access[OF kq] by (simp add: schedule_detach_ready_list_def)
  moreover have "SYNC_THREAD_STATUS (tid (thr s q)) 1 (s\<lparr>slinks := h, sprt_work := q\<rparr>) =
      Some (set_status q 1 (s\<lparr>slinks := h, sprt_work := q\<rparr>))"
    using SYNC_known[of "s\<lparr>slinks := h, sprt_work := q\<rparr>" q 1] kq by (simp add: known_def)
  ultimately have "schedule_reinstall_work_role (tid (thr s (sprt_work s))) s =
      Some (set_status q NR_THREAD_RUNNING (s\<lparr>slinks := h, sprt_work := q\<rparr>), ER_NORMAL)"
    using w known_access(4)[OF kq] by (simp add: schedule_reinstall_work_role_def deref_def Let_def)
  moreover have "lists_rel {sprt_work s} (s\<lparr>slinks := h, sprt_work := q\<rparr>) (L(NR_THREAD_READY := rs)) srt"
    using sched_rel_work[OF h(2), of q] w by (auto simp: insert_Diff_if)
  ultimately show ?thesis by blast
qed

lemma despoil_rel:
  assumes rel: "lists_rel {p} s L srt" and p: "status (thr s p) = NR_THREAD_READY"
    and w: "sprt_work s \<noteq> 0" "status (thr s (sprt_work s)) \<noteq> NR_THREAD_READY"
  shows "\<exists>h. schedule_despoil_work_role (tid (thr s p)) s =
               Some ((set_status (sprt_work s) NR_THREAD_READY (s\<lparr>slinks := h\<rparr>))\<lparr>sprt_work := p\<rparr>, ER_NORMAL) \<and>
             lists_rel {} (s\<lparr>slinks := h, sprt_work := p\<rparr>)
               (L(NR_THREAD_READY := prio_insert (prio s) (sprt_work s) (L NR_THREAD_READY))) srt"
proof -
  let ?w = "sprt_work s" and ?s = "s\<lparr>sprt_work := p\<rparr>"
  have st: "NR_THREAD_READY \<in> statuses" by simp
  have kp: "known s p" using sched_relD(8)[OF rel] by simp
  have kw: "known s ?w" by (rule sched_relD(9)[OF rel w(1)])
  have rel': "lists_rel {?w} ?s L srt" using sched_rel_work[OF rel, of p] w(1) by (simp add: insert_Diff_if)
  obtain h where h: "schedule_add_status_list ?w (head_of NR_THREAD_READY) ?s = Some (?s\<lparr>slinks := h\<rparr>, ER_NORMAL)"
    "lists_rel {} (?s\<lparr>slinks := h\<rparr>) (L(NR_THREAD_READY := prio_insert (prio s) ?w (L NR_THREAD_READY))) srt"
    using add_status_list_rel[OF rel' st, of ?w] by auto
  then obtain s1 where s1: "schedule_add_status_list ?w ReadyHead s = Some (s1, ER_NORMAL)"
    "s1\<lparr>sprt_work := p\<rparr> = ?s\<lparr>slinks := h\<rparr>"
    unfolding add_status_work by (auto simp: head_of_def)
  have "schedule_add_status_list ?w ReadyHead (s\<lparr>sprt_work := ?w\<rparr>) = Some (s1\<lparr>sprt_work := ?w\<rparr>, ER_NORMAL)"
    unfolding add_status_work by (simp add: s1(1))
  then have "s1 = s1\<lparr>sprt_work := ?w\<rparr>" using s1(1) by simp
  also have "\<dots> = (s1\<lparr>sprt_work := p\<rparr>)\<lparr>sprt_work := ?w\<rparr>" by simp
  also have "\<dots> = s\<lparr>slinks := h\<rparr>" unfolding s1(2) by simp
  finally have s1': "s1 = s\<lparr>slinks := h\<rparr>" .
  have "SYNC_THREAD_STATUS (tid (thr s ?w)) 2 (s\<lparr>slinks := h\<rparr>) = Some (set_status ?w 2 (s\<lparr>slinks := h\<rparr>))"
    using SYNC_known[of "s\<lparr>slinks := h\<rparr>" ?w 2] kw by simp
  then have "schedule_despoil_work_role (tid (thr s p)) s =
      Some ((set_status ?w NR_THREAD_READY (s\<lparr>slinks := h\<rparr>))\<lparr>sprt_work := p\<rparr>, ER_NORMAL)"
    using p w s1(1) s1' known_access[OF kp] known_access[OF kw]
    by (simp add: schedule_despoil_work_role_def schedule_add_ready_list_def er_code)
  moreover have "s\<lparr>sprt_work := p, slinks := h\<rparr> = s\<lparr>slinks := h, sprt_work := p\<rparr>" by simp
  ultimately show ?thesis using h(2) by (intro exI[of _ h]) (simp only: simp_thms)
qed

text \<open>
  The contract of a switch on the lists: the running thread gives way to the first ready one, a
  ready thread that is to run sends the running one back to the ready list, and a thread enters
  its new list by priority.
\<close>

definition sched_move ::
  "(u32 \<Rightarrow> u32) \<Rightarrow> u32 \<Rightarrow> u32 \<Rightarrow> u32 \<Rightarrow> (u32 \<Rightarrow> u32 list) \<times> u32 \<Rightarrow> (u32 \<Rightarrow> u32 list) \<times> u32" where
  "sched_move k p src dst = (\<lambda>(L, w).
     if src = NR_THREAD_RUNNING then
       let L' = L(NR_THREAD_READY := List.tl (L NR_THREAD_READY))
       in (L'(dst := prio_insert k p (L' dst)), List.hd (L NR_THREAD_READY))
     else
       let L' = L(src := remove1 p (L src))
       in if dst = NR_THREAD_RUNNING then (L'(NR_THREAD_READY := prio_insert k w (L' NR_THREAD_READY)), p)
          else (L'(dst := prio_insert k p (L' dst)), w))"

definition switch_allowed :: "u32 \<Rightarrow> u32 \<Rightarrow> u32 \<Rightarrow> (u32 \<Rightarrow> u32 list) \<Rightarrow> bool" where
  "switch_allowed t src dst L \<longleftrightarrow> src \<noteq> dst \<and> dst \<noteq> NR_THREAD_NONE \<and> dst < NR_THREAD_STATUS_MAX \<and>
     (dst = NR_THREAD_RUNNING \<longrightarrow> src = NR_THREAD_READY) \<and>
     (t = THREAD_TID_IDLE \<longrightarrow> dst = NR_THREAD_RUNNING \<or> dst = NR_THREAD_READY) \<and>
     (src = NR_THREAD_RUNNING \<longrightarrow> L NR_THREAD_READY \<noteq> [])"

lemma preempt_pair: "g_sched_preempt_cnt c \<noteq> - 1 \<Longrightarrow> mrt_preempt_enable (mrt_preempt_disable c) = c"
  by (cases c) (auto simp: preempt_simps COUNT_INC_def COUNT_DEC_def add_eq_0_iff2)

lemma status_cases: "(d :: u32) \<noteq> 0 \<Longrightarrow> d < 5 \<Longrightarrow> d = 1 \<or> d \<in> statuses"
proof -
  assume "d \<noteq> 0" "d < 5"
  then have "unat d \<noteq> 0" "unat d < 5" by (auto simp: unat_eq_0 word_less_nat_alt)
  then have "unat d = 1 \<or> unat d = 2 \<or> unat d = 3 \<or> unat d = 4" by arith
  then show ?thesis by (auto simp: statuses_def u32_eq_iff)
qed

lemma statuses_neq: "st \<in> statuses \<Longrightarrow> st \<noteq> 0 \<and> st \<noteq> 1 \<and> st < 5"
  by (auto simp: statuses_def)

lemma switch_end_known:
  assumes "known s p" and "st < 5"
  shows "switch_end (tid (thr s p)) st r s =
         Some ((set_status p st s)\<lparr>scpu := mrt_preempt_enable (scpu s)\<rparr>, r)"
  using assms by (simp add: switch_end_def SYNC_known)

lemma sched_wf_place:
  assumes wf: "lists_wf s L srt" and p: "known s p"
  shows "status (thr s p) = NR_THREAD_RUNNING \<and> p = sprt_work s \<or>
         status (thr s p) \<in> statuses \<and> p \<in> set (L (status (thr s p)))"
proof -
  have "p \<in> queued L \<union> {sprt_work s}"
    using wf p sched_relD(11)[of "{}" s L srt "tid (thr s p)"] by (auto simp: lists_wf_def known_def)
  then show ?thesis using wf p by (auto simp: lists_wf_def stat_ok_def queued_def known_def)
qed

lemma stat_ok_moved:
  assumes ok: "stat_ok s L" and rel: "lists_rel X s' L' srt" and dst: "dst \<in> statuses" "p \<in> set (L' dst)"
    and sub: "\<And>st. st \<in> statuses \<Longrightarrow> set (L' st) \<subseteq> insert p (set (L st))"
    and st: "\<And>q. status (thr s' q) = (if q = p then dst else if q = w then 1 else status (thr s q))"
    and w: "sprt_work s' = w" "w \<noteq> p" "w \<notin> queued L'"
  shows "stat_ok s' L'"
  unfolding stat_ok_def
proof (intro conjI ballI impI)
  fix a q assume a: "a \<in> statuses" "q \<in> set (L' a)"
  then have "q \<noteq> w" using w(3) by (auto simp: queued_def)
  moreover have "q = p \<Longrightarrow> a = dst" using sched_relD(3)[OF rel a(1) dst(1)] dst(2) a(2) by auto
  moreover have "q \<noteq> p \<Longrightarrow> status (thr s q) = a" using ok sub[OF a(1)] a by (auto simp: stat_ok_def)
  ultimately show "status (thr s' q) = a" using st by simp
qed (use st w in simp)

lemma switch_run:
  assumes k: "known s p" and t: "t = tid (thr s p)"
    and guards: "status (thr s p) \<noteq> to_status (thr s p)" "to_status (thr s p) < NR_THREAD_STATUS_MAX"
      "t = THREAD_TID_IDLE \<longrightarrow> to_status (thr s p) = NR_THREAD_RUNNING \<or> to_status (thr s p) = NR_THREAD_READY"
    and det: "switch_detach (status (thr s p)) t (s\<lparr>scpu := mrt_preempt_disable (scpu s)\<rparr>) = Some (s1, ER_NORMAL)"
    and att: "switch_attach (to_status (thr s p)) t s1 = Some (s2, ER_NORMAL)"
    and s2: "sprt_work s2 \<noteq> 0" "known s2 p" "tid (thr s2 p) = t" "scpu s2 = mrt_preempt_disable (scpu s)"
    and cnt: "g_sched_preempt_cnt (scpu s) \<noteq> - 1"
  shows "schedule_thread_switch t s = Some ((set_status p (to_status (thr s p)) s2)\<lparr>scpu := scpu s\<rparr>, ER_NORMAL)"
proof -
  let ?s0 = "s\<lparr>scpu := mrt_preempt_disable (scpu s)\<rparr>"
  have "SCHED_THREAD_HANDLER t ?s0 = Some p" "deref p ?s0 = Some (thr s p)"
    using known_access(1,2)[of ?s0 p] k t by simp_all
  moreover have "switch_end t (to_status (thr s p)) ER_NORMAL s2 =
      Some ((set_status p (to_status (thr s p)) s2)\<lparr>scpu := scpu s\<rparr>, ER_NORMAL)"
    using switch_end_known[OF s2(2), of "to_status (thr s p)"] guards(2) s2(3,4) preempt_pair[OF cnt] by simp
  moreover have "\<not> (status (thr s p) = to_status (thr s p) \<or> to_status (thr s p) \<ge> NR_THREAD_STATUS_MAX)"
    "\<not> (t = THREAD_TID_IDLE \<and> to_status (thr s p) \<noteq> NR_THREAD_RUNNING \<and> to_status (thr s p) \<noteq> NR_THREAD_READY)"
    using guards(1,3) guards(2)[unfolded not_le[symmetric]] by blast+
  ultimately show ?thesis using det att s2(1)
    by (simp only: schedule_thread_switch_def Let_def Option.bind.bind_lunit if_False prod.case) (simp add: er_code)
qed

lemma fun_upd_upd_in:
  "set ((L(a := xs, b := ys)) c) \<subseteq> (if c = b then set ys else if c = a then set xs else set (L c))"
  by simp

text \<open>From one list to another.\<close>

lemma switch_list_to_list:
  assumes wf: "lists_wf s L srt" and k: "known s p" and w: "sprt_work s \<noteq> 0" and cnt: "g_sched_preempt_cnt (scpu s) \<noteq> - 1"
    and src: "src = status (thr s p)" "src \<in> statuses" and dst: "dst = to_status (thr s p)" "dst \<in> statuses" "src \<noteq> dst"
    and idle: "tid (thr s p) = THREAD_TID_IDLE \<longrightarrow> dst = NR_THREAD_READY"
  shows "\<exists>s'. schedule_thread_switch (tid (thr s p)) s = Some (s', ER_NORMAL) \<and>
           lists_wf s' (fst (sched_move (prio s) p src dst (L, sprt_work s))) srt \<and>
           sprt_work s' = sprt_work s \<and> scpu s' = scpu s \<and> sched_frame s s'"
proof -
  let ?s0 = "s\<lparr>scpu := mrt_preempt_disable (scpu s)\<rparr>"
  define L1 where "L1 = L(src := remove1 p (L src))"
  define L2 where "L2 = L1(dst := prio_insert (prio s) p (L1 dst))"
  have rel: "lists_rel {} ?s0 L srt" and ok: "stat_ok s L" using wf sched_rel_scpu by (auto simp: lists_wf_def)
  have pL: "p \<in> set (L src)" using sched_wf_place[OF wf k] src by auto
  obtain h1 where h1: "switch_detach src (tid (thr s p)) ?s0 = Some (?s0\<lparr>slinks := h1\<rparr>, ER_NORMAL)"
    "lists_rel {p} (?s0\<lparr>slinks := h1\<rparr>) L1 srt"
    using switch_detach_rel[OF rel src(2) pL] src(1) by (auto simp: L1_def)
  obtain h2 where h2: "switch_attach dst (tid (thr s p)) (?s0\<lparr>slinks := h1\<rparr>) = Some (?s0\<lparr>slinks := h2\<rparr>, ER_NORMAL)"
    "lists_rel {} (?s0\<lparr>slinks := h2\<rparr>) L2 srt"
    using switch_attach_rel[OF h1(2) dst(2), of p] dst src by (auto simp: L2_def)
  let ?s' = "(set_status p dst (?s0\<lparr>slinks := h2\<rparr>))\<lparr>scpu := scpu s\<rparr>"
  have run: "schedule_thread_switch (tid (thr s p)) s = Some (?s', ER_NORMAL)"
    using switch_run[OF k refl _ _ _ _ _ _ _ _ _ cnt, of "?s0\<lparr>slinks := h1\<rparr>" "?s0\<lparr>slinks := h2\<rparr>"]
      h1(1) h2(1) src dst w k idle statuses_neq[OF dst(2)] by (simp add: known_def)
  have rel': "lists_rel {} ?s' L2 srt" by (rule sched_rel_scpu, rule sched_rel_set_status, rule h2(2))
  have wp: "sprt_work s \<noteq> p" using pL src(2) sched_relD(4)[OF rel] by (auto simp: queued_def)
  have "stat_ok ?s' L2"
  proof (rule stat_ok_moved[OF ok rel' dst(2), of p "sprt_work s"])
    show "set (L2 st) \<subseteq> insert p (set (L st))" for st
      using set_remove1_subset[of p "L src"] by (auto simp: L2_def L1_def)
    show "sprt_work s \<notin> queued L2" using sched_relD(4)[OF rel'] by simp
    show "status (thr ?s' q) = (if q = p then dst else if q = sprt_work s then 1 else status (thr s q))" for q
      using ok w by (simp add: stat_ok_def)
  qed (use wp in \<open>simp_all add: L2_def\<close>)
  moreover have "fst (sched_move (prio s) p src dst (L, sprt_work s)) = L2"
    using statuses_neq[OF src(2)] statuses_neq[OF dst(2)] by (simp add: sched_move_def L2_def L1_def Let_def)
  moreover have "sched_frame s ?s'"
    using sched_frame_upd sched_frame_trans by meson
  ultimately show ?thesis using run rel' by (auto simp: lists_wf_def)
qed

text \<open>A ready thread runs.\<close>

lemma switch_ready_to_running:
  assumes wf: "lists_wf s L srt" and k: "known s p" and w: "sprt_work s \<noteq> 0" and cnt: "g_sched_preempt_cnt (scpu s) \<noteq> - 1"
    and src: "status (thr s p) = NR_THREAD_READY" and dst: "to_status (thr s p) = NR_THREAD_RUNNING"
  shows "\<exists>s'. schedule_thread_switch (tid (thr s p)) s = Some (s', ER_NORMAL) \<and>
           lists_wf s' (fst (sched_move (prio s) p NR_THREAD_READY NR_THREAD_RUNNING (L, sprt_work s))) srt \<and>
           sprt_work s' = p \<and> scpu s' = scpu s \<and> sched_frame s s'"
proof -
  let ?s0 = "s\<lparr>scpu := mrt_preempt_disable (scpu s)\<rparr>" and ?w = "sprt_work s"
  define L1 where "L1 = L(2 := remove1 p (L 2))"
  define L2 where "L2 = L1(2 := prio_insert (prio s) ?w (L1 2))"
  have rel: "lists_rel {} ?s0 L srt" and ok: "stat_ok s L" using wf sched_rel_scpu by (auto simp: lists_wf_def)
  have pL: "p \<in> set (L 2)" using sched_wf_place[OF wf k] src by auto
  obtain h1 where h1: "switch_detach 2 (tid (thr s p)) ?s0 = Some (?s0\<lparr>slinks := h1\<rparr>, ER_NORMAL)"
    "lists_rel {p} (?s0\<lparr>slinks := h1\<rparr>) L1 srt"
    using switch_detach_rel[OF rel _ pL] src by (auto simp: L1_def)
  obtain h2 where h2: "schedule_despoil_work_role (tid (thr s p)) (?s0\<lparr>slinks := h1\<rparr>) =
        Some ((set_status ?w 2 (?s0\<lparr>slinks := h2\<rparr>))\<lparr>sprt_work := p\<rparr>, ER_NORMAL)"
    "lists_rel {} (?s0\<lparr>slinks := h2, sprt_work := p\<rparr>) L2 srt"
    using despoil_rel[OF h1(2)] src w ok by (auto simp: L2_def stat_ok_def)
  let ?s2 = "(set_status ?w 2 (?s0\<lparr>slinks := h2\<rparr>))\<lparr>sprt_work := p\<rparr>"
  let ?s' = "(set_status p 1 ?s2)\<lparr>scpu := scpu s\<rparr>"
  have run: "schedule_thread_switch (tid (thr s p)) s = Some (?s', ER_NORMAL)"
    using switch_run[OF k refl _ _ _ _ _ _ _ _ _ cnt, of "?s0\<lparr>slinks := h1\<rparr>" ?s2]
      h1(1) h2(1) src dst k by (simp add: known_def switch_attach_def)
  have rel': "lists_rel {} ?s' L2 srt"
    by (rule sched_rel_scpu, rule sched_rel_set_status, rule sched_rel_cong[OF h2(2)]) simp_all
  have wp: "?w \<noteq> p" using pL sched_relD(4)[OF rel] by (auto simp: queued_def statuses_def)
  have "stat_ok ?s' L2"
  proof (rule stat_ok_moved[OF ok rel', of 2 ?w p])
    show "set (L2 st) \<subseteq> insert ?w (set (L st))" for st
      using set_remove1_subset[of p "L 2"] by (auto simp: L2_def L1_def)
    show "p \<notin> queued L2" using sched_relD(4)[OF rel'] by simp
  qed (use wp in \<open>simp_all add: L2_def\<close>)
  moreover have "fst (sched_move (prio s) p NR_THREAD_READY NR_THREAD_RUNNING (L, ?w)) = L2"
    by (simp add: sched_move_def L2_def L1_def Let_def)
  moreover have "sched_frame s ?s'" using sched_frame_upd sched_frame_trans by meson
  ultimately show ?thesis using run rel' by (auto simp: lists_wf_def)
qed

text \<open>The running thread gives way.\<close>

lemma switch_running_to_list:
  assumes wf: "lists_wf s L srt" and w: "sprt_work s \<noteq> 0" and cnt: "g_sched_preempt_cnt (scpu s) \<noteq> - 1"
    and dst: "dst = to_status (thr s (sprt_work s))" "dst \<in> statuses" and L: "L NR_THREAD_READY = q # rs"
    and idle: "tid (thr s (sprt_work s)) = THREAD_TID_IDLE \<longrightarrow> dst = NR_THREAD_READY"
  shows "\<exists>s'. schedule_thread_switch (tid (thr s (sprt_work s))) s = Some (s', ER_NORMAL) \<and>
           lists_wf s' (fst (sched_move (prio s) (sprt_work s) NR_THREAD_RUNNING dst (L, sprt_work s))) srt \<and>
           sprt_work s' = q \<and> to_status (thr s' q) = NR_THREAD_NONE \<and> scpu s' = scpu s \<and> sched_frame s s'"
proof -
  let ?s0 = "s\<lparr>scpu := mrt_preempt_disable (scpu s)\<rparr>" and ?w = "sprt_work s"
  define L1 where "L1 = L(2 := rs)"
  define L2 where "L2 = L1(dst := prio_insert (prio s) ?w (L1 dst))"
  have rel: "lists_rel {} ?s0 L srt" and ok: "stat_ok s L" using wf sched_rel_scpu by (auto simp: lists_wf_def)
  have k: "known s ?w" using sched_relD(9)[OF rel] w by simp
  have sw: "status (thr s ?w) = 1" and sq: "status (thr s q) = 2" using ok w L by (auto simp: stat_ok_def)
  obtain h1 where h1: "schedule_reinstall_work_role (tid (thr s ?w)) ?s0 =
        Some (set_status q 1 (?s0\<lparr>slinks := h1, sprt_work := q\<rparr>), ER_NORMAL)"
    "lists_rel {?w} (?s0\<lparr>slinks := h1, sprt_work := q\<rparr>) L1 srt"
    using reinstall_rel[OF rel _ L] sq w by (auto simp: L1_def)
  let ?s1 = "set_status q 1 (?s0\<lparr>slinks := h1, sprt_work := q\<rparr>)"
  have rel1: "lists_rel {?w} ?s1 L1 srt" by (rule sched_rel_set_status[OF h1(2)])
  have q0: "q \<noteq> 0" "q \<noteq> ?w"
    using sched_relD(4)[OF rel] sched_relD(7)[OF rel, of q] L
    by (auto simp: known_def queued_def statuses_def)
  obtain h2 where h2: "switch_attach dst (tid (thr s ?w)) ?s1 = Some (?s1\<lparr>slinks := h2\<rparr>, ER_NORMAL)"
    "lists_rel {} (?s1\<lparr>slinks := h2\<rparr>) L2 srt"
    using switch_attach_rel[OF rel1 dst(2), of ?w] sw q0 statuses_neq[OF dst(2)] by (auto simp: L2_def)
  let ?s' = "(set_status ?w dst (?s1\<lparr>slinks := h2\<rparr>))\<lparr>scpu := scpu s\<rparr>"
  have run: "schedule_thread_switch (tid (thr s ?w)) s = Some (?s', ER_NORMAL)"
    using switch_run[OF k refl _ _ _ _ _ _ _ _ _ cnt, of ?s1 "?s1\<lparr>slinks := h2\<rparr>"]
      h1(1) h2(1) sw dst k q0 idle statuses_neq[OF dst(2)] by (simp add: known_def switch_detach_def)
  have rel': "lists_rel {} ?s' L2 srt" by (rule sched_rel_scpu, rule sched_rel_set_status, rule h2(2))
  have "stat_ok ?s' L2"
  proof (rule stat_ok_moved[OF ok rel' dst(2), of ?w q])
    show "set (L2 st) \<subseteq> insert ?w (set (L st))" for st using L by (auto simp: L2_def L1_def)
    show "q \<notin> queued L2" using sched_relD(4)[OF rel'] by simp
  qed (use q0 in \<open>simp_all add: L2_def\<close>)
  moreover have "fst (sched_move (prio s) ?w NR_THREAD_RUNNING dst (L, ?w)) = L2"
    using L by (simp add: sched_move_def L2_def L1_def Let_def)
  moreover have "sched_frame s ?s'" using sched_frame_upd sched_frame_trans by meson
  ultimately show ?thesis using run rel' q0 by (auto simp: lists_wf_def)
qed

lemma switch_moves:
  assumes wf: "lists_wf s L srt" and k: "known s p" and w: "sprt_work s \<noteq> 0" and cnt: "g_sched_preempt_cnt (scpu s) \<noteq> - 1"
    and ok: "switch_allowed (tid (thr s p)) (status (thr s p)) (to_status (thr s p)) L"
  shows "\<exists>s'. schedule_thread_switch (tid (thr s p)) s = Some (s', ER_NORMAL) \<and>
           (let (L', w') = sched_move (prio s) p (status (thr s p)) (to_status (thr s p)) (L, sprt_work s)
            in lists_wf s' L' srt \<and> sprt_work s' = w') \<and> scpu s' = scpu s \<and> sched_frame s s'"
proof -
  let ?dst = "to_status (thr s p)"
  have dst: "?dst = 1 \<or> ?dst \<in> statuses" using ok status_cases by (auto simp: switch_allowed_def)
  consider "p = sprt_work s" "status (thr s p) = 1" | "status (thr s p) \<in> statuses"
    using sched_wf_place[OF wf k] by auto
  then show ?thesis
  proof cases
    case 1
    then obtain q rs where L: "L 2 = q # rs" using ok by (auto simp: switch_allowed_def neq_Nil_conv)
    have "?dst \<in> statuses" using dst ok 1 by (auto simp: switch_allowed_def)
    then show ?thesis using switch_running_to_list[OF wf w cnt refl, of q rs] 1 L ok
      by (auto simp: switch_allowed_def sched_move_def Let_def)
  next
    case 2
    then show ?thesis
    proof (cases "?dst = 1")
      case True
      then show ?thesis using switch_ready_to_running[OF wf k w cnt] ok
        by (auto simp: switch_allowed_def sched_move_def Let_def)
    next
      case False
      then show ?thesis using switch_list_to_list[OF wf k w cnt refl 2 refl] dst ok statuses_neq[OF 2]
        by (auto simp: switch_allowed_def sched_move_def Let_def)
    qed
  qed
qed

text \<open>Where the transition is refused at once, nothing moves.\<close>

lemma sched_wf_cong:
  assumes "lists_wf s L srt" and "slinks s' = slinks s" and "sprt_work s' = sprt_work s"
    and "tid_array s' = tid_array s" and "attrs s' = attrs s"
    and "\<And>q. tid (thr s' q) = tid (thr s q)" and "\<And>q. sprt_attr (thr s' q) = sprt_attr (thr s q)"
    and "\<And>q. status (thr s' q) = status (thr s q)"
  shows "lists_wf s' L srt"
  using assms sched_rel_cong[of "{}" s L srt s'] by (simp add: lists_wf_def stat_ok_def)

lemma switch_start:
  assumes "known s p"
  shows "schedule_thread_switch (tid (thr s p)) s =
    (let s0 = s\<lparr>scpu := mrt_preempt_disable (scpu s)\<rparr>; t = tid (thr s p); src = status (thr s p); dst = to_status (thr s p) in
     if src = dst \<or> dst \<ge> NR_THREAD_STATUS_MAX then switch_end t src (- ER_UNVALID) s0
     else if t = THREAD_TID_IDLE \<and> dst \<noteq> NR_THREAD_RUNNING \<and> dst \<noteq> NR_THREAD_READY then switch_end t src (- ER_UNVALID) s0
     else do {
       (s1, r) \<leftarrow> switch_detach src t s0;
       if r \<noteq> 0 then switch_end t src (- ER_UNVALID) s1
       else do {
         (s2, r) \<leftarrow> switch_attach dst t s1;
         if r < 0 \<or> sprt_work s2 = 0 then switch_end t src (- ER_UNVALID) s2 else switch_end t dst ER_NORMAL s2
       }
     })"
proof -
  let ?s0 = "s\<lparr>scpu := mrt_preempt_disable (scpu s)\<rparr>"
  have "SCHED_THREAD_HANDLER (tid (thr s p)) ?s0 = Some p" "deref p ?s0 = Some (thr s p)"
    using known_access(1,2)[of ?s0 p] assms by simp_all
  then show ?thesis by (simp add: schedule_thread_switch_def Let_def del: NR_THREAD_STATUS_MAX_def)
qed

definition switch_refused :: "u32 \<Rightarrow> u32 \<Rightarrow> u32 \<Rightarrow> (u32 \<Rightarrow> u32 list) \<Rightarrow> bool" where
  "switch_refused t src dst L \<longleftrightarrow> src = dst \<or> dst \<ge> NR_THREAD_STATUS_MAX \<or>
     t = THREAD_TID_IDLE \<and> dst \<noteq> NR_THREAD_RUNNING \<and> dst \<noteq> NR_THREAD_READY \<or>
     src = NR_THREAD_RUNNING \<and> L NR_THREAD_READY = []"

lemma switch_end_same:
  assumes wf: "lists_wf s L srt" and k: "known s p" and cnt: "g_sched_preempt_cnt (scpu s) \<noteq> - 1"
  shows "\<exists>s'. switch_end (tid (thr s p)) (status (thr s p)) r (s\<lparr>scpu := mrt_preempt_disable (scpu s)\<rparr>) = Some (s', r) \<and>
           lists_wf s' L srt \<and> sprt_work s' = sprt_work s \<and> scpu s' = scpu s \<and> sched_frame s s'"
proof -
  let ?s0 = "s\<lparr>scpu := mrt_preempt_disable (scpu s)\<rparr>"
  let ?s' = "(set_status p (status (thr s p)) ?s0)\<lparr>scpu := scpu s\<rparr>"
  have "status (thr s p) < 5" using sched_wf_place[OF wf k] statuses_neq by auto
  then have "switch_end (tid (thr s p)) (status (thr s p)) r ?s0 = Some (?s', r)"
    using switch_end_known[of ?s0 p "status (thr s p)" r] k preempt_pair[OF cnt] by simp
  moreover have "lists_wf ?s' L srt" by (rule sched_wf_cong[OF wf]) simp_all
  moreover have "sched_frame s ?s'" using sched_frame_upd sched_frame_trans by meson
  ultimately show ?thesis by auto
qed

lemma switch_refuses:
  assumes wf: "lists_wf s L srt" and k: "known s p" and cnt: "g_sched_preempt_cnt (scpu s) \<noteq> - 1"
    and ref: "switch_refused (tid (thr s p)) (status (thr s p)) (to_status (thr s p)) L"
  shows "\<exists>s'. schedule_thread_switch (tid (thr s p)) s = Some (s', - ER_UNVALID) \<and>
           lists_wf s' L srt \<and> sprt_work s' = sprt_work s \<and> scpu s' = scpu s \<and> sched_frame s s'"
proof -
  let ?s0 = "s\<lparr>scpu := mrt_preempt_disable (scpu s)\<rparr>"
  have "schedule_thread_switch (tid (thr s p)) s = switch_end (tid (thr s p)) (status (thr s p)) (- ER_UNVALID) ?s0"
  proof (cases "status (thr s p) = NR_THREAD_RUNNING \<and> L NR_THREAD_READY = []")
    case True
    then have "p = sprt_work s" using sched_wf_place[OF wf k] by auto
    moreover have "mrt_list_head_empty (slinks ?s0) ReadyHead"
      using first_entry_rel(1)[of "{}" s L srt 2] wf True by (simp add: lists_wf_def)
    ultimately have "switch_detach (status (thr s p)) (tid (thr s p)) ?s0 = Some (?s0, - ER_FAULT)"
      using True known_access(4)[OF k] by (simp add: switch_detach_def schedule_reinstall_work_role_def deref_def)
    then show ?thesis by (simp add: switch_start[OF k] Let_def er_code)
  next
    case False
    then have "status (thr s p) = to_status (thr s p) \<or> to_status (thr s p) \<ge> NR_THREAD_STATUS_MAX \<or>
       tid (thr s p) = THREAD_TID_IDLE \<and> to_status (thr s p) \<noteq> NR_THREAD_RUNNING \<and> to_status (thr s p) \<noteq> NR_THREAD_READY"
      using ref by (auto simp: switch_refused_def)
    then show ?thesis by (auto simp: switch_start[OF k] Let_def)
  qed
  then show ?thesis using switch_end_same[OF wf k cnt, of "- ER_UNVALID"] by simp
qed

text \<open>
  Every other target is refused only after the thread was taken out of its list or off the processor: a target of
  \<^verbatim>\<open>NR_THREAD_NONE\<close>, and running for a suspended or sleeping thread.
\<close>

definition sched_drop :: "u32 \<Rightarrow> u32 \<Rightarrow> (u32 \<Rightarrow> u32 list) \<times> u32 \<Rightarrow> (u32 \<Rightarrow> u32 list) \<times> u32" where
  "sched_drop p src = (\<lambda>(L, w).
     if src = NR_THREAD_RUNNING then (L(NR_THREAD_READY := List.tl (L NR_THREAD_READY)), List.hd (L NR_THREAD_READY))
     else (L(src := remove1 p (L src)), w))"

lemma switch_fail:
  assumes k: "known s p" and t: "t = tid (thr s p)"
    and guards: "status (thr s p) \<noteq> to_status (thr s p)" "to_status (thr s p) < NR_THREAD_STATUS_MAX"
      "t = THREAD_TID_IDLE \<longrightarrow> to_status (thr s p) = NR_THREAD_RUNNING \<or> to_status (thr s p) = NR_THREAD_READY"
    and src: "status (thr s p) < 5"
    and det: "switch_detach (status (thr s p)) t (s\<lparr>scpu := mrt_preempt_disable (scpu s)\<rparr>) = Some (s1, ER_NORMAL)"
    and att: "switch_attach (to_status (thr s p)) t s1 = Some (s1, e)" "e < 0"
    and s1: "known s1 p" "tid (thr s1 p) = t" "scpu s1 = mrt_preempt_disable (scpu s)"
    and cnt: "g_sched_preempt_cnt (scpu s) \<noteq> - 1"
  shows "schedule_thread_switch t s = Some ((set_status p (status (thr s p)) s1)\<lparr>scpu := scpu s\<rparr>, - ER_UNVALID)"
proof -
  have "switch_end t (status (thr s p)) (- ER_UNVALID) s1 =
      Some ((set_status p (status (thr s p)) s1)\<lparr>scpu := scpu s\<rparr>, - ER_UNVALID)"
    using switch_end_known[OF s1(1) src] s1(2,3) preempt_pair[OF cnt] by simp
  moreover have "\<not> (status (thr s p) = to_status (thr s p) \<or> to_status (thr s p) \<ge> NR_THREAD_STATUS_MAX)"
    "\<not> (t = THREAD_TID_IDLE \<and> to_status (thr s p) \<noteq> NR_THREAD_RUNNING \<and> to_status (thr s p) \<noteq> NR_THREAD_READY)"
    using guards(1,3) guards(2)[unfolded not_le[symmetric]] by blast+
  ultimately show ?thesis using det att
    by (simp only: t switch_start[OF k] Let_def Option.bind.bind_lunit if_False prod.case) (simp add: er_code)
qed

lemma switch_drops_queued:
  assumes wf: "lists_wf s L srt" and k: "known s p" and cnt: "g_sched_preempt_cnt (scpu s) \<noteq> - 1"
    and src: "src = status (thr s p)" "src \<in> statuses" and dst: "dst = to_status (thr s p)"
    and no: "dst = NR_THREAD_NONE \<or> dst = NR_THREAD_RUNNING \<and> src \<noteq> NR_THREAD_READY"
    and idle: "tid (thr s p) = THREAD_TID_IDLE \<longrightarrow> dst = NR_THREAD_RUNNING"
  shows "\<exists>s'. schedule_thread_switch (tid (thr s p)) s = Some (s', - ER_UNVALID) \<and>
           lists_rel {p} s' (L(src := remove1 p (L src))) srt \<and> stat_ok s' (L(src := remove1 p (L src))) \<and>
           sprt_work s' = sprt_work s \<and> status (thr s' p) = src \<and> scpu s' = scpu s \<and> sched_frame s s'"
proof -
  let ?s0 = "s\<lparr>scpu := mrt_preempt_disable (scpu s)\<rparr>" and ?L = "L(src := remove1 p (L src))"
  have pL: "p \<in> set (L src)" using sched_wf_place[OF wf k] src by auto
  have rel: "lists_rel {} ?s0 L srt" using wf sched_rel_scpu by (auto simp: lists_wf_def)
  obtain h where h: "switch_detach src (tid (thr s p)) ?s0 = Some (?s0\<lparr>slinks := h\<rparr>, ER_NORMAL)"
    "lists_rel {p} (?s0\<lparr>slinks := h\<rparr>) ?L srt"
    using switch_detach_rel[OF rel src(2) pL] src(1) by auto
  let ?s1 = "?s0\<lparr>slinks := h\<rparr>"
  have k': "known ?s1 p" using k by simp
  obtain e where att: "switch_attach dst (tid (thr s p)) ?s1 = Some (?s1, e)" "e < 0"
    using known_access(1,4)[OF k'] no src(1)
    by (auto simp: switch_attach_def schedule_despoil_work_role_def er_code)
  let ?s' = "(set_status p src ?s1)\<lparr>scpu := scpu s\<rparr>"
  have "schedule_thread_switch (tid (thr s p)) s = Some (?s', - ER_UNVALID)"
    unfolding src(1)
  proof (rule switch_fail[OF k refl _ _ _ _ _ _ att(2) _ _ _ cnt])
    show "status (thr s p) \<noteq> to_status (thr s p)" using no src dst statuses_neq[OF src(2)] by auto
  qed (use h(1) att(1) src dst no idle k' statuses_neq[OF src(2)] in auto)
  moreover have "lists_rel {p} ?s' ?L srt" by (rule sched_rel_scpu, rule sched_rel_set_status, rule h(2))
  moreover have "stat_ok ?s' ?L"
    using wf src(1) notin_set_remove1 by (fastforce simp: lists_wf_def stat_ok_def split: if_splits)
  moreover have "sched_frame s ?s'" using sched_frame_upd sched_frame_trans by meson
  ultimately show ?thesis by (intro exI[of _ ?s']) simp
qed

lemma switch_drops_running:
  assumes wf: "lists_wf s L srt" and w: "sprt_work s \<noteq> 0" and cnt: "g_sched_preempt_cnt (scpu s) \<noteq> - 1"
    and dst: "to_status (thr s (sprt_work s)) = NR_THREAD_NONE" and L: "L NR_THREAD_READY = q # rs"
    and idle: "tid (thr s (sprt_work s)) \<noteq> THREAD_TID_IDLE"
  shows "\<exists>s'. schedule_thread_switch (tid (thr s (sprt_work s))) s = Some (s', - ER_UNVALID) \<and>
           lists_rel {sprt_work s} s' (L(NR_THREAD_READY := rs)) srt \<and> stat_ok s' (L(NR_THREAD_READY := rs)) \<and>
           sprt_work s' = q \<and> status (thr s' (sprt_work s)) = NR_THREAD_RUNNING \<and> scpu s' = scpu s \<and> sched_frame s s'"
proof -
  let ?s0 = "s\<lparr>scpu := mrt_preempt_disable (scpu s)\<rparr>" and ?w = "sprt_work s" and ?L = "L(2 := rs)"
  have rel: "lists_rel {} ?s0 L srt" and ok: "stat_ok s L" using wf sched_rel_scpu by (auto simp: lists_wf_def)
  have k: "known s ?w" using sched_relD(9)[OF rel] w by simp
  have sw: "status (thr s ?w) = 1" and sq: "status (thr s q) = 2" using ok w L by (auto simp: stat_ok_def)
  obtain h where h: "schedule_reinstall_work_role (tid (thr s ?w)) ?s0 =
        Some (set_status q 1 (?s0\<lparr>slinks := h, sprt_work := q\<rparr>), ER_NORMAL)"
    "lists_rel {?w} (?s0\<lparr>slinks := h, sprt_work := q\<rparr>) ?L srt"
    using reinstall_rel[OF rel _ L] sq w by auto
  let ?s1 = "set_status q 1 (?s0\<lparr>slinks := h, sprt_work := q\<rparr>)"
  let ?s' = "(set_status ?w 1 ?s1)\<lparr>scpu := scpu s\<rparr>"
  have run: "schedule_thread_switch (tid (thr s ?w)) s = Some (?s', - ER_UNVALID)"
    using switch_fail[OF k refl _ _ _ _ _ _ _ _ _ _ cnt, of ?s1 "- ER_ERROR"] h(1) sw dst k idle
    by (simp add: switch_detach_def switch_attach_def er_code)
  have rel': "lists_rel {?w} ?s' ?L srt" by (rule sched_rel_scpu, rule sched_rel_set_status, rule sched_rel_set_status, rule h(2))
  have "stat_ok ?s' ?L" unfolding stat_ok_def
  proof (intro conjI ballI impI)
    fix st a assume a: "st \<in> statuses" "a \<in> set (?L st)"
    then have "a \<noteq> q" "a \<noteq> ?w" using sched_relD(4,6)[OF rel'] by (auto simp: queued_def)
    moreover have "a \<in> set (L st)" using a(2) L by (auto split: if_splits)
    ultimately show "status (thr ?s' a) = st" using ok a(1) by (simp add: stat_ok_def)
  qed simp
  moreover have "sched_frame s ?s'" using sched_frame_upd sched_frame_trans by meson
  ultimately show ?thesis using run rel' by (intro exI[of _ ?s']) simp
qed

lemma switch_drops:
  assumes wf: "lists_wf s L srt" and k: "known s p" and w: "sprt_work s \<noteq> 0" and cnt: "g_sched_preempt_cnt (scpu s) \<noteq> - 1"
    and no: "\<not> switch_allowed (tid (thr s p)) (status (thr s p)) (to_status (thr s p)) L"
      "\<not> switch_refused (tid (thr s p)) (status (thr s p)) (to_status (thr s p)) L"
  shows "\<exists>s'. schedule_thread_switch (tid (thr s p)) s = Some (s', - ER_UNVALID) \<and>
           (let (L', w') = sched_drop p (status (thr s p)) (L, sprt_work s)
            in lists_rel {p} s' L' srt \<and> stat_ok s' L' \<and> sprt_work s' = w') \<and>
           status (thr s' p) = status (thr s p) \<and> scpu s' = scpu s \<and> sched_frame s s'"
proof -
  let ?dst = "to_status (thr s p)"
  have d5: "?dst < 5" and ne: "status (thr s p) \<noteq> ?dst" and idle: "tid (thr s p) = 0 \<longrightarrow> ?dst = 1 \<or> ?dst = 2"
    using no(2) by (auto simp: switch_refused_def not_le)
  consider "status (thr s p) = 1" "p = sprt_work s" | "status (thr s p) \<in> statuses" using sched_wf_place[OF wf k] by auto
  then show ?thesis
  proof cases
    case 1
    then obtain q rs where L: "L 2 = q # rs" using no(2) by (auto simp: switch_refused_def neq_Nil_conv)
    have "?dst = 0" using no 1 d5 ne by (auto simp: switch_refused_def switch_allowed_def)
    then show ?thesis using switch_drops_running[OF wf w cnt, of q rs] 1 idle L by (auto simp: sched_drop_def)
  next
    case 2
    have "?dst = 0 \<or> ?dst = 1 \<and> status (thr s p) \<noteq> 2" "tid (thr s p) = 0 \<longrightarrow> ?dst = 1"
      using no 2 d5 ne idle statuses_neq[OF 2] by (auto simp: switch_refused_def switch_allowed_def)
    then show ?thesis using switch_drops_queued[OF wf k cnt refl 2 refl] statuses_neq[OF 2] by (auto simp: sched_drop_def)
  qed
qed

text \<open>Any request of a transition that a thread outside the processor can make keeps the lists well formed.\<close>

lemma switch_wf:
  assumes wf: "lists_wf s L srt" and k: "known s p" and w: "sprt_work s \<noteq> 0" and cnt: "g_sched_preempt_cnt (scpu s) \<noteq> - 1"
    and dst: "to_status (thr s p) \<in> statuses"
  shows "\<exists>s' r L'. schedule_thread_switch (tid (thr s p)) s = Some (s', r) \<and> (r = ER_NORMAL \<or> r = - ER_UNVALID) \<and>
           lists_wf s' L' srt \<and> sprt_work s' \<noteq> 0 \<and> scpu s' = scpu s \<and> sched_frame s s'"
proof (cases "switch_refused (tid (thr s p)) (status (thr s p)) (to_status (thr s p)) L")
  case True
  then show ?thesis using switch_refuses[OF wf k cnt] w by metis
next
  case False
  then have ok: "switch_allowed (tid (thr s p)) (status (thr s p)) (to_status (thr s p)) L"
    using statuses_neq[OF dst] by (auto simp: switch_refused_def switch_allowed_def)
  obtain L' w' where mv: "sched_move (prio s) p (status (thr s p)) (to_status (thr s p)) (L, sprt_work s) = (L', w')"
    by (metis surj_pair)
  obtain s' where s': "schedule_thread_switch (tid (thr s p)) s = Some (s', ER_NORMAL)" "lists_wf s' L' srt" "sprt_work s' = w'"
    "scpu s' = scpu s" "sched_frame s s'"
    using switch_moves[OF wf k w cnt ok] unfolding mv by auto
  have "w' \<noteq> 0"
  proof (cases "status (thr s p) = 1")
    case True
    then have "L 2 \<noteq> []" "w' = List.hd (L 2)" using ok mv by (auto simp: switch_allowed_def sched_move_def Let_def)
    then have "w' \<in> queued L" unfolding queued_def by (intro UN_I[of 2]) simp_all
    then show ?thesis using wf sched_relD(7)[of "{}" s L srt w'] by (auto simp: lists_wf_def known_def)
  next
    case False
    then show ?thesis using mv w statuses_neq[OF dst] by (auto simp: sched_move_def Let_def)
  qed
  then show ?thesis using s' by metis
qed

end
