(* ===== verification/Sched_Run.thy ===== *)
theory Sched_Run
  imports Sched_Lists
begin

text \<open>
  The operations of the scheduler on well-formed lists: requests under its lock, the choice of the
  next thread, registration, and all of them as a state machine. The properties of the scheduler
  are at the end.
\<close>

subsection \<open>The lock, the first switch and the operations built on the switch\<close>

definition sched_idle_lock :: "sched \<Rightarrow> bool" where
  "sched_idle_lock s \<longleftrightarrow> \<not> spin_is_locked (sched_lock s)"

text \<open>Between two operations: the lists are well formed, the lock is free, the preemption count does not wrap.\<close>

definition lists_good :: "sched \<Rightarrow> (u32 \<Rightarrow> u32 list) \<Rightarrow> bool \<Rightarrow> bool" where
  "lists_good s L srt \<longleftrightarrow> lists_wf s L srt \<and> sched_idle_lock s \<and> unat (g_sched_preempt_cnt (scpu s)) + 4 < 2 ^ 32"

abbreviation sched_good :: "sched \<Rightarrow> (u32 \<Rightarrow> u32 list) \<Rightarrow> bool" where
  "sched_good s L \<equiv> lists_good s L True"

lemma preempt_room:
  assumes "unat (g_sched_preempt_cnt c) + 4 < 2 ^ 32"
  shows "g_sched_preempt_cnt c \<noteq> - 1" and "g_sched_preempt_cnt c + 1 \<noteq> - 1" and "g_sched_preempt_cnt c + 2 \<noteq> - 1"
proof -
  have m: "unat (- 1 :: u32) = 4294967295" by (simp add: unsigned_minus_1_eq_mask mask_eq_exp_minus_1)
  show "g_sched_preempt_cnt c \<noteq> - 1" using assms m by auto
  have "unat (g_sched_preempt_cnt c + 1) = unat (g_sched_preempt_cnt c) + 1" using assms by (simp add: u32_add)
  then have "unat (g_sched_preempt_cnt c + 1) \<noteq> unat (- 1 :: u32)" using assms m by simp
  then show "g_sched_preempt_cnt c + 1 \<noteq> - 1" by metis
  have "unat (g_sched_preempt_cnt c + 2) = unat (g_sched_preempt_cnt c) + 2" using assms by (simp add: u32_add)
  then have "unat (g_sched_preempt_cnt c + 2) \<noteq> unat (- 1 :: u32)" using assms m by simp
  then show "g_sched_preempt_cnt c + 2 \<noteq> - 1" by metis
qed

text \<open>\<open>locked_as s c l\<close>: the core and the lock while the scheduler's lock is held.\<close>

definition locked_as :: "sched \<Rightarrow> cpu \<Rightarrow> srt_spin_lock \<Rightarrow> bool" where
  "locked_as s c l \<longleftrightarrow> lock_sched s = Some (s\<lparr>scpu := c, sched_lock := l\<rparr>) \<and>
     g_sched_preempt_cnt c = g_sched_preempt_cnt (scpu s) + 1 \<and>
     (\<forall>s2. scpu s2 = c \<longrightarrow> sched_lock s2 = l \<longrightarrow>
        unlock_sched s2 = s2\<lparr>scpu := scpu s, sched_lock := (sched_lock s)\<lparr>flag := 0\<rparr>\<rparr>)"

lemma lock_pair:
  assumes "sched_idle_lock s" and "g_sched_preempt_cnt (scpu s) \<noteq> - 1"
  shows "\<exists>c l. locked_as s c l"
proof -
  let ?c = "mrt_disable_cpu_irq (mrt_preempt_disable (scpu s))"
  let ?l = "(sched_lock s)\<lparr>sgrt_atc := atomic_inc (sgrt_atc (sched_lock s)), flag := cpsr (mrt_preempt_disable (scpu s))\<rparr>"
  have 1: "spin_lock_irqsave (scpu s) (sched_lock s) = Some (?c, ?l)"
    using assms(1) by (simp add: sched_idle_lock_def spin_lock_irqsave_def spin_lock_def)
  have "unlock_sched s2 = s2\<lparr>scpu := scpu s, sched_lock := (sched_lock s)\<lparr>flag := 0\<rparr>\<rparr>"
    if "scpu s2 = ?c" "sched_lock s2 = ?l" for s2
    by (simp add: unlock_sched_def that irqsave_restores[OF 1 assms(2)])
  moreover have "lock_sched s = Some (s\<lparr>scpu := ?c, sched_lock := ?l\<rparr>)" by (simp add: lock_sched_def 1)
  moreover have "g_sched_preempt_cnt ?c = g_sched_preempt_cnt (scpu s) + 1"
    by (simp add: mrt_disable_cpu_irq_def mrt_preempt_disable_def COUNT_INC_def)
  ultimately have "locked_as s ?c ?l" unfolding locked_as_def by blast
  then show ?thesis by blast
qed

lemma good_lock: "lists_good s L srt \<Longrightarrow> \<exists>c l. locked_as s c l"
  using lock_pair[of s] preempt_room(1)[of "scpu s"] by (simp add: lists_good_def)

lemma known_upd [simp]:
  "known (s\<lparr>sched_lock := l\<rparr>) = known s" "prio (s\<lparr>sched_lock := l\<rparr>) = prio s"
  by (simp_all add: known_def prio_def fun_eq_iff)

lemma SET_known:
  "known s p \<Longrightarrow> v < 5 \<Longrightarrow> SET_THREAD_STATUS (tid (thr s p)) v s = Some (set_thr p (\<lambda>t. t\<lparr>to_status := v\<rparr>) s)"
  by (simp add: SET_THREAD_STATUS_def known_access)

lemma set_to_status_sel [simp]:
  fixes v :: u32
  defines "f \<equiv> \<lambda>t. t\<lparr>to_status := v\<rparr>"
  shows "slinks (set_thr p f s) = slinks s" "sprt_work (set_thr p f s) = sprt_work s" "scpu (set_thr p f s) = scpu s"
    "sched_lock (set_thr p f s) = sched_lock s" "schedule_ref (set_thr p f s) = schedule_ref s"
    "tid_array (set_thr p f s) = tid_array s" "attrs (set_thr p f s) = attrs s"
    "tid (thr (set_thr p f s) q) = tid (thr s q)" "sprt_attr (thr (set_thr p f s) q) = sprt_attr (thr s q)"
    "status (thr (set_thr p f s) q) = status (thr s q)"
    "to_status (thr (set_thr p f s) q) = (if q = p then v else to_status (thr s q))"
    "known (set_thr p f s) = known s" "prio (set_thr p f s) = prio s"
  by (simp_all add: set_thr_def f_def known_def prio_def fun_eq_iff)

lemma set_to_status_wf: "lists_wf s L srt \<Longrightarrow> lists_wf (set_thr p (\<lambda>t. t\<lparr>to_status := v\<rparr>) s) L srt"
  by (erule sched_wf_cong) simp_all

lemma set_to_status_frame: "sched_frame s (set_thr p (\<lambda>t. t\<lparr>to_status := v\<rparr>) s)"
proof -
  have "\<exists>a b. thr (set_thr p (\<lambda>t. t\<lparr>to_status := v\<rparr>) s) q = (thr s q)\<lparr>status := a, to_status := b\<rparr>" for q
    by (rule exI[of _ "status (thr s q)"], rule exI[of _ "if q = p then v else to_status (thr s q)"]) (simp add: set_thr_def)
  then show ?thesis by (simp add: sched_frame_def) (simp add: set_thr_def)
qed

lemma good_unlocked:
  assumes "lists_good s L srt" and "lists_wf s' L' srt"
  shows "lists_good (s'\<lparr>scpu := scpu s, sched_lock := (sched_lock s)\<lparr>flag := 0\<rparr>\<rparr>) L' srt"
proof -
  have "lists_wf (s'\<lparr>scpu := scpu s, sched_lock := (sched_lock s)\<lparr>flag := 0\<rparr>\<rparr>) L' srt"
    by (rule sched_wf_cong[OF assms(2)]) simp_all
  then show ?thesis using assms(1) by (simp add: lists_good_def sched_idle_lock_def spin_is_locked_def ATOMIC_READ_def)
qed

text \<open>A request under the lock.\<close>

lemma request_good:
  assumes good: "lists_good s L srt" and k: "known s p" and w: "sprt_work s \<noteq> 0" and v: "v \<in> statuses"
    and lock: "locked_as s c l" and t: "t = tid (thr s p)"
  shows "\<exists>s' r L'. (do { s \<leftarrow> SET_THREAD_STATUS t v (s\<lparr>scpu := c, sched_lock := l\<rparr>);
                  (s, r) \<leftarrow> schedule_thread_switch t s;
                  Some (unlock_sched s, r) }) = Some (s', r) \<and> (r = ER_NORMAL \<or> r = - ER_UNVALID) \<and>
           lists_good s' L' srt \<and> sprt_work s' \<noteq> 0 \<and> schedule_ref s' = schedule_ref s"
proof -
  let ?s1 = "s\<lparr>scpu := c, sched_lock := l\<rparr>"
  let ?s2 = "set_thr p (\<lambda>t. t\<lparr>to_status := v\<rparr>) ?s1"
  have set: "SET_THREAD_STATUS t v ?s1 = Some ?s2"
    unfolding t using SET_known[of ?s1 p v] k statuses_neq[OF v] by simp
  have wf: "lists_wf ?s2 L srt"
    by (rule set_to_status_wf, rule sched_wf_cong[of s]) (use good in \<open>simp_all add: lists_good_def\<close>)
  have "g_sched_preempt_cnt c \<noteq> - 1"
    using preempt_room(2)[of "scpu s"] good lock by (simp add: lists_good_def locked_as_def)
  then obtain s3 r L' where s3: "schedule_thread_switch t ?s2 = Some (s3, r)" "r = ER_NORMAL \<or> r = - ER_UNVALID"
    "lists_wf s3 L' srt" "sprt_work s3 \<noteq> 0" "scpu s3 = c" "sched_frame ?s2 s3"
    using switch_wf[OF wf, of p] k w v t by auto
  have "unlock_sched s3 = s3\<lparr>scpu := scpu s, sched_lock := (sched_lock s)\<lparr>flag := 0\<rparr>\<rparr>" (is "_ = ?s'")
    using lock s3(5,6) by (simp add: locked_as_def sched_frame_def)
  moreover have "lists_good ?s' L' srt" by (rule good_unlocked[OF good s3(3)])
  moreover have "schedule_ref ?s' = schedule_ref s" using s3(6) by (simp add: sched_frame_def)
  ultimately show ?thesis using set s3(1,2,4) by (intro exI[of _ ?s'] exI[of _ r] exI[of _ L']) simp
qed

lemma wakeup_good:
  assumes good: "lists_good s L srt" and k: "known s p" and w: "sprt_work s \<noteq> 0"
  shows "\<exists>s' r L'. schedule_thread_wakeup (tid (thr s p)) s = Some (s', r) \<and> (r = ER_NORMAL \<or> r = - ER_UNVALID) \<and>
           lists_good s' L' srt \<and> sprt_work s' \<noteq> 0 \<and> schedule_ref s' = schedule_ref s"
proof -
  obtain c l where lock: "locked_as s c l" using good_lock[OF good] by blast
  have get: "GET_THREAD_STATUS (tid (thr s p)) (s\<lparr>scpu := c, sched_lock := l\<rparr>) = Some (status (thr s p))"
    using known_access(1,2)[of "s\<lparr>scpu := c, sched_lock := l\<rparr>" p] k by (simp add: GET_THREAD_STATUS_def)
  show ?thesis
  proof (cases "status (thr s p) = NR_THREAD_SUSPEND \<or> status (thr s p) = NR_THREAD_SLEEP")
    case True
    then show ?thesis using request_good[OF good k w _ lock refl, of NR_THREAD_READY] lock get
      by (auto simp: schedule_thread_wakeup_def locked_as_def)
  next
    case False
    have "lists_good (s\<lparr>scpu := scpu s, sched_lock := (sched_lock s)\<lparr>flag := 0\<rparr>\<rparr>) L srt" (is "lists_good ?s' L srt")
      using good by (intro good_unlocked[OF good]) (simp add: lists_good_def)
    moreover have "schedule_thread_wakeup (tid (thr s p)) s = Some (?s', - ER_UNVALID)"
      using False lock get by (simp add: schedule_thread_wakeup_def locked_as_def)
    ultimately show ?thesis using w by (intro exI[of _ ?s'] exI[of _ "- ER_UNVALID"] exI[of _ L]) simp
  qed
qed

subsection \<open>Choosing the next thread\<close>

lemma switch_boot:
  assumes wf: "lists_wf s L srt" and k: "known s q" and w: "sprt_work s = 0" and cnt: "g_sched_preempt_cnt (scpu s) \<noteq> - 1"
    and src: "status (thr s q) = NR_THREAD_READY" and dst: "to_status (thr s q) = NR_THREAD_RUNNING"
  shows "\<exists>s'. schedule_thread_switch (tid (thr s q)) s = Some (s', ER_NORMAL) \<and>
           lists_wf s' (L(NR_THREAD_READY := remove1 q (L NR_THREAD_READY))) srt \<and> sprt_work s' = q \<and>
           to_status (thr s' q) = NR_THREAD_NONE \<and> scpu s' = scpu s \<and> sched_frame s s'"
proof -
  let ?s0 = "s\<lparr>scpu := mrt_preempt_disable (scpu s)\<rparr>"
  let ?L = "L(2 := remove1 q (L 2))"
  have rel: "lists_rel {} ?s0 L srt" and ok: "stat_ok s L" using wf sched_rel_scpu by (auto simp: lists_wf_def)
  have qL: "q \<in> set (L 2)" using sched_wf_place[OF wf k] src by auto
  obtain h where h: "switch_detach 2 (tid (thr s q)) ?s0 = Some (?s0\<lparr>slinks := h\<rparr>, ER_NORMAL)"
    "lists_rel {q} (?s0\<lparr>slinks := h\<rparr>) ?L srt"
    using switch_detach_rel[OF rel _ qL] src by auto
  let ?s2 = "?s0\<lparr>slinks := h, sprt_work := q\<rparr>"
  let ?s' = "(set_status q 1 ?s2)\<lparr>scpu := scpu s\<rparr>"
  have q0: "q \<noteq> 0" by (rule known_access(4)[OF k])
  have att: "switch_attach 1 (tid (thr s q)) (?s0\<lparr>slinks := h\<rparr>) = Some (?s2, ER_NORMAL)"
    using known_access(1)[of "?s0\<lparr>slinks := h\<rparr>" q] k src w q0 by (simp add: switch_attach_def schedule_despoil_work_role_def)
  have run: "schedule_thread_switch (tid (thr s q)) s = Some (?s', ER_NORMAL)"
    using switch_run[OF k refl _ _ _ _ _ _ _ _ _ cnt, of "?s0\<lparr>slinks := h\<rparr>" ?s2] h(1) att src dst k q0 by (simp add: known_def)
  have rel': "lists_rel {} ?s' ?L srt"
    using sched_rel_work[OF h(2), of q] w by (intro sched_rel_scpu sched_rel_set_status) simp
  moreover have "status (thr s p) = st" if "st \<in> statuses" "p \<in> set (?L st)" for st p
    using ok that set_remove1_subset[of q "L 2"] by (auto simp: stat_ok_def split: if_splits)
  then have "stat_ok ?s' ?L"
    using sched_relD(4)[OF rel'] by (auto simp: stat_ok_def queued_def)
  moreover have "sched_frame s ?s'" using sched_frame_upd sched_frame_trans by meson
  ultimately show ?thesis using run by (auto simp: lists_wf_def)
qed

text \<open>The statistics and the context block do not touch the lists.\<close>

lemma schedule_context_sel [simp]:
  "slinks (schedule_context prev s) = slinks s" "sprt_work (schedule_context prev s) = sprt_work s"
  "tid_array (schedule_context prev s) = tid_array s" "attrs (schedule_context prev s) = attrs s"
  "thr (schedule_context prev s) = thr s" "scpu (schedule_context prev s) = scpu s"
  "sched_lock (schedule_context prev s) = sched_lock s" "schedule_ref (schedule_context prev s) = schedule_ref s"
  "jiffies (schedule_context prev s) = jiffies s" "prio (schedule_context prev s) = prio s"
  "tlinks (schedule_context prev s) = tlinks s" "timers (schedule_context prev s) = timers s"
  "known (schedule_context prev s) = known s"
  by (simp_all add: schedule_context_def scheduler_record_def Let_def prio_def known_def fun_eq_iff)

lemma schedule_context_wf: "lists_wf s L srt \<Longrightarrow> lists_wf (schedule_context prev s) L srt"
  by (erule sched_wf_cong) simp_all

definition next_status :: "thread \<Rightarrow> u32" where
  "next_status th = (if to_status th = NR_THREAD_NONE then NR_THREAD_READY else to_status th)"

lemma default_status_known:
  assumes k: "known s p"
  shows "\<exists>s'. default_status p s = Some s' \<and> sched_frame s s' \<and> slinks s' = slinks s \<and> sprt_work s' = sprt_work s \<and>
           scpu s' = scpu s \<and> known s' = known s \<and> prio s' = prio s \<and>
           to_status (thr s' p) = next_status (thr s p) \<and> (\<forall>q. status (thr s' q) = status (thr s q)) \<and>
           (\<forall>L srt. lists_wf s L srt \<longrightarrow> lists_wf s' L srt)"
proof (cases "to_status (thr s p) = 0")
  case True
  then show ?thesis
    using SET_known[OF k, of 2] set_to_status_frame[of s p 2] set_to_status_wf[of s _ _ p 2]
    by (simp add: default_status_def next_status_def)
next
  case False
  then show ?thesis using sched_frame_refl by (simp add: default_status_def next_status_def)
qed

lemma schedule_from_run:
  assumes "default_status p s = Some s1" and "schedule_thread_switch (tid (thr s1 p)) s1 = Some (s2, r)"
  shows "schedule_from p s = Some (if r < 0 \<or> sprt_work s2 = 0 then (s2, False) else (schedule_context p s2, True))"
  using assms by (simp add: schedule_from_def)

lemma do_schedule_running:
  assumes "lists_wf s L srt" and "sprt_work s \<noteq> 0"
  shows "do_schedule s = (if L NR_THREAD_READY = [] then Some (s, False) else schedule_from (sprt_work s) s)"
  using assms first_entry_rel(1)[of "{}" s L srt 2] by (simp add: do_schedule_def schedule_prev_def lists_wf_def)

lemma do_schedule_yields:
  assumes wf: "lists_wf s L srt" and w: "sprt_work s \<noteq> 0" and cnt: "g_sched_preempt_cnt (scpu s) \<noteq> - 1"
    and dst: "dst = next_status (thr s (sprt_work s))" "dst \<in> statuses" and L: "L NR_THREAD_READY = q # rs"
    and idle: "tid (thr s (sprt_work s)) = THREAD_TID_IDLE \<longrightarrow> dst = NR_THREAD_READY"
  shows "\<exists>s'. do_schedule s = Some (schedule_context (sprt_work s) s', True) \<and>
           lists_wf s' (fst (sched_move (prio s) (sprt_work s) NR_THREAD_RUNNING dst (L, sprt_work s))) srt \<and>
           sprt_work s' = q \<and> to_status (thr s' q) = NR_THREAD_NONE \<and> scpu s' = scpu s \<and> sched_frame s s'"
proof -
  let ?w = "sprt_work s"
  have rel: "lists_rel {} s L srt" using wf by (simp add: lists_wf_def)
  have k: "known s ?w" by (rule sched_relD(9)[OF rel w])
  obtain s1 where s1: "default_status ?w s = Some s1" "sched_frame s s1" "sprt_work s1 = ?w" "scpu s1 = scpu s"
    "prio s1 = prio s" "to_status (thr s1 ?w) = dst" "lists_wf s1 L srt"
    using default_status_known[OF k] wf dst(1) by metis
  have t: "tid (thr s1 ?w) = tid (thr s ?w)" by (rule sched_frame_thr(1)[OF s1(2)])
  obtain s2 where s2: "schedule_thread_switch (tid (thr s1 ?w)) s1 = Some (s2, ER_NORMAL)"
    "lists_wf s2 (fst (sched_move (prio s) ?w NR_THREAD_RUNNING dst (L, ?w))) srt"
    "sprt_work s2 = q" "to_status (thr s2 q) = NR_THREAD_NONE" "scpu s2 = scpu s" "sched_frame s1 s2"
    using switch_running_to_list[OF s1(7) _ _ _ _ L, of dst] w cnt dst(2) idle t unfolding s1(3,4,5,6) by auto
  have "q \<noteq> 0" using L sched_relD(7)[OF rel, of q] by (auto simp: known_def queued_def statuses_def)
  then have "do_schedule s = Some (schedule_context ?w s2, True)"
    using L s2(3) by (simp add: do_schedule_running[OF wf w] schedule_from_run[OF s1(1) s2(1)] er_code)
  then show ?thesis using s2 sched_frame_trans[OF s1(2) s2(6)] by blast
qed

lemma do_schedule_boot:
  assumes wf: "lists_wf s L srt" and w: "sprt_work s = 0" "schedule_ref s = 0" and cnt: "g_sched_preempt_cnt (scpu s) \<noteq> - 1"
    and L: "L NR_THREAD_READY = q # rs"
  shows "\<exists>s'. do_schedule s = Some (schedule_context q s', True) \<and> lists_wf s' (L(NR_THREAD_READY := rs)) srt \<and>
           sprt_work s' = q \<and> to_status (thr s' q) = NR_THREAD_NONE \<and> scpu s' = scpu s \<and> sched_frame s s'"
proof -
  have rel: "lists_rel {} s L srt" using wf by (simp add: lists_wf_def)
  have "q \<in> queued L" using L unfolding queued_def by (intro UN_I[of 2]) simp_all
  then have k: "known s q" by (rule sched_relD(7)[OF rel])
  let ?s1 = "set_thr q (\<lambda>t. t\<lparr>to_status := 1\<rparr>) s"
  have first: "first_valid_entry ReadyHead s = q" "\<not> mrt_list_head_empty (slinks s) ReadyHead"
    using first_entry_rel[OF rel, of 2] L by simp_all
  then have prev: "schedule_prev s = Some (Some (?s1, q))"
    using w SET_known[OF k, of 1] known_access(4)[OF k] by (simp add: schedule_prev_def Let_def)
  have "status (thr s q) = 2" using wf L by (auto simp: lists_wf_def stat_ok_def)
  then obtain s2 where s2: "schedule_thread_switch (tid (thr ?s1 q)) ?s1 = Some (s2, ER_NORMAL)"
    "lists_wf s2 (L(NR_THREAD_READY := rs)) srt" "sprt_work s2 = q" "to_status (thr s2 q) = NR_THREAD_NONE"
    "scpu s2 = scpu s" "sched_frame ?s1 s2"
    using switch_boot[OF set_to_status_wf[OF wf, of q 1], of q] k w cnt L by auto
  have "default_status q ?s1 = Some ?s1" by (simp add: default_status_def)
  from schedule_from_run[OF this s2(1)] have "do_schedule s = Some (schedule_context q s2, True)"
    using first(2) prev s2(3) known_access(4)[OF k] by (simp add: do_schedule_def er_code)
  then show ?thesis using s2 sched_frame_trans[OF set_to_status_frame s2(6)] by blast
qed

lemma do_schedule_wf:
  assumes wf: "lists_wf s L srt" and cnt: "g_sched_preempt_cnt (scpu s) \<noteq> - 1"
  shows "\<exists>s' ok L'. do_schedule s = Some (s', ok) \<and> lists_wf s' L' srt \<and> scpu s' = scpu s \<and> sched_lock s' = sched_lock s \<and>
           (ok \<or> sprt_work s \<noteq> 0 \<longrightarrow> sprt_work s' \<noteq> 0)"
proof (cases "L NR_THREAD_READY")
  case Nil
  then show ?thesis using wf first_entry_rel(1)[of "{}" s L srt 2] by (auto simp: do_schedule_def lists_wf_def)
next
  case (Cons q rs)
  have rel: "lists_rel {} s L srt" using wf by (simp add: lists_wf_def)
  have q0: "q \<noteq> 0" using Cons sched_relD(7)[OF rel, of q] by (auto simp: known_def queued_def statuses_def)
  show ?thesis
  proof (cases "sprt_work s = 0")
    case w: True
    show ?thesis
    proof (cases "schedule_ref s = 0")
      case True
      obtain s' where "do_schedule s = Some (schedule_context q s', True)" "lists_wf s' (L(NR_THREAD_READY := rs)) srt"
        "sprt_work s' = q" "scpu s' = scpu s" "sched_frame s s'"
        using do_schedule_boot[OF wf w True cnt Cons] by blast
      then show ?thesis using schedule_context_wf q0
        by (intro exI[of _ "schedule_context q s'"] exI[of _ True] exI[of _ "L(2 := rs)"]) (simp add: sched_frame_def)
    next
      case False
      then show ?thesis using wf w Cons first_entry_rel(1)[of "{}" s L srt 2]
        by (auto simp: do_schedule_def schedule_prev_def lists_wf_def)
    qed
  next
    case w: False
    let ?w = "sprt_work s" and ?dst = "next_status (thr s (sprt_work s))"
    show ?thesis
    proof (cases "?dst \<in> statuses \<and> (tid (thr s ?w) = THREAD_TID_IDLE \<longrightarrow> ?dst = NR_THREAD_READY)")
      case True
      obtain s' L' where "do_schedule s = Some (schedule_context ?w s', True)" "lists_wf s' L' srt"
        "sprt_work s' = q" "scpu s' = scpu s" "sched_frame s s'"
        using do_schedule_yields[OF wf w cnt refl _ Cons] True by blast
      then show ?thesis using schedule_context_wf q0
        by (intro exI[of _ "schedule_context ?w s'"] exI[of _ True] exI[of _ L']) (simp add: sched_frame_def)
    next
      case False
      have k: "known s ?w" by (rule sched_relD(9)[OF rel w])
      have sw: "status (thr s ?w) = 1" using wf w by (simp add: lists_wf_def stat_ok_def)
      obtain s1 where s1: "default_status ?w s = Some s1" "sched_frame s s1" "sprt_work s1 = ?w" "scpu s1 = scpu s"
        "known s1 = known s" "to_status (thr s1 ?w) = ?dst" "status (thr s1 ?w) = 1" "lists_wf s1 L srt"
        using default_status_known[OF k] wf sw by metis
      have d0: "?dst \<noteq> 0" by (simp add: next_status_def)
      have "?dst = 1 \<or> ?dst \<ge> 5 \<or> tid (thr s ?w) = 0 \<and> ?dst \<in> statuses \<and> ?dst \<noteq> 2"
        using False status_cases[OF d0] leI[of ?dst 5] by auto
      then have "switch_refused (tid (thr s1 ?w)) (status (thr s1 ?w)) (to_status (thr s1 ?w)) L"
        using sched_frame_thr(1)[OF s1(2), of ?w] s1(6,7) by (auto simp: switch_refused_def)
      then obtain s2 where s2: "schedule_thread_switch (tid (thr s1 ?w)) s1 = Some (s2, - ER_UNVALID)"
        "lists_wf s2 L srt" "sprt_work s2 = ?w" "scpu s2 = scpu s" "sched_frame s1 s2"
        using switch_refuses[OF s1(8), of ?w] k s1(3,4,5) cnt by auto
      have "do_schedule s = Some (s2, False)"
        using Cons by (simp add: do_schedule_running[OF wf w] schedule_from_run[OF s1(1) s2(1)] er_code)
      then show ?thesis using s2 w sched_frame_trans[OF s1(2) s2(5)]
        by (intro exI[of _ s2] exI[of _ False] exI[of _ L]) (simp add: sched_frame_def)
    qed
  qed
qed

lemma context_switch_wf:
  assumes wf: "lists_wf s L srt" and w: "sprt_work s \<noteq> 0"
  shows "\<exists>s'. context_switch psr s = Some s' \<and> lists_wf s' L srt \<and> sprt_work s' = sprt_work s \<and> sched_lock s' = sched_lock s \<and>
           g_sched_preempt_cnt (scpu s') = g_sched_preempt_cnt (scpu s) - 1 \<and> cpsr (scpu s') = psr \<and> schedule_ref s' \<noteq> 0 \<and>
           prio s' = prio s \<and> jiffies s' = jiffies s \<and> tlinks s' = tlinks s \<and> timers s' = timers s \<and> known s' = known s \<and>
           to_status (thr s' q) = to_status (thr s q) \<and>
           expires (thr s' (sprt_work s)) =
             jiffies s + msecs_to_jiffies (thread_get_sched_msecs (attrs s (sprt_attr (thr s (sprt_work s)))))"
proof -
  define s1 where "s1 = (if schedule_ref s = 0 then s\<lparr>schedule_ref := 1\<rparr> else s)"
  have k: "known s (sprt_work s)" using wf w sched_relD(9)[of "{}" s L srt] by (simp add: lists_wf_def)
  have s1: "thr s1 = thr s" "attrs s1 = attrs s" "sprt_work s1 = sprt_work s" "jiffies s1 = jiffies s" "scpu s1 = scpu s"
    "sched_lock s1 = sched_lock s" "slinks s1 = slinks s" "tid_array s1 = tid_array s" "schedule_ref s1 \<noteq> 0"
    "tlinks s1 = tlinks s" "timers s1 = timers s"
    by (simp_all add: s1_def)
  let ?a = "attrs s (sprt_attr (thr s (sprt_work s)))"
  define s2 where "s2 = (set_thr (sprt_work s) (\<lambda>th. th\<lparr>expires := jiffies s + msecs_to_jiffies (thread_get_sched_msecs ?a)\<rparr>) s1)
    \<lparr>scpu := \<lparr>g_sched_preempt_cnt = g_sched_preempt_cnt (scpu s) - 1, cpsr = psr\<rparr>\<rparr>"
  have "context_switch psr s = Some s2"
    using known_access(3)[OF k] s1 by (simp add: context_switch_def Let_def thread_init_before_def attr_of_def s1_def[symmetric] s2_def
        set_thr_def split: if_splits)
  moreover have "lists_wf s2 L srt" by (rule sched_wf_cong[OF wf]) (simp_all add: s2_def set_thr_def s1)
  ultimately show ?thesis by (intro exI[of _ s2]) (simp add: s2_def set_thr_def s1 prio_def known_def fun_eq_iff)
qed

lemma schedule_thread_good:
  assumes good: "lists_good s L srt"
  shows "\<exists>s' L'. schedule_thread psr s = Some s' \<and> lists_good s' L' srt \<and> (sprt_work s \<noteq> 0 \<longrightarrow> sprt_work s' \<noteq> 0)"
proof -
  let ?s0 = "s\<lparr>scpu := mrt_disable_cpu_irq (mrt_preempt_disable (scpu s))\<rparr>"
  let ?n = "g_sched_preempt_cnt (scpu s)"
  have n: "g_sched_preempt_cnt (scpu ?s0) = ?n + 1"
    by (simp add: mrt_disable_cpu_irq_def mrt_preempt_disable_def COUNT_INC_def)
  have room: "?n + 1 \<noteq> - 1" "?n + 1 \<noteq> 0"
    using preempt_room[of "scpu s"] good by (auto simp: lists_good_def add_eq_0_iff2)
  have "lists_wf ?s0 L srt" by (rule sched_wf_cong[of s]) (use good in \<open>simp_all add: lists_good_def\<close>)
  then obtain s1 ok L' where s1: "do_schedule ?s0 = Some (s1, ok)" "lists_wf s1 L' srt" "scpu s1 = scpu ?s0"
    "sched_lock s1 = sched_lock s" "ok \<or> sprt_work s \<noteq> 0 \<longrightarrow> sprt_work s1 \<noteq> 0"
    using do_schedule_wf[of ?s0 L srt] n room by auto
  show ?thesis
  proof (cases ok)
    case True
    then obtain s2 where s2: "context_switch (psr (sprt_work s1)) s1 = Some s2" "lists_wf s2 L' srt" "sprt_work s2 = sprt_work s1"
      "sched_lock s2 = sched_lock s1" "g_sched_preempt_cnt (scpu s2) = g_sched_preempt_cnt (scpu s1) - 1"
      using context_switch_wf[OF s1(2)] s1(5) by blast
    have "schedule_thread psr s = Some s2" using s1(1) True s2(1) by (simp add: schedule_thread_def Let_def)
    then show ?thesis using s2 s1 good n True by (auto simp: lists_good_def sched_idle_lock_def)
  next
    case False
    let ?s2 = "s1\<lparr>scpu := mrt_preempt_enable ((scpu s1)\<lparr>cpsr := cpsr (mrt_preempt_disable (scpu s))\<rparr>)\<rparr>"
    have "schedule_thread psr s = Some ?s2" using s1(1) False by (simp add: schedule_thread_def Let_def)
    moreover have "lists_wf ?s2 L' srt" by (rule sched_wf_cong[OF s1(2)]) simp_all
    moreover have "g_sched_preempt_cnt (scpu ?s2) = ?n"
      using n room s1(3) by (simp add: mrt_preempt_enable_def COUNT_DEC_def)
    ultimately show ?thesis using s1 good by (auto simp: lists_good_def sched_idle_lock_def)
  qed
qed

lemma schedule_before_good:
  assumes good: "lists_good s L srt" and run: "schedule_before psr s = Some s'"
  shows "\<exists>L'. lists_good s' L' srt \<and> (sprt_work s \<noteq> 0 \<longrightarrow> sprt_work s' \<noteq> 0)"
proof (cases "g_sched_preempt_cnt (scpu s) = 0")
  case False
  then show ?thesis using good run by (auto simp: schedule_before_def)
next
  case True
  let ?s0 = "s\<lparr>scpu := (scpu s)\<lparr>g_sched_preempt_cnt := 1\<rparr>\<rparr>"
  have "lists_wf ?s0 L srt" by (rule sched_wf_cong[of s]) (use good in \<open>simp_all add: lists_good_def\<close>)
  then obtain s1 ok L' where s1: "do_schedule ?s0 = Some (s1, ok)" "lists_wf s1 L' srt" "scpu s1 = scpu ?s0"
    "sched_lock s1 = sched_lock s" "ok \<or> sprt_work s \<noteq> 0 \<longrightarrow> sprt_work s1 \<noteq> 0"
    using do_schedule_wf[of ?s0 L srt] by auto
  then have ok: "ok" and s': "context_switch (psr (sprt_work s1)) s1 = Some s'"
    using run True by (simp_all add: schedule_before_def split: if_splits)
  then show ?thesis using context_switch_wf[OF s1(2), of "psr (sprt_work s1)"] s1 good True
    by (auto simp: lists_good_def sched_idle_lock_def)
qed

lemma self_request_good:
  assumes good: "lists_good s L srt" and w: "sprt_work s \<noteq> 0" and v: "v \<in> statuses"
  shows "\<exists>s' L'. (do { s \<leftarrow> lock_sched s; w \<leftarrow> deref (sprt_work s) s; s \<leftarrow> SET_THREAD_STATUS (tid w) v s;
                   schedule_thread psr (unlock_sched s) }) = Some s' \<and> lists_good s' L' srt \<and> sprt_work s' \<noteq> 0"
proof -
  obtain c l where lock: "locked_as s c l" using good_lock[OF good] by blast
  let ?s1 = "s\<lparr>scpu := c, sched_lock := l\<rparr>"
  let ?s2 = "set_thr (sprt_work s) (\<lambda>t. t\<lparr>to_status := v\<rparr>) ?s1"
  let ?s3 = "?s2\<lparr>scpu := scpu s, sched_lock := (sched_lock s)\<lparr>flag := 0\<rparr>\<rparr>"
  have k: "known s (sprt_work s)" using good w sched_relD(9)[of "{}" s L srt] by (simp add: lists_good_def lists_wf_def)
  have set: "SET_THREAD_STATUS (tid (thr s (sprt_work s))) v ?s1 = Some ?s2"
    using SET_known[of ?s1 "sprt_work s" v] k statuses_neq[OF v] by simp
  have "lists_wf ?s2 L srt"
    by (rule set_to_status_wf, rule sched_wf_cong[of s]) (use good in \<open>simp_all add: lists_good_def\<close>)
  then have "lists_good ?s3 L srt" by (rule good_unlocked[OF good])
  then obtain s' L' where "schedule_thread psr ?s3 = Some s'" "lists_good s' L' srt" "sprt_work s' \<noteq> 0"
    using schedule_thread_good[of ?s3 L srt psr] w by auto
  moreover have "unlock_sched ?s2 = ?s3" using lock by (simp add: locked_as_def)
  ultimately show ?thesis using lock set w by (auto simp: locked_as_def deref_def)
qed

lemma self_good:
  assumes "lists_good s L srt" and "sprt_work s \<noteq> 0"
  shows "\<exists>s' L'. schedule_self_suspend psr s = Some s' \<and> lists_good s' L' srt \<and> sprt_work s' \<noteq> 0"
    and "\<exists>s' L'. schedule_self_sleep psr s = Some s' \<and> lists_good s' L' srt \<and> sprt_work s' \<noteq> 0"
  using self_request_good[OF assms, of 3 psr] self_request_good[OF assms, of 4 psr]
  by (simp_all add: schedule_self_suspend_def schedule_self_sleep_def)

lemma suspend_sleep_good:
  assumes good: "lists_good s L srt" and k: "known s p" and w: "sprt_work s \<noteq> 0"
  shows "\<exists>s' r L'. schedule_thread_suspend psr (tid (thr s p)) s = Some (s', r) \<and> lists_good s' L' srt \<and> sprt_work s' \<noteq> 0"
    and "\<exists>s' r L'. schedule_thread_sleep psr (tid (thr s p)) s = Some (s', r) \<and> lists_good s' L' srt \<and> sprt_work s' \<noteq> 0"
proof -
  obtain c l where lock: "locked_as s c l" using good_lock[OF good] by blast
  have d: "deref (sprt_work s) s = Some (thr s (sprt_work s))" using w by (simp add: deref_def)
  show "\<exists>s' r L'. schedule_thread_suspend psr (tid (thr s p)) s = Some (s', r) \<and> lists_good s' L' srt \<and> sprt_work s' \<noteq> 0"
  proof (cases "tid (thr s p) = tid (thr s (sprt_work s))")
    case True
    then show ?thesis using self_good(1)[OF good w, of psr] d by (auto simp: schedule_thread_suspend_def)
  next
    case False
    then show ?thesis using request_good[OF good k w _ lock refl, of NR_THREAD_SUSPEND] lock d
      by (auto simp: schedule_thread_suspend_def locked_as_def)
  qed
  show "\<exists>s' r L'. schedule_thread_sleep psr (tid (thr s p)) s = Some (s', r) \<and> lists_good s' L' srt \<and> sprt_work s' \<noteq> 0"
  proof (cases "tid (thr s p) = tid (thr s (sprt_work s))")
    case True
    then show ?thesis using self_good(2)[OF good w, of psr] d by (auto simp: schedule_thread_sleep_def)
  next
    case False
    then show ?thesis using request_good[OF good k w _ lock refl, of NR_THREAD_SLEEP] lock d
      by (auto simp: schedule_thread_sleep_def locked_as_def)
  qed
qed

text \<open>A suspended thread that is woken up goes to the ready list.\<close>

lemma wakeup_moves:
  assumes good: "lists_good s L srt" and k: "known s p" and w: "sprt_work s \<noteq> 0" and st: "status (thr s p) = NR_THREAD_SUSPEND"
  shows "\<exists>s'. schedule_thread_wakeup (tid (thr s p)) s = Some (s', ER_NORMAL) \<and> sprt_work s' = sprt_work s \<and>
           lists_good s' (L(NR_THREAD_SUSPEND := remove1 p (L NR_THREAD_SUSPEND),
             NR_THREAD_READY := prio_insert (prio s) p (L NR_THREAD_READY))) srt \<and>
           known s' = known s \<and> tlinks s' = tlinks s \<and> timers s' = timers s \<and> jiffies s' = jiffies s"
proof -
  obtain c l where lock: "locked_as s c l" using good_lock[OF good] by blast
  let ?s1 = "s\<lparr>scpu := c, sched_lock := l\<rparr>"
  let ?s2 = "set_thr p (\<lambda>t. t\<lparr>to_status := 2\<rparr>) ?s1"
  have get: "GET_THREAD_STATUS (tid (thr s p)) ?s1 = Some 3"
    using known_access(1,2)[of ?s1 p] k st by (simp add: GET_THREAD_STATUS_def)
  have set: "SET_THREAD_STATUS (tid (thr s p)) 2 ?s1 = Some ?s2" using SET_known[of ?s1 p 2] k by simp
  have wf: "lists_wf ?s2 L srt"
    by (rule set_to_status_wf, rule sched_wf_cong[of s]) (use good in \<open>simp_all add: lists_good_def\<close>)
  have c: "g_sched_preempt_cnt c \<noteq> - 1"
    using preempt_room(2)[of "scpu s"] good lock by (simp add: lists_good_def locked_as_def)
  let ?L = "L(3 := remove1 p (L 3), 2 := prio_insert (prio s) p (L 2))"
  have mv: "fst (sched_move (prio s) p 3 2 (L, sprt_work s)) = ?L" by (simp add: sched_move_def Let_def)
  obtain s3 where s3: "schedule_thread_switch (tid (thr s p)) ?s2 = Some (s3, ER_NORMAL)" "lists_wf s3 ?L srt"
    "sprt_work s3 = sprt_work s" "scpu s3 = c" "sched_frame ?s2 s3"
    using switch_list_to_list[OF wf, of p 3 2] k w c st mv by auto
  let ?s' = "s3\<lparr>scpu := scpu s, sched_lock := (sched_lock s)\<lparr>flag := 0\<rparr>\<rparr>"
  have "unlock_sched s3 = ?s'" using lock s3(4,5) by (simp add: locked_as_def sched_frame_def)
  then have "schedule_thread_wakeup (tid (thr s p)) s = Some (?s', ER_NORMAL)"
    using lock get set s3(1) by (simp add: schedule_thread_wakeup_def locked_as_def)
  moreover have "lists_good ?s' ?L srt" by (rule good_unlocked[OF good s3(2)])
  moreover have "known ?s' = known s" "tlinks ?s' = tlinks s" "timers ?s' = timers s" "jiffies ?s' = jiffies s"
    using s3(5) sched_frame_thr[OF s3(5)] by (simp_all add: sched_frame_def known_def fun_eq_iff) (simp_all add: set_thr_def)
  ultimately show ?thesis using s3(3) by (intro exI[of _ ?s']) simp
qed

subsection \<open>Registering a thread\<close>

definition fresh_thread :: "sched \<Rightarrow> u32 \<Rightarrow> u32 \<Rightarrow> bool" where
  "fresh_thread s p t \<longleftrightarrow> p \<noteq> 0 \<and> sprt_attr (thr s p) \<noteq> 0 \<and> tid (thr s p) = t \<and> t < THREAD_MAX_NUM \<and>
     status (thr s p) \<noteq> NR_THREAD_READY \<and> (\<forall>t'<THREAD_MAX_NUM. tid_array s t' \<noteq> p)"

text \<open>The name field after the call: the text, its end, and what was behind it.\<close>

lemma thread_name_text:
  defines "text t \<equiv> [0x74, 0x68, 0x72, 0x65, 0x61, 0x64, 0x2d] @ dec_text (ucast t)"
  shows "\<exists>nm. thread_name t f = Some nm \<and> length nm = 32 \<and> take (Suc (length (text t))) nm = text t @ [0]"
proof -
  define m where "m = write_bytes (write_bytes (\<lambda>_. 0) 0x1000 f) 0x2000 (thread_format @ [0])"
  have len: "length (text t) \<le> 27" using dec_text_length(1)[of "ucast t"] by (simp add: text_def)
  have "cstr m 0x2000 thread_format" unfolding m_def by (rule write_bytes_cstr) (simp_all add: thread_format_def)
  moreover have "clear_of 0x1000 (Suc (length (text t))) 0x2000 (Suc (length thread_format))"
    by (rule clear_of_apart) (use len in \<open>simp_all add: thread_format_def\<close>)
  then have "fmt_room 0x1000 (length (text t)) 0x2000 thread_format (\<lambda>_. None)"
    using len by (simp add: fmt_room_def thread_format_def)
  moreover have "fmt_text (\<lambda>_. None) thread_format [A32 t] = Some (text t)"
    by (simp add: thread_format_def fmt_text.simps text_def)
  ultimately have run: "sprintk 0x1000 0x2000 [A32 t] m = Some (write_bytes m 0x1000 (text t @ [0]), of_nat (length (text t)))"
    using len by (intro sprintk_text[where F = thread_format and S = "\<lambda>_. None"]) (simp_all add: isValid_iff, simp add: thread_format_def)
  let ?nm = "map (\<lambda>i. write_bytes m 0x1000 (text t @ [0]) (0x1000 + of_nat i)) [0..<32]"
  have "bytes_at (write_bytes m 0x1000 (text t @ [0])) 0x1000 (text t @ [0])" using len by (intro write_bytes_at) simp
  then have "take (Suc (length (text t))) ?nm = text t @ [0]"
    using len by (intro nth_equalityI) (auto simp: bytes_at_nth)
  then show ?thesis using run by (simp add: thread_name_def m_def Let_def)
qed

lemma fresh_rel:
  assumes rel: "lists_rel {} s L srt" and fresh: "fresh_thread s p t" and free: "tid_array s t = 0"
    and s1: "slinks s1 = init_list_head (slinks s) (ThreadLink p)" "tid_array s1 = (tid_array s)(t := p)"
      "sprt_work s1 = sprt_work s" "attrs s1 = attrs s"
      "\<And>q. tid (thr s1 q) = tid (thr s q)" "\<And>q. sprt_attr (thr s1 q) = sprt_attr (thr s q)"
  shows "lists_rel {p} s1 L srt"
proof -
  have new: "q \<noteq> p" "known s1 q" if "known s q" for q
    using that fresh free by (auto simp: known_def fresh_thread_def s1)
  have kp: "known s1 p" using fresh by (simp add: known_def fresh_thread_def s1)
  have pr: "prio s1 = prio s" by (simp add: prio_def s1 fun_eq_iff)
  have pq: "p \<notin> queued L" "sprt_work s \<noteq> p"
    using sched_relD(7,9)[OF rel] new(1) fresh by (auto simp: fresh_thread_def)
  have ring: "ring (slinks s1) (head_of st) (map ThreadLink (L st))" if "st \<in> statuses" for st
    by (rule ring_frame[OF sched_relD(1)[OF rel that]])
       (use pq(1) that in \<open>auto simp: s1 queued_def intro!: init_list_head_other\<close>)
  show ?thesis unfolding lists_rel_def pr s1(3)
  proof (intro conjI ballI allI impI)
    fix t' assume t': "t' < THREAD_MAX_NUM" "tid_array s1 t' \<noteq> 0"
    show "tid (thr s1 (tid_array s1 t')) = t'"
      using t' sched_relD(10)[OF rel, of t'] fresh by (auto simp: s1 fresh_thread_def split: if_splits)
    show "tid_array s1 t' \<in> queued L \<union> {p} \<union> {sprt_work s}"
      using t' sched_relD(11)[OF rel, of t'] by (auto simp: s1 split: if_splits)
  qed (use ring sched_relD(2,3,4)[OF rel] pq kp new(2) sched_relD(7,9)[OF rel] in auto)
qed

lemma register_good:
  assumes good: "lists_good s L srt" and fresh: "fresh_thread s p t"
  shows "if tid_array s t \<noteq> 0 then register_new_thread p t s = Some (s, - ER_UNVALID)
         else if stack_addr (attrs s (sprt_attr (thr s p))) = 0 then register_new_thread p t s = Some (s, - ER_NOMEM)
         else \<exists>s'. register_new_thread p t s = Some (s', ER_NORMAL) \<and> sprt_work s' = sprt_work s \<and>
                lists_good s' (L(NR_THREAD_READY := prio_insert (prio s) p (L NR_THREAD_READY))) srt \<and>
                tid_array s' = (tid_array s)(t := p) \<and> scpu s' = scpu s \<and> attrs s' = attrs s \<and>
                (\<forall>q. q \<noteq> p \<longrightarrow> thr s' q = thr s q) \<and>
                (\<exists>nm l. thread_name t (tname (thr s p)) = Some nm \<and>
                   thr s' p = (thr s p)\<lparr>tname := nm, tlock := l, status := NR_THREAD_READY, to_status := NR_THREAD_NONE\<rparr>)"
proof -
  have acc: "deref p s = Some (thr s p)" "SCHED_THREAD_HANDLER t s = Some (tid_array s t)"
    "attr_of p s = Some (attrs s (sprt_attr (thr s p)))" and st: "status (thr s p) \<noteq> 2"
    using fresh by (simp_all add: fresh_thread_def deref_def SCHED_THREAD_HANDLER_def attr_of_def)
  show ?thesis
  proof (cases "tid_array s t \<noteq> 0 \<or> stack_addr (attrs s (sprt_attr (thr s p))) = 0")
    case True
    then show ?thesis using acc by (auto simp: register_new_thread_def)
  next
    case False
    then have free: "tid_array s t = 0" by simp
    obtain c l where lock: "locked_as s c l" using good_lock[OF good] by blast
    obtain nm where nm: "thread_name t (tname (thr s p)) = Some nm" using thread_name_text by blast
    define s1 where "s1 = set_thr p (\<lambda>th. th\<lparr>tlock := spin_lock_init (tlock th), tname := nm\<rparr>)
       (s\<lparr>scpu := c, sched_lock := l, tid_array := (tid_array s)(t := p), slinks := init_list_head (slinks s) (ThreadLink p)\<rparr>)"
    have s1: "slinks s1 = init_list_head (slinks s) (ThreadLink p)" "tid_array s1 = (tid_array s)(t := p)"
      "sprt_work s1 = sprt_work s" "attrs s1 = attrs s" "tid (thr s1 q) = tid (thr s q)"
      "sprt_attr (thr s1 q) = sprt_attr (thr s q)" "status (thr s1 q) = status (thr s q)" "scpu s1 = c" "sched_lock s1 = l"
      "prio s1 = prio s" for q by (simp_all add: s1_def set_thr_def prio_def fun_eq_iff)
    have wf: "lists_wf s L srt" using good by (simp add: lists_good_def)
    have rel1: "lists_rel {p} s1 L srt"
      by (rule fresh_rel[OF _ fresh free]) (use wf s1 in \<open>simp_all add: lists_wf_def\<close>)
    let ?L = "L(2 := prio_insert (prio s) p (L 2))"
    have t: "t = tid (thr s1 p)" using fresh by (simp add: s1 fresh_thread_def)
    obtain h where h: "schedule_add_ready_list t s1 = Some (s1\<lparr>slinks := h\<rparr>, ER_NORMAL)" "lists_rel {} (s1\<lparr>slinks := h\<rparr>) ?L srt"
      using switch_attach_rel[OF rel1, of 2 p] st by (auto simp: s1 t switch_attach_def)
    let ?s2 = "set_status p 2 (s1\<lparr>slinks := h\<rparr>)"
    have sync: "SYNC_THREAD_STATUS t 2 (s1\<lparr>slinks := h\<rparr>) = Some ?s2"
      using SYNC_known[of "s1\<lparr>slinks := h\<rparr>" p 2] sched_relD(8)[OF rel1, of p] t by simp
    have rel2: "lists_rel {} ?s2 ?L srt" by (rule sched_rel_set_status[OF h(2)])
    have ok: "stat_ok ?s2 ?L" unfolding stat_ok_def
    proof (intro conjI ballI impI)
      fix a q assume a: "a \<in> statuses" "q \<in> set (?L a)"
      have "q = p \<Longrightarrow> a = 2" using sched_relD(3)[OF rel2 a(1), of 2] a(2) by (auto split: if_splits)
      then show "status (thr ?s2 q) = a" using wf a by (auto simp: lists_wf_def stat_ok_def s1 split: if_splits)
    next
      assume "sprt_work ?s2 \<noteq> 0"
      then show "status (thr ?s2 (sprt_work ?s2)) = NR_THREAD_RUNNING"
        using wf sched_relD(5)[OF rel1] by (auto simp: lists_wf_def stat_ok_def s1)
    qed
    have "register_new_thread p t s = Some (unlock_sched ?s2, ER_NORMAL)"
      using False acc lock nm h(1) sync
      by (simp add: register_new_thread_def locked_as_def set_thr_def s1_def Let_def er_code)
    moreover have "unlock_sched ?s2 = ?s2\<lparr>scpu := scpu s, sched_lock := (sched_lock s)\<lparr>flag := 0\<rparr>\<rparr>"
      using lock s1(8,9) by (simp add: locked_as_def set_status_def set_thr_def)
    moreover have "lists_good (?s2\<lparr>scpu := scpu s, sched_lock := (sched_lock s)\<lparr>flag := 0\<rparr>\<rparr>) ?L srt"
      using good_unlocked[OF good, of ?s2 ?L] rel2 ok by (simp add: lists_wf_def)
    moreover have "\<forall>q. q \<noteq> p \<longrightarrow> thr ?s2 q = thr s q" "attrs ?s2 = attrs s" "tid_array ?s2 = (tid_array s)(t := p)"
      by (simp_all add: s1_def set_status_def set_thr_def)
    moreover have "thr ?s2 p =
        (thr s p)\<lparr>tname := nm, tlock := spin_lock_init (tlock (thr s p)), status := NR_THREAD_READY, to_status := NR_THREAD_NONE\<rparr>"
      by (simp add: s1_def set_status_def set_thr_def)
    ultimately show ?thesis using False s1(3) nm by auto
  qed
qed

subsection \<open>The scheduler as a state machine\<close>

definition registered :: "sched \<Rightarrow> u32 \<Rightarrow> bool" where
  "registered s t \<longleftrightarrow> t < THREAD_MAX_NUM \<and> tid_array s t \<noteq> 0"

lemma registered_known:
  assumes "lists_rel X s L srt" and "registered s t"
  shows "known s (tid_array s t)" and "tid (thr s (tid_array s t)) = t"
proof -
  have t: "t < THREAD_MAX_NUM" "tid_array s t \<noteq> 0" using assms(2) by (simp_all add: registered_def)
  show "tid (thr s (tid_array s t)) = t" by (rule sched_relD(10)[OF assms(1) t])
  consider "tid_array s t \<in> queued L" | "tid_array s t \<in> X" | "tid_array s t = sprt_work s"
    using sched_relD(11)[OF assms(1) t] by blast
  then show "known s (tid_array s t)"
    using sched_relD(7-9)[OF assms(1)] t(2) by cases simp_all
qed

text \<open>
  \<^verbatim>\<open>schedule_thread_switch\<close> is exported: \<open>switch_safe\<close> are the targets a caller may have set for which it does not
  drop the thread. \<^verbatim>\<open>thread_set_priority\<close> writes the attribute record it is given, which may belong to a thread
  that is queued.
\<close>

definition switch_safe :: "thread \<Rightarrow> bool" where
  "switch_safe th \<longleftrightarrow> to_status th \<noteq> NR_THREAD_NONE \<and>
     (to_status th = NR_THREAD_RUNNING \<longrightarrow> status th \<noteq> NR_THREAD_SUSPEND \<and> status th \<noteq> NR_THREAD_SLEEP)"

definition set_priority_at :: "u32 \<Rightarrow> u32 \<Rightarrow> sched \<Rightarrow> sched" where
  "set_priority_at a v s = s\<lparr>attrs := (attrs s)(a := thread_set_priority v (attrs s a))\<rparr>"

text \<open>
  The operations as they follow one another, with any saved status registers (\<open>psr\<close>); the
  operations that need a running thread are called by one. Everything the timer interrupt and
  the other parts of the kernel do outside the scheduler is \<open>outside\<close>: the timers and the clock, any
  attribute record, the threads that are not in the table, and the core's registers and preemption count as long as
  it is nowhere near wrapping round.
\<close>

inductive sched_step :: "sched \<Rightarrow> sched \<Rightarrow> bool" where
  register: "fresh_thread s p t \<Longrightarrow> register_new_thread p t s = Some (s', r) \<Longrightarrow> sched_step s s'"
| schedule: "schedule_thread psr s = Some s' \<Longrightarrow> sched_step s s'"
| choose: "do_schedule s = Some (s', ok) \<Longrightarrow> sched_step s s'"
| init_before: "thread_init_before s = Some s' \<Longrightarrow> sched_step s s'"
| preempt: "schedule_before psr s = Some s' \<Longrightarrow> sched_step s s'"
| suspend: "sprt_work s \<noteq> 0 \<Longrightarrow> registered s t \<Longrightarrow> schedule_thread_suspend psr t s = Some (s', r) \<Longrightarrow> sched_step s s'"
| sleep: "sprt_work s \<noteq> 0 \<Longrightarrow> registered s t \<Longrightarrow> schedule_thread_sleep psr t s = Some (s', r) \<Longrightarrow> sched_step s s'"
| wakeup: "sprt_work s \<noteq> 0 \<Longrightarrow> registered s t \<Longrightarrow> schedule_thread_wakeup t s = Some (s', r) \<Longrightarrow> sched_step s s'"
| switch: "sprt_work s \<noteq> 0 \<Longrightarrow> registered s t \<Longrightarrow> switch_safe (thr s (tid_array s t)) \<Longrightarrow>
    schedule_thread_switch t s = Some (s', r) \<Longrightarrow> sched_step s s'"
| self_suspend: "sprt_work s \<noteq> 0 \<Longrightarrow> schedule_self_suspend psr s = Some s' \<Longrightarrow> sched_step s s'"
| self_sleep: "sprt_work s \<noteq> 0 \<Longrightarrow> schedule_self_sleep psr s = Some s' \<Longrightarrow> sched_step s s'"
| set_state: "thread_set_state p st s = Some s' \<Longrightarrow> sched_step s s'"
| set_name: "thread_set_name t name s = Some s' \<Longrightarrow> sched_step s s'"
| self_name: "thread_set_self_name name s = Some s' \<Longrightarrow> sched_step s s'"
| pending: "thread_state_pending p s = Some (s', b) \<Longrightarrow> sched_step s s'"
| signal: "thread_state_signal p sig mode s = Some s' \<Longrightarrow> sched_step s s'"
| unused_tid: "get_unused_tid_from_scheduler i n s = Some (s', r) \<Longrightarrow> sched_step s s'"
| stats: "scheduler_stats_get s = Some (s', n) \<Longrightarrow> sched_step s s'"
| set_priority: "sched_step s (set_priority_at a v s)"
| outside: "(\<And>p. known s p \<Longrightarrow> th p = thr s p) \<Longrightarrow> unat (g_sched_preempt_cnt c) + 4 < 2 ^ 32 \<Longrightarrow>
    sched_step s (s\<lparr>tlinks := hp, timers := tm, jiffies := j, attrs := at, thr := th, scpu := c\<rparr>)"

text \<open>A step that changes no priority of a thread in the table.\<close>

definition prio_fixed :: "sched \<Rightarrow> sched \<Rightarrow> bool" where
  "prio_fixed s s' \<longleftrightarrow> (\<forall>p. known s p \<longrightarrow> prio s' p = prio s p)"

text \<open>Before the first thread: no thread in the table, empty lists, nothing held.\<close>

definition sched_start :: "sched \<Rightarrow> bool" where
  "sched_start s \<longleftrightarrow> tid_array s = (\<lambda>_. 0) \<and> sprt_work s = 0 \<and> sched_idle_lock s \<and> g_sched_preempt_cnt (scpu s) = 0 \<and>
     (\<forall>st\<in>statuses. mrt_list_head_empty (slinks s) (head_of st))"

lemma sched_start_good: "sched_start s \<Longrightarrow> lists_good s (\<lambda>_. []) srt"
  by (auto simp: sched_start_def lists_good_def lists_wf_def lists_rel_def stat_ok_def queued_def ring_Nil_iff)

text \<open>Steps that leave the lists and the fields they depend on alone.\<close>

lemma lists_good_known:
  assumes good: "lists_good s L srt" and same: "slinks s' = slinks s" "sprt_work s' = sprt_work s" "tid_array s' = tid_array s"
    "unat (g_sched_preempt_cnt (scpu s')) + 4 < 2 ^ 32" "sgrt_atc (sched_lock s') = sgrt_atc (sched_lock s)"
    and th: "\<And>p. known s p \<Longrightarrow> tid (thr s' p) = tid (thr s p) \<and> sprt_attr (thr s' p) \<noteq> 0 \<and> status (thr s' p) = status (thr s p)"
    and pr: "\<And>p. srt \<Longrightarrow> known s p \<Longrightarrow> prio s' p = prio s p"
  shows "lists_good s' L srt"
proof -
  have rel: "lists_rel {} s L srt" and ok: "stat_ok s L" using good by (simp_all add: lists_good_def lists_wf_def)
  have k: "known s' p" if "known s p" for p using that th[OF that] same(3) by (simp add: known_def)
  have qk: "known s p" if "p \<in> queued L" for p by (rule sched_relD(7)[OF rel that])
  have srt: "sorted (map (prio s') (L st))" if st: "st \<in> statuses" and srt for st
  proof -
    have "map (prio s') (L st) = map (prio s) (L st)"
      by (rule map_cong[OF refl], rule pr[OF \<open>srt\<close>], rule qk) (use st in \<open>auto simp: queued_def\<close>)
    then show ?thesis using sched_relD(2)[OF rel \<open>srt\<close> st] by (simp only:)
  qed
  have "lists_rel {} s' L srt" unfolding lists_rel_def same(1-3)
  proof (intro conjI ballI allI impI)
    fix t assume t: "t < THREAD_MAX_NUM" "tid_array s t \<noteq> 0"
    then have "known s (tid_array s t)" using registered_known(1)[OF rel, of t] by (simp add: registered_def)
    then show "tid (thr s' (tid_array s t)) = t" using sched_relD(10)[OF rel t] th by simp
    show "tid_array s t \<in> queued L \<union> {} \<union> {sprt_work s}" using sched_relD(11)[OF rel t] by simp
  qed (use srt sched_relD(1,3,4)[OF rel] k qk sched_relD(9)[OF rel] in simp_all)
  moreover have "stat_ok s' L" unfolding stat_ok_def same(1-3)
  proof (intro conjI ballI impI)
    fix st q assume "st \<in> statuses" "q \<in> set (L st)"
    then show "status (thr s' q) = st" using ok th[OF qk, of q] by (auto simp: stat_ok_def queued_def)
  next
    assume "sprt_work s \<noteq> 0"
    then show "status (thr s' (sprt_work s)) = NR_THREAD_RUNNING" using ok th[OF sched_relD(9)[OF rel]] by (simp add: stat_ok_def)
  qed
  ultimately show ?thesis using good same by (simp add: lists_good_def lists_wf_def sched_idle_lock_def spin_is_locked_def)
qed

lemma sched_good_cong:
  assumes "lists_good s L srt" and "slinks s' = slinks s" and "sprt_work s' = sprt_work s"
    and "tid_array s' = tid_array s" and "attrs s' = attrs s"
    and "\<And>q. tid (thr s' q) = tid (thr s q)" and "\<And>q. sprt_attr (thr s' q) = sprt_attr (thr s q)"
    and "\<And>q. status (thr s' q) = status (thr s q)"
    and "scpu s' = scpu s" and "sgrt_atc (sched_lock s') = sgrt_atc (sched_lock s)"
  shows "lists_good s' L srt"
  using assms by (intro lists_good_known[OF assms(1)]) (simp_all add: prio_def known_def lists_good_def)

lemma lists_good_weaken: "lists_good s L srt \<Longrightarrow> lists_good s L False"
  by (simp add: lists_good_def lists_wf_def lists_rel_def)

lemma set_priority_good:
  assumes "lists_good s L srt" and "srt \<Longrightarrow> prio_fixed s (set_priority_at a v s)"
  shows "lists_good (set_priority_at a v s) L srt"
  by (rule lists_good_known[OF assms(1)])
     (use assms in \<open>auto simp: prio_fixed_def\<close>, simp_all add: set_priority_at_def known_def lists_good_def)

lemma switch_good:
  assumes good: "lists_good s L srt" and w: "sprt_work s \<noteq> 0" and t: "registered s t" and safe: "switch_safe (thr s (tid_array s t))"
    and run: "schedule_thread_switch t s = Some (s', r)"
  shows "\<exists>L'. lists_good s' L' srt"
proof -
  let ?p = "tid_array s t"
  have wf: "lists_wf s L srt" and cnt: "g_sched_preempt_cnt (scpu s) \<noteq> - 1"
    using good preempt_room(1)[of "scpu s"] by (simp_all add: lists_good_def)
  have k: "known s ?p" "tid (thr s ?p) = t" using registered_known[OF _ t] wf by (auto simp: lists_wf_def)
  have "switch_allowed t (status (thr s ?p)) (to_status (thr s ?p)) L \<or> switch_refused t (status (thr s ?p)) (to_status (thr s ?p)) L"
    using sched_wf_place[OF wf k(1)] safe by (auto simp: switch_safe_def switch_allowed_def switch_refused_def statuses_def not_le)
  then obtain s1 r1 L1 where "schedule_thread_switch t s = Some (s1, r1)" "lists_wf s1 L1 srt" "scpu s1 = scpu s" "sched_frame s s1"
    using switch_moves[OF wf k(1) w cnt] switch_refuses[OF wf k(1) cnt] k(2) by (auto simp: Let_def split: prod.splits)
  then show ?thesis using run good by (auto simp: lists_good_def sched_idle_lock_def sched_frame_def)
qed

lemma set_name_good:
  assumes "lists_good s L srt" and "thread_set_name t name s = Some s' \<or> thread_set_self_name name s = Some s'"
  shows "lists_good s' L srt"
proof -
  have "s' = s \<or> (\<exists>p n. s' = set_thr p (\<lambda>th. th\<lparr>tname := n\<rparr>) s)"
    using assms(2) by (auto simp: thread_set_name_def thread_set_self_name_def split: option.splits if_splits bind_splits)
  then show ?thesis
    using assms(1) by (auto elim!: sched_good_cong simp: set_thr_def)
qed

lemma set_state_good:
  assumes "lists_good s L srt" and "thread_set_state p st s = Some s'"
  shows "lists_good s' L srt"
proof -
  have "s' = s \<or> (\<exists>q v. s' = set_thr q (\<lambda>t. t\<lparr>to_status := v\<rparr>) s)"
    using assms(2) by (auto simp: thread_set_state_def SET_THREAD_STATUS_def split: if_splits bind_splits)
  then show ?thesis using assms(1) by (auto elim!: sched_good_cong)
qed

lemma irqsave_cpu:
  assumes "spin_lock_irqsave c l = Some (c', l')" and "g_sched_preempt_cnt c \<noteq> - 1"
  shows "fst (spin_unlock_irqrestore c' l') = c"
  using irqsave_restores[OF assms] by simp

lemma signal_good:
  assumes good: "lists_good s L srt" and run: "thread_state_signal p sig mode s = Some s' \<or> thread_state_pending p s = Some (s', b)"
  shows "lists_good s' L srt"
proof -
  have cnt: "g_sched_preempt_cnt (scpu s) \<noteq> - 1" using good preempt_room(1)[of "scpu s"] by (simp add: lists_good_def)
  obtain th l where "s' = set_thr p (\<lambda>_. th\<lparr>tlock := l\<rparr>) s" and "tid th = tid (thr s p)" "sprt_attr th = sprt_attr (thr s p)"
    "status th = status (thr s p)"
    using run irqsave_restores[OF _ cnt]
    by (fastforce simp: thread_state_signal_def thread_state_pending_def deref_def mrt_thread_set_flags_def
        mrt_thread_clr_flags_def set_thr_def Let_def split: if_splits bind_splits prod.splits)
  then show ?thesis by (intro sched_good_cong[OF good]) (simp_all add: set_thr_def)
qed

lemma locked_read_good:
  assumes good: "lists_good s L srt" and run: "get_unused_tid_from_scheduler i n s = Some (s', r) \<or> scheduler_stats_get s = Some (s', m)"
  shows "lists_good s' L srt"
proof -
  obtain c l where lock: "locked_as s c l" using good_lock[OF good] by blast
  have "s' = unlock_sched (s\<lparr>scpu := c, sched_lock := l\<rparr>)"
    using run lock by (auto simp: get_unused_tid_from_scheduler_def scheduler_stats_get_def locked_as_def Let_def split: bind_splits)
  then have "s' = s\<lparr>scpu := scpu s, sched_lock := (sched_lock s)\<lparr>flag := 0\<rparr>\<rparr>" using lock by (simp add: locked_as_def)
  then show ?thesis using good_unlocked[OF good, of s L] good by (simp add: lists_good_def)
qed

lemma sched_step_good:
  assumes "sched_step s s'" and "lists_good s L srt" and "srt \<Longrightarrow> prio_fixed s s'"
  shows "\<exists>L'. lists_good s' L' srt"
  using assms
proof (induction rule: sched_step.induct)
  case (register s p t s' r)
  then show ?case using register_good[of s L srt p t] by (auto split: if_splits)
next
  case (schedule psr s s')
  then show ?case using schedule_thread_good[of s L srt psr] by auto
next
  case (preempt psr s s')
  then show ?case using schedule_before_good[of s L srt psr s'] by auto
next
  case (suspend s t psr s' r)
  then show ?case
    using suspend_sleep_good(1)[of s L srt "tid_array s t" psr] registered_known[of "{}" s L srt t] by (auto simp: lists_good_def lists_wf_def)
next
  case (sleep s t psr s' r)
  then show ?case
    using suspend_sleep_good(2)[of s L srt "tid_array s t" psr] registered_known[of "{}" s L srt t] by (auto simp: lists_good_def lists_wf_def)
next
  case (wakeup s t s' r)
  then show ?case
    using wakeup_good[of s L srt "tid_array s t"] registered_known[of "{}" s L srt t] by (auto simp: lists_good_def lists_wf_def)
next
  case (self_suspend s psr s')
  then show ?case using self_good(1)[of s L srt psr] by auto
next
  case (self_sleep s psr s')
  then show ?case using self_good(2)[of s L srt psr] by auto
next
  case (switch s t s' r)
  then show ?case by (intro switch_good)
next
  case (set_priority s a v)
  then show ?case by (intro exI[of _ L] set_priority_good)
next
  case (choose s s' ok)
  then have "g_sched_preempt_cnt (scpu s) \<noteq> - 1" using preempt_room(1)[of "scpu s"] by (simp add: lists_good_def)
  then show ?case using choose do_schedule_wf[of s L srt] by (fastforce simp: lists_good_def sched_idle_lock_def)
next
  case (init_before s s')
  then show ?case
    by (intro exI[of _ L], intro sched_good_cong[OF init_before.prems(1)])
       (auto simp: thread_init_before_def set_thr_def split: bind_splits)
next
  case (outside s th c hp tm j at)
  then show ?case by (intro exI[of _ L], intro lists_good_known[OF outside.prems(1)]) (auto simp: prio_fixed_def known_def)
qed (blast intro: set_state_good set_name_good signal_good locked_read_good)+

lemma sched_steps_good: "sched_step\<^sup>*\<^sup>* s s' \<Longrightarrow> lists_good s L False \<Longrightarrow> \<exists>L'. lists_good s' L' False"
  by (induction arbitrary: L rule: converse_rtranclp_induct) (blast dest: sched_step_good)+

lemma fixed_steps_good:
  "(\<lambda>a b. sched_step a b \<and> prio_fixed a b)\<^sup>*\<^sup>* s s' \<Longrightarrow> lists_good s L srt \<Longrightarrow> \<exists>L'. lists_good s' L' srt"
  by (induction arbitrary: L rule: converse_rtranclp_induct) (blast dest: sched_step_good)+

subsection \<open>Yielding\<close>

lemma schedule_thread_moves:
  assumes good: "lists_good s L srt" and w: "sprt_work s \<noteq> 0" and dst: "dst = next_status (thr s (sprt_work s))" "dst \<in> statuses"
    and idle: "tid (thr s (sprt_work s)) = THREAD_TID_IDLE \<longrightarrow> dst = NR_THREAD_READY" and L: "L NR_THREAD_READY = q # rs"
  shows "\<exists>s'. schedule_thread psr s = Some s' \<and>
           lists_good s' (fst (sched_move (prio s) (sprt_work s) NR_THREAD_RUNNING dst (L, sprt_work s))) srt \<and> sprt_work s' = q \<and> q \<noteq> 0 \<and>
           prio s' = prio s \<and> known s' = known s \<and> tlinks s' = tlinks s \<and> timers s' = timers s \<and> jiffies s' = jiffies s \<and>
           to_status (thr s' q) = NR_THREAD_NONE \<and> cpsr (scpu s') = psr q \<and>
           expires (thr s' q) = jiffies s + msecs_to_jiffies (thread_get_sched_msecs (attrs s (sprt_attr (thr s q))))"
proof -
  let ?c = "mrt_disable_cpu_irq (mrt_preempt_disable (scpu s))"
  let ?s0 = "s\<lparr>scpu := ?c\<rparr>" and ?L = "fst (sched_move (prio s) (sprt_work s) NR_THREAD_RUNNING dst (L, sprt_work s))"
  have c: "g_sched_preempt_cnt ?c = g_sched_preempt_cnt (scpu s) + 1"
    by (simp add: mrt_disable_cpu_irq_def mrt_preempt_disable_def COUNT_INC_def)
  have room: "g_sched_preempt_cnt ?c \<noteq> - 1" using preempt_room(2)[of "scpu s"] good c by (simp add: lists_good_def)
  have wf: "lists_wf ?s0 L srt" by (rule sched_wf_cong[of s]) (use good in \<open>simp_all add: lists_good_def\<close>)
  obtain s1 where s1: "do_schedule ?s0 = Some (schedule_context (sprt_work s) s1, True)" "lists_wf s1 ?L srt"
    "sprt_work s1 = q" "to_status (thr s1 q) = NR_THREAD_NONE" "scpu s1 = ?c" "sched_frame ?s0 s1"
    using do_schedule_yields[OF wf _ _ _ dst(2) L] w dst(1) idle room by auto
  have q0: "q \<noteq> 0" using L good sched_relD(7)[of "{}" s L srt q]
    by (auto simp: lists_good_def lists_wf_def known_def queued_def statuses_def)
  obtain s2 where s2: "context_switch (psr q) (schedule_context (sprt_work s) s1) = Some s2" "lists_wf s2 ?L srt" "sprt_work s2 = q"
    "sched_lock s2 = sched_lock s1" "g_sched_preempt_cnt (scpu s2) = g_sched_preempt_cnt ?c - 1" "cpsr (scpu s2) = psr q"
    "prio s2 = prio s1" "known s2 = known s1" "tlinks s2 = tlinks s1" "timers s2 = timers s1" "jiffies s2 = jiffies s1"
    "to_status (thr s2 q) = NR_THREAD_NONE"
    "expires (thr s2 q) = jiffies s1 + msecs_to_jiffies (thread_get_sched_msecs (attrs s1 (sprt_attr (thr s1 q))))"
    using context_switch_wf[OF schedule_context_wf[OF s1(2), of "sprt_work s"], of "psr q" q] s1(3-5) q0 by auto
  have "schedule_thread psr s = Some s2" using s1(1,3) s2(1) by (simp add: schedule_thread_def Let_def)
  moreover have fr: "jiffies s1 = jiffies s" "attrs s1 = attrs s" "sprt_attr (thr s1 p) = sprt_attr (thr s p)"
    "tid (thr s1 p) = tid (thr s p)" "tid_array s1 = tid_array s" "sched_lock s1 = sched_lock s" "tlinks s1 = tlinks s"
    "timers s1 = timers s" for p
    using s1(6) sched_frame_thr[OF s1(6)] by (simp_all add: sched_frame_def)
  moreover have "prio s1 = prio s" "known s1 = known s" using fr by (simp_all add: prio_def known_def fun_eq_iff)
  ultimately show ?thesis using s2 good c q0 by (intro exI[of _ s2]) (simp add: lists_good_def sched_idle_lock_def)
qed

lemma schedule_thread_yields:
  assumes good: "lists_good s L srt" and w: "sprt_work s \<noteq> 0" and to: "to_status (thr s (sprt_work s)) = NR_THREAD_NONE"
    and L: "L NR_THREAD_READY = q # rs"
  shows "\<exists>s'. schedule_thread psr s = Some s' \<and>
           lists_good s' (L(NR_THREAD_READY := prio_insert (prio s) (sprt_work s) rs)) srt \<and> sprt_work s' = q \<and>
           prio s' = prio s \<and> to_status (thr s' q) = NR_THREAD_NONE \<and> cpsr (scpu s') = psr q \<and>
           expires (thr s' q) = jiffies s + msecs_to_jiffies (thread_get_sched_msecs (attrs s (sprt_attr (thr s q))))"
proof -
  have "fst (sched_move (prio s) (sprt_work s) NR_THREAD_RUNNING NR_THREAD_READY (L, sprt_work s)) =
      L(NR_THREAD_READY := prio_insert (prio s) (sprt_work s) rs)"
    using L by (simp add: sched_move_def Let_def)
  then show ?thesis using schedule_thread_moves[OF good w _ _ _ L, of NR_THREAD_READY psr] to by (auto simp: next_status_def)
qed

lemma self_suspend_moves:
  assumes good: "lists_good s L srt" and w: "sprt_work s \<noteq> 0" and idle: "tid (thr s (sprt_work s)) \<noteq> THREAD_TID_IDLE"
    and L: "L NR_THREAD_READY = q # rs"
  shows "\<exists>s'. schedule_self_suspend psr s = Some s' \<and> sprt_work s' = q \<and> q \<noteq> 0 \<and>
           lists_good s' (L(NR_THREAD_READY := rs, NR_THREAD_SUSPEND := prio_insert (prio s) (sprt_work s) (L NR_THREAD_SUSPEND))) srt \<and>
           known s' = known s \<and> tlinks s' = tlinks s \<and> timers s' = timers s \<and> jiffies s' = jiffies s"
proof -
  obtain c l where lock: "locked_as s c l" using good_lock[OF good] by blast
  let ?s1 = "s\<lparr>scpu := c, sched_lock := l\<rparr>" and ?w = "sprt_work s"
  let ?s2 = "set_thr ?w (\<lambda>t. t\<lparr>to_status := 3\<rparr>) ?s1"
  let ?s3 = "?s2\<lparr>scpu := scpu s, sched_lock := (sched_lock s)\<lparr>flag := 0\<rparr>\<rparr>"
  have k: "known s ?w" using good w sched_relD(9)[of "{}" s L srt] by (simp add: lists_good_def lists_wf_def)
  have set: "SET_THREAD_STATUS (tid (thr s ?w)) 3 ?s1 = Some ?s2" using SET_known[of ?s1 ?w 3] k by simp
  have "lists_wf ?s2 L srt"
    by (rule set_to_status_wf, rule sched_wf_cong[of s]) (use good in \<open>simp_all add: lists_good_def\<close>)
  then have good3: "lists_good ?s3 L srt" by (rule good_unlocked[OF good])
  have un: "unlock_sched ?s2 = ?s3" using lock by (simp add: locked_as_def)
  have v: "sprt_work ?s3 = ?w" "to_status (thr ?s3 ?w) = 3" "tid (thr ?s3 ?w) = tid (thr s ?w)" "prio ?s3 = prio s" "known ?s3 = known s"
    "tlinks ?s3 = tlinks s" "timers ?s3 = timers s" "jiffies ?s3 = jiffies s"
    by (simp_all add: prio_def known_def fun_eq_iff) (simp_all add: set_thr_def)
  have mv: "fst (sched_move (prio s) ?w NR_THREAD_RUNNING 3 (L, ?w)) = L(2 := rs, 3 := prio_insert (prio s) ?w (L 3))"
    using L by (simp add: sched_move_def Let_def)
  have "schedule_self_suspend psr s = schedule_thread psr ?s3"
    using lock set un w by (simp add: schedule_self_suspend_def locked_as_def deref_def)
  then show ?thesis
    using schedule_thread_moves[OF good3 _ _ _ _ L, of 3 psr] w idle mv unfolding v by (auto simp: next_status_def v(2))
qed

fun schedule_times :: "(u32 \<Rightarrow> u32) \<Rightarrow> nat \<Rightarrow> sched \<Rightarrow> sched option" where
  "schedule_times psr 0 s = Some s"
| "schedule_times psr (Suc n) s = do { s \<leftarrow> schedule_thread psr s; schedule_times psr n s }"

lemma prio_insert_last: "(\<And>y. y \<in> set xs \<Longrightarrow> k y = k x) \<Longrightarrow> prio_insert k x xs = xs @ [x]"
  by (induction xs) auto

lemma round_robin_turn:
  assumes "lists_good s L srt" and "sprt_work s \<noteq> 0" and "to_status (thr s (sprt_work s)) = NR_THREAD_NONE"
    and "\<And>p. p \<in> set (L NR_THREAD_READY) \<Longrightarrow> prio s p = prio s (sprt_work s)" and "k < length (L NR_THREAD_READY)"
  shows "\<exists>s'. schedule_times psr (Suc k) s = Some s' \<and> sprt_work s' = L NR_THREAD_READY ! k"
  using assms
proof (induction k arbitrary: s L)
  case 0
  then obtain q rs where L: "L NR_THREAD_READY = q # rs" by (cases "L NR_THREAD_READY") auto
  from schedule_thread_yields[OF 0(1-3) L, of psr] obtain s' where "schedule_thread psr s = Some s'" "sprt_work s' = q" by blast
  then show ?case using L by simp
next
  case (Suc k)
  then obtain q rs where L: "L NR_THREAD_READY = q # rs" by (cases "L NR_THREAD_READY") auto
  have same: "prio s p = prio s (sprt_work s)" if "p \<in> set (q # rs)" for p using Suc.prems(4) that L by simp
  have ins: "prio_insert (prio s) (sprt_work s) rs = rs @ [sprt_work s]" using same by (intro prio_insert_last) simp
  obtain s' where s': "schedule_thread psr s = Some s'" "lists_good s' (L(NR_THREAD_READY := rs @ [sprt_work s])) srt"
    "sprt_work s' = q" "prio s' = prio s" "to_status (thr s' q) = NR_THREAD_NONE"
    using schedule_thread_yields[OF Suc.prems(1-3) L, of psr] ins by auto
  have "q \<noteq> 0" using L Suc.prems(1) sched_relD(7)[of "{}" s L srt q]
    by (auto simp: lists_good_def lists_wf_def known_def queued_def statuses_def)
  moreover have "prio s' p = prio s' (sprt_work s')" if "p \<in> set (rs @ [sprt_work s])" for p
    using that same s'(3,4) by auto
  moreover have "k < length rs" using Suc.prems(5) L by simp
  ultimately obtain s'' where "schedule_times psr (Suc k) s' = Some s''" "sprt_work s'' = (rs @ [sprt_work s]) ! k"
    using Suc.IH[OF s'(2)] s'(3,5) by auto
  then show ?case using s'(1) L \<open>k < length rs\<close> by (auto simp: nth_append)
qed

subsection \<open>Properties\<close>

text \<open>C27: \<^verbatim>\<open>schedule_thread_switch\<close> on every target a thread of the table can be given. An allowed transition
  moves the thread as the lists of threads prescribe (\<open>sched_move\<close>): the running thread gives way to the first ready
  one, a thread that is to run sends the running one back, and a thread enters its new list behind the last one
  whose priority is at least as high, so that sorted lists stay sorted. A refused one returns an error and moves
  nothing. Every other target (none, or running for a suspended or sleeping thread) returns an error after the
  thread was taken out (\<open>sched_drop\<close>), and leaves it in no list.\<close>

theorem switch_refines_lists:
  assumes "lists_wf s L srt" and "registered s t" and "sprt_work s \<noteq> 0" and "g_sched_preempt_cnt (scpu s) \<noteq> - 1"
    and "p = tid_array s t" and "src = status (thr s p)" and "dst = to_status (thr s p)"
  shows "\<exists>s' r. schedule_thread_switch t s = Some (s', r) \<and> sched_frame s s' \<and> scpu s' = scpu s \<and>
           (if switch_allowed t src dst L then
              r = ER_NORMAL \<and>
              (let (L', w') = sched_move (prio s) p src dst (L, sprt_work s) in lists_wf s' L' srt \<and> sprt_work s' = w')
            else if switch_refused t src dst L then
              r = - ER_UNVALID \<and> lists_wf s' L srt \<and> sprt_work s' = sprt_work s
            else
              r = - ER_UNVALID \<and> status (thr s' p) = src \<and>
              (let (L', w') = sched_drop p src (L, sprt_work s)
               in lists_rel {p} s' L' srt \<and> stat_ok s' L' \<and> sprt_work s' = w'))"
proof -
  have k: "known s p" "t = tid (thr s p)"
    using registered_known[of "{}" s L srt t] assms(1,2,5) by (auto simp: lists_wf_def)
  show ?thesis
  proof (cases "switch_allowed t src dst L")
    case True
    then show ?thesis using switch_moves[OF assms(1) k(1) assms(3,4)] unfolding k(2) assms(6,7) by auto
  next
    case no: False
    show ?thesis
    proof (cases "switch_refused t src dst L")
      case True
      then show ?thesis using no switch_refuses[OF assms(1) k(1) assms(4)] unfolding k(2) assms(6,7) by auto
    next
      case False
      then show ?thesis using no switch_drops[OF assms(1) k(1) assms(3,4)] unfolding k(2) assms(6,7) by auto
    qed
  qed
qed

text \<open>C28: Whatever operations follow one another from the start of the kernel, changes of priorities and direct
  calls of \<^verbatim>\<open>schedule_thread_switch\<close> with a target that does not drop the thread (\<open>switch_safe\<close>) included, every
  registered thread is the running one or in exactly one of the three lists, the lists are intact, the status
  fields agree with them, and the scheduler's lock is free again. If no step changed the priority of a
  registered thread, the lists are also sorted by priority.\<close>

theorem scheduler_invariant:
  assumes "sched_start s0" and "sched_step\<^sup>*\<^sup>* s0 s"
  shows "\<exists>L. lists_good s L False \<and>
           (\<forall>t. registered s t \<longrightarrow>
              (tid_array s t = sprt_work s) \<noteq> (\<exists>!st. st \<in> statuses \<and> tid_array s t \<in> set (L st))) \<and>
           ((\<lambda>a b. sched_step a b \<and> prio_fixed a b)\<^sup>*\<^sup>* s0 s \<longrightarrow> (\<forall>st\<in>statuses. sorted (map (prio s) (L st))))"
proof -
  let ?fixed = "(\<lambda>a b. sched_step a b \<and> prio_fixed a b)\<^sup>*\<^sup>* s0 s"
  obtain L where L: "lists_good s L ?fixed"
    using sched_steps_good[OF assms(2) sched_start_good[OF assms(1)]] fixed_steps_good[OF _ sched_start_good[OF assms(1)], of s True]
    by (cases ?fixed) auto
  then have rel: "lists_rel {} s L ?fixed" by (simp add: lists_good_def lists_wf_def)
  have "(tid_array s t = sprt_work s) \<noteq> (\<exists>!st. st \<in> statuses \<and> tid_array s t \<in> set (L st))" if r: "registered s t" for t
  proof (cases "tid_array s t = sprt_work s")
    case True
    then show ?thesis using sched_relD(4)[OF rel] by (auto simp: queued_def)
  next
    case False
    then obtain st where "st \<in> statuses" "tid_array s t \<in> set (L st)"
      using sched_relD(11)[OF rel, of t] r by (auto simp: registered_def queued_def)
    then show ?thesis using False sched_relD(3)[OF rel] by blast
  qed
  then show ?thesis using lists_good_weaken[OF L] sched_relD(2)[OF rel] by blast
qed

text \<open>C29: When the running thread calls \<^verbatim>\<open>schedule_thread\<close> without asking for another status, the first
  ready thread runs with a fresh time slice; no ready thread has a higher priority than it. The
  thread that ran goes to the ready list behind every thread of its own priority.\<close>

theorem schedule_picks_highest:
  assumes "sched_good s L" and "sprt_work s \<noteq> 0" and "to_status (thr s (sprt_work s)) = NR_THREAD_NONE"
    and "L NR_THREAD_READY = q # rs"
  shows "\<exists>s' ready. schedule_thread psr s = Some s' \<and> sprt_work s' = q \<and> (\<forall>p. p \<in> set rs \<longrightarrow> prio s q \<le> prio s p) \<and>
           expires (thr s' q) = jiffies s + msecs_to_jiffies (thread_get_sched_msecs (attrs s (sprt_attr (thr s q)))) \<and>
           sched_good s' (L(NR_THREAD_READY := ready)) \<and>
           (\<forall>v. filter (\<lambda>p. prio s p = v) ready =
                 filter (\<lambda>p. prio s p = v) rs @ (if prio s (sprt_work s) = v then [sprt_work s] else []))"
proof -
  have "sched_rel {} s L" using assms(1) by (simp add: lists_good_def lists_wf_def)
  then have "sorted (map (prio s) (q # rs))" using sched_relD(2)[of "{}" s L True 2] assms(4) by simp
  then have "p \<in> set rs \<Longrightarrow> prio s q \<le> prio s p" for p by auto
  then show ?thesis using schedule_thread_yields[OF assms, of psr] prio_insert_fifo[of "prio s"] by blast
qed

text \<open>C30: Round robin among equals: while no thread asks for another status, the ready thread at
  position \<open>k\<close> is running after \<open>k + 1\<close> calls of \<^verbatim>\<open>schedule_thread\<close>, if it and all threads before and
  behind it have the priority of the running one.\<close>

theorem round_robin_progress:
  assumes "sched_good s L" and "sprt_work s \<noteq> 0" and "to_status (thr s (sprt_work s)) = NR_THREAD_NONE"
    and "\<And>p. p \<in> set (L NR_THREAD_READY) \<Longrightarrow> prio s p = prio s (sprt_work s)" and "k < length (L NR_THREAD_READY)"
  shows "\<exists>s'. schedule_times psr (Suc k) s = Some s' \<and> sprt_work s' = L NR_THREAD_READY ! k"
  using assms by (rule round_robin_turn)


text \<open>C32: A priority that is raised while the thread waits in the ready list does not bring it forward: the next
  call of \<^verbatim>\<open>schedule_thread\<close> still runs the thread at the front of the list, although the other one now has the
  higher priority, and the list is no longer sorted.\<close>

theorem priority_change_keeps_place:
  assumes "sched_good s L" and "sprt_work s \<noteq> 0" and "to_status (thr s (sprt_work s)) = NR_THREAD_NONE"
    and "L NR_THREAD_READY = q # rs" and "p \<in> set rs" and "a = sprt_attr (thr s p)" and "sprt_attr (thr s q) \<noteq> a" and "v < prio s q"
  shows "\<exists>s'. schedule_thread psr (set_priority_at a v s) = Some s' \<and> sprt_work s' = q \<and>
           prio (set_priority_at a v s) p < prio (set_priority_at a v s) q \<and>
           lists_good (set_priority_at a v s) L False \<and> \<not> sorted (map (prio (set_priority_at a v s)) (L NR_THREAD_READY))"
proof -
  let ?s = "set_priority_at a v s"
  have good: "lists_good ?s L False" using set_priority_good[OF lists_good_weaken[OF assms(1)]] by simp
  have pr: "prio ?s p = v" "prio ?s q = prio s q"
    using assms(6,7) by (simp_all add: prio_def set_priority_at_def thread_set_priority_def thread_get_priority_def)
  then have lt: "prio ?s p < prio ?s q" using assms(8) by simp
  have "sprt_work ?s = sprt_work s" "thr ?s = thr s" by (simp_all add: set_priority_at_def)
  then obtain s' where "schedule_thread psr ?s = Some s'" "sprt_work s' = q"
    using schedule_thread_yields[OF good _ _ assms(4), of psr] assms(2,3) by auto
  moreover have "\<not> sorted (map (prio ?s) (L NR_THREAD_READY))"
    using lt assms(4,5) by (auto simp: not_le)
  ultimately show ?thesis using good lt by blast
qed

subsection \<open>Witnesses\<close>

definition demo_thread :: "u32 \<Rightarrow> u32 \<Rightarrow> u32 \<Rightarrow> thread" where
  "demo_thread t st to = \<lparr>tname = replicate 32 0, tid = t, status = st, to_status = to, start_routine = 0, sprt_attr = 0x10,
     ptr_args = 0, expires = 0, tflags = 0, tlock = \<lparr>sgrt_atc = \<lparr>counter = 0\<rparr>, flag = 0\<rparr>\<rparr>"

definition demo_attr :: thread_attr where
  "demo_attr = \<lparr>detachstate = 0, schedpolicy = 1, sched_priority = 80, sched_curpriority = 80,
     init_budget = msecs_to_time_spec 40, inheritsched = 0, ptr_stack_start = 0x8000, stack_addr = 0x8600, stacksize = 2056\<rparr>"

text \<open>Thread 1 runs, threads 2 and 3 are ready, thread 4 is suspended; \<open>a\<close> and \<open>b\<close> are what 2 and 4 were asked for.\<close>

definition demo_sched :: "u32 \<Rightarrow> u32 \<Rightarrow> sched" where
  "demo_sched a b = \<lparr>tlinks = (\<lambda>l. \<lparr>sprt_prev = l, sprt_next = l\<rparr>), timers = (\<lambda>_. undefined), jiffies = 7,
     thr = (\<lambda>_. demo_thread 0 0 0)(0x100 := demo_thread 1 1 0, 0x200 := demo_thread 2 2 a, 0x300 := demo_thread 3 2 0,
       0x400 := demo_thread 4 3 b),
     attrs = (\<lambda>_. demo_attr),
     slinks = (\<lambda>l. \<lparr>sprt_prev = l, sprt_next = l\<rparr>)(
       ReadyHead := \<lparr>sprt_prev = ThreadLink 0x300, sprt_next = ThreadLink 0x200\<rparr>,
       ThreadLink 0x200 := \<lparr>sprt_prev = ReadyHead, sprt_next = ThreadLink 0x300\<rparr>,
       ThreadLink 0x300 := \<lparr>sprt_prev = ThreadLink 0x200, sprt_next = ReadyHead\<rparr>,
       SuspendHead := \<lparr>sprt_prev = ThreadLink 0x400, sprt_next = ThreadLink 0x400\<rparr>,
       ThreadLink 0x400 := \<lparr>sprt_prev = SuspendHead, sprt_next = SuspendHead\<rparr>),
     tid_array = (\<lambda>_. 0)(1 := 0x100, 2 := 0x200, 3 := 0x300, 4 := 0x400),
     sprt_work = 0x100, sched_cnt = 0, cnt_out = 0, sched_lock = \<lparr>sgrt_atc = \<lparr>counter = 0\<rparr>, flag = 0\<rparr>, schedule_ref = 1,
     sgrt_context = \<lparr>entry = 0, args = 0, next_sp = 0, prev_sp = 0\<rparr>, scpu = \<lparr>g_sched_preempt_cnt = 0, cpsr = 0x13\<rparr>\<rparr>"

definition demo_lists :: "u32 \<Rightarrow> u32 list" where
  "demo_lists = (\<lambda>_. [])(2 := [0x200, 0x300], 3 := [0x400])"

lemma demo_good: "sched_good (demo_sched a b) demo_lists"
proof -
  have q: "queued demo_lists = {0x200, 0x300, 0x400}" by (auto simp: queued_def statuses_def demo_lists_def)
  have "prio (demo_sched a b) = (\<lambda>_. 80)" by (auto simp: prio_def demo_sched_def thread_get_priority_def demo_attr_def)
  then have "sched_rel {} (demo_sched a b) demo_lists"
    unfolding lists_rel_def q
    by (simp add: statuses_def demo_lists_def known_def ring_def) (simp add: demo_sched_def demo_thread_def)
  moreover have "stat_ok (demo_sched a b) demo_lists"
    by (simp add: stat_ok_def statuses_def demo_lists_def) (simp add: demo_sched_def demo_thread_def)
  ultimately show ?thesis
    by (simp add: lists_good_def lists_wf_def sched_idle_lock_def spin_is_locked_def ATOMIC_READ_def) (simp add: demo_sched_def)
qed

lemma demo_sel [simp]:
  "sprt_work (demo_sched a b) = 0x100" "tid_array (demo_sched a b) 2 = 0x200" "tid_array (demo_sched a b) 4 = 0x400"
  "g_sched_preempt_cnt (scpu (demo_sched a b)) = 0" "thr (demo_sched a b) 0x200 = demo_thread 2 2 a"
  "thr (demo_sched a b) 0x400 = demo_thread 4 3 b" "thr (demo_sched a b) 0x100 = demo_thread 1 1 0"
  "prio (demo_sched a b) p = 80" "registered (demo_sched a b) 2" "registered (demo_sched a b) 4"
  by (simp_all add: demo_sched_def registered_def prio_def thread_get_priority_def demo_attr_def)

lemma demo_thread_sel [simp]:
  "status (demo_thread t st to) = st" "to_status (demo_thread t st to) = to" "tid (demo_thread t st to) = t"
  by (simp_all add: demo_thread_def)

lemma demo_wf: "sched_wf (demo_sched a b) demo_lists"
  using demo_good[of a b] by (simp add: lists_good_def)

text \<open>Thread 2 is to run: thread 1 goes behind thread 3. Thread 4 is asked for a status that does not exist. A
  ready thread without a target is dropped.\<close>

theorem switch_refines_lists_witness:
  "(\<exists>s'. schedule_thread_switch 2 (demo_sched 1 9) = Some (s', ER_NORMAL) \<and>
      sched_wf s' (demo_lists(2 := [0x300, 0x100])) \<and> sprt_work s' = 0x200) \<and>
   (\<exists>s'. schedule_thread_switch 4 (demo_sched 1 9) = Some (s', - ER_UNVALID) \<and> sched_wf s' demo_lists \<and> sprt_work s' = 0x100) \<and>
   (\<exists>s'. schedule_thread_switch 2 (demo_sched 0 9) = Some (s', - ER_UNVALID) \<and>
      sched_rel {0x200} s' (demo_lists(2 := [0x300])) \<and> sprt_work s' = 0x100)"
  using switch_refines_lists[OF demo_wf, of 1 9 2, OF _ _ _ refl refl refl]
    switch_refines_lists[OF demo_wf, of 1 9 4, OF _ _ _ refl refl refl]
    switch_refines_lists[OF demo_wf, of 0 9 2, OF _ _ _ refl refl refl]
  by (auto simp: switch_allowed_def switch_refused_def sched_move_def sched_drop_def demo_lists_def fun_upd_twist word_le_nat_alt)

definition demo_boot :: sched where
  "demo_boot = (demo_sched 0 0)\<lparr>thr := (\<lambda>_. demo_thread 0 0 0)(0x100 := demo_thread 1 0 0), tid_array := (\<lambda>_. 0), sprt_work := 0,
     slinks := (\<lambda>l. \<lparr>sprt_prev = l, sprt_next = l\<rparr>), schedule_ref := 0\<rparr>"

lemma demo_boot_start: "sched_start demo_boot"
  by (simp add: sched_start_def demo_boot_def demo_sched_def sched_idle_lock_def spin_is_locked_def ATOMIC_READ_def
      mrt_list_head_empty_def)

text \<open>A thread is registered, and then its priority is changed.\<close>

theorem scheduler_invariant_witness:
  "\<exists>s L. sched_step\<^sup>*\<^sup>* demo_boot s \<and> registered s 1 \<and> lists_good s L False \<and> 0x100 \<in> set (L 2) \<and> prio s 0x100 = 7"
proof -
  have fresh: "fresh_thread demo_boot 0x100 1"
    by (simp add: fresh_thread_def demo_boot_def demo_sched_def demo_thread_def)
  have "tid_array demo_boot 1 = 0" "stack_addr (attrs demo_boot (sprt_attr (thr demo_boot 0x100))) \<noteq> 0"
    by (simp_all add: demo_boot_def demo_sched_def demo_attr_def)
  then obtain s1 where s1: "register_new_thread 0x100 1 demo_boot = Some (s1, ER_NORMAL)" "sprt_work s1 = 0" "tid_array s1 1 = 0x100"
    "lists_good s1 ((\<lambda>_. [])(2 := [0x100])) False"
    using register_good[OF sched_start_good[OF demo_boot_start] fresh, of False] by (auto simp: demo_boot_def)
  define s where "s = set_priority_at (sprt_attr (thr s1 0x100)) 7 s1"
  have steps: "sched_step\<^sup>*\<^sup>* demo_boot s"
    unfolding s_def using sched_step.register[OF fresh s1(1)] sched_step.set_priority by (meson converse_rtranclp_into_rtranclp r_into_rtranclp)
  have s: "slinks s = slinks s1" "sprt_work s = 0" "tid_array s 1 = 0x100" "prio s 0x100 = 7"
    using s1 by (simp_all add: s_def set_priority_at_def prio_def thread_set_priority_def thread_get_priority_def)
  obtain L where L: "lists_good s L False"
    "\<forall>t. registered s t \<longrightarrow> (tid_array s t = sprt_work s) \<noteq> (\<exists>!st. st \<in> statuses \<and> tid_array s t \<in> set (L st))"
    using scheduler_invariant[OF demo_boot_start steps] by blast
  have "ring (slinks s) ReadyHead (map ThreadLink (L 2))" "ring (slinks s) ReadyHead (map ThreadLink [0x100])"
    using L(1) s1(4) s(1) sched_relD(1)[of "{}" s L False 2] sched_relD(1)[of "{}" s1 "(\<lambda>_. [])(2 := [0x100])" False 2]
    by (simp_all add: lists_good_def lists_wf_def)
  then have "map ThreadLink (L 2) = map ThreadLink [0x100]" by (rule ring_unique)
  then have "0x100 \<in> set (L 2)" by (cases "L 2") auto
  then show ?thesis using steps L(1) s by (auto simp: registered_def)
qed

theorem schedule_picks_highest_witness:
  "\<exists>s'. schedule_thread (\<lambda>_. 0x13) (demo_sched 0 0) = Some s' \<and> sprt_work s' = 0x200 \<and> expires (thr s' 0x200) = 12"
proof -
  have "thread_get_sched_msecs demo_attr = 40" by (simp add: thread_get_sched_msecs_def demo_attr_def time_spec_msecs)
  then have "jiffies (demo_sched 0 0) + msecs_to_jiffies (thread_get_sched_msecs
      (attrs (demo_sched 0 0) (sprt_attr (thr (demo_sched 0 0) 0x200)))) = 12"
    by (simp add: demo_sched_def msecs_to_jiffies_def TICK_HZ_def)
  then show ?thesis
    using schedule_picks_highest[OF demo_good, of 0 0 "0x200" "[0x300]" "\<lambda>_. 0x13"] by (auto simp: demo_lists_def)
qed

theorem round_robin_progress_witness:
  "\<exists>s'. schedule_times (\<lambda>_. 0x13) (Suc 1) (demo_sched 0 0) = Some s' \<and> sprt_work s' = 0x300"
  using round_robin_progress[OF demo_good, of 0 0 1 "\<lambda>_. 0x13"] by (simp add: demo_lists_def del: schedule_times.simps)


text \<open>The same state with an attribute record of its own for thread 3.\<close>

definition demo_two_attrs :: sched where
  "demo_two_attrs = (demo_sched 0 0)\<lparr>thr := (thr (demo_sched 0 0))(0x300 := (demo_thread 3 2 0)\<lparr>sprt_attr := 0x20\<rparr>)\<rparr>"

lemma demo_two_sel:
  "sprt_work demo_two_attrs = 0x100" "thr demo_two_attrs 0x100 = demo_thread 1 1 0" "sprt_attr (thr demo_two_attrs 0x200) = 0x10"
  "sprt_attr (thr demo_two_attrs 0x300) = 0x20" "prio demo_two_attrs p = 80"
  by (simp_all add: demo_two_attrs_def demo_sched_def demo_thread_def prio_def thread_get_priority_def demo_attr_def)

lemma demo_two_good: "sched_good demo_two_attrs demo_lists"
proof (rule lists_good_known[OF demo_good[of 0 0]])
  show "prio demo_two_attrs p = prio (demo_sched 0 0) p" for p by (simp add: demo_two_sel)
  have "thr (demo_sched 0 0) 0x300 = demo_thread 3 2 0" by (simp add: demo_sched_def)
  then show "tid (thr demo_two_attrs p) = tid (thr (demo_sched 0 0) p) \<and> sprt_attr (thr demo_two_attrs p) \<noteq> 0 \<and>
      status (thr demo_two_attrs p) = status (thr (demo_sched 0 0) p)" if "known (demo_sched 0 0) p" for p
    using that by (cases "p = 0x300") (simp_all add: demo_two_attrs_def known_def)
qed (simp_all add: demo_two_attrs_def)

theorem priority_change_keeps_place_witness:
  "\<exists>s'. schedule_thread (\<lambda>_. 0x13) (set_priority_at 0x20 5 demo_two_attrs) = Some s' \<and> sprt_work s' = 0x200 \<and>
     prio (set_priority_at 0x20 5 demo_two_attrs) 0x300 < prio (set_priority_at 0x20 5 demo_two_attrs) 0x200"
proof -
  have "demo_lists NR_THREAD_READY = 0x200 # [0x300]" by (simp add: demo_lists_def)
  note r = priority_change_keeps_place[OF demo_two_good _ _ this, of "0x300" "0x20" 5 "\<lambda>_. 0x13"]
  show ?thesis using r by (simp add: demo_two_sel) blast
qed

end
