(* ===== verification/Queue.thy ===== *)
theory Queue
  imports Mempool
begin

text \<open>
  The ring queue of \<^verbatim>\<open>common/generic/queue.c\<close>. The array is a function from indices to member
  pointers; an access outside it, a remainder by zero and a member behind a null pointer are
  \<open>None\<close>. The callbacks of a member are called in an order the operations report: a call is the
  pair of the function and its argument, and \<open>chk\<close> gives the answers of the checks.
\<close>

subsection \<open>Queue operations\<close>

definition NR_PQ_DROP :: u32 where "NR_PQ_DROP = 0"
definition NR_PQ_RING :: u32 where "NR_PQ_RING = 1"

record pq_data =
  release :: u32
  dequeue_chk :: u32

record pq_queue =
  pq_type :: u32
  pq_head :: u32
  pq_tail :: u32
  pq_len :: u32
  tot_len :: u32
  sprt_data :: "u32 \<Rightarrow> u32"

type_synonym pq_store = "u32 \<Rightarrow> pq_data"

definition pq_read :: "u32 \<Rightarrow> pq_queue \<Rightarrow> u32 option" where
  "pq_read i q = (if i < tot_len q \<and> sprt_data q i \<noteq> 0 then Some (sprt_data q i) else None)"

definition pq_next :: "u32 \<Rightarrow> pq_queue \<Rightarrow> u32 option" where
  "pq_next i q = (if tot_len q = 0 then None else Some ((i + 1) mod tot_len q))"

definition release_call :: "pq_store \<Rightarrow> u32 \<Rightarrow> (u32 \<times> u32) list" where
  "release_call D d = (if release (D d) \<noteq> 0 then [(release (D d), d)] else [])"

definition pq_queue_create :: "u32 \<Rightarrow> u32 \<Rightarrow> mempool_sys \<Rightarrow> (mempool_sys \<times> (u32 \<times> pq_queue) option) option" where
  "pq_queue_create type data_len m = do {
     (m, p) \<leftarrow> kmalloc (20 + data_len * 8) GFP_KERNEL m;
     Some (m, if \<not> isValid p then None
              else Some (p, \<lparr>pq_type = type, pq_head = 0, pq_tail = 0, pq_len = 0, tot_len = data_len, sprt_data = (\<lambda>_. 0)\<rparr>))
   }"

partial_function (option) pq_drain :: "pq_store \<Rightarrow> pq_queue \<Rightarrow> (u32 \<times> u32) list \<Rightarrow> (u32 \<times> u32) list option" where
  "pq_drain D q calls =
     (if pq_len q = 0 then Some calls
      else do {
        d \<leftarrow> pq_read (pq_tail q) q;
        t \<leftarrow> pq_next (pq_tail q) q;
        pq_drain D (q\<lparr>pq_len := pq_len q - 1, pq_tail := t\<rparr>) (calls @ release_call D d)
      })"

definition pq_queue_destroy ::
  "pq_store \<Rightarrow> u32 \<Rightarrow> pq_queue \<Rightarrow> mempool_sys \<Rightarrow> (mempool_sys \<times> (u32 \<times> u32) list) option" where
  "pq_queue_destroy D p q m = do {
     calls \<leftarrow> (if pq_len q = 0 then Some [] else pq_drain D q []);
     m \<leftarrow> kfree p m;
     Some (m, calls)
   }"

definition pq_put :: "u32 \<Rightarrow> pq_queue \<Rightarrow> pq_queue option" where
  "pq_put d q = (if pq_head q < tot_len q then do {
     h \<leftarrow> pq_next (pq_head q) q;
     Some (q\<lparr>sprt_data := (sprt_data q)(pq_head q := d), pq_head := h\<rparr>)
   } else None)"

definition pq_enqueue :: "pq_store \<Rightarrow> u32 \<Rightarrow> pq_queue \<Rightarrow> (pq_queue \<times> (u32 \<times> u32) list \<times> int) option" where
  "pq_enqueue D d q =
     (if pq_len q < tot_len q then do { q \<leftarrow> pq_put d (q\<lparr>pq_len := pq_len q + 1\<rparr>); Some (q, [], ER_NORMAL) }
      else if pq_type q \<noteq> NR_PQ_RING then Some (q, [], - ER_FULL)
      else do {
        old \<leftarrow> pq_read (pq_tail q) q;
        t \<leftarrow> pq_next (pq_tail q) q;
        q \<leftarrow> pq_put d (q\<lparr>pq_tail := t\<rparr>);
        Some (q, release_call D old, ER_NORMAL)
      })"

definition pq_dequeue :: "pq_queue \<Rightarrow> (pq_queue \<times> u32) option" where
  "pq_dequeue q =
     (if pq_len q = 0 then Some (q, 0)
      else if \<not> pq_tail q < tot_len q then None
      else do {
        let d = sprt_data q (pq_tail q);
        t \<leftarrow> pq_next (pq_tail q) q;
        Some (q\<lparr>pq_tail := t, pq_len := pq_len q - 1\<rparr>, d)
      })"

definition pq_dequeue_with_chk ::
  "(u32 \<Rightarrow> u32 \<Rightarrow> u32 \<Rightarrow> bool) \<Rightarrow> pq_store \<Rightarrow> u32 \<Rightarrow> pq_queue \<Rightarrow> (pq_queue \<times> u32) option" where
  "pq_dequeue_with_chk chk D limit q =
     (if pq_len q = 0 then Some (q, 0)
      else do {
        d \<leftarrow> pq_read (pq_tail q) q;
        if dequeue_chk (D d) \<noteq> 0 \<and> \<not> chk (dequeue_chk (D d)) d limit then Some (q, ERR_PTR (- ER_LACK))
        else do {
          t \<leftarrow> pq_next (pq_tail q) q;
          Some (q\<lparr>pq_tail := t, pq_len := pq_len q - 1\<rparr>, d)
        }
      })"

definition pq_queue_get_size :: "pq_queue \<Rightarrow> int" where
  "pq_queue_get_size q = sint (pq_len q)"

subsection \<open>The members of a queue\<close>

definition pq_index :: "pq_queue \<Rightarrow> nat \<Rightarrow> u32" where
  "pq_index q i = of_nat ((unat (pq_tail q) + i) mod unat (tot_len q))"

definition pq_items :: "pq_queue \<Rightarrow> u32 list" where
  "pq_items q = map (\<lambda>i. sprt_data q (pq_index q i)) [0..<unat (pq_len q)]"

definition pq_wf :: "pq_queue \<Rightarrow> bool" where
  "pq_wf q \<longleftrightarrow> 0 < unat (tot_len q) \<and> unat (tot_len q) < 2 ^ 31 \<and> unat (pq_len q) \<le> unat (tot_len q) \<and>
     unat (pq_tail q) < unat (tot_len q) \<and>
     unat (pq_head q) = (unat (pq_tail q) + unat (pq_len q)) mod unat (tot_len q) \<and> 0 \<notin> set (pq_items q)"

lemma pq_items_length [simp]: "length (pq_items q) = unat (pq_len q)"
  by (simp add: pq_items_def)

lemma unat_pq_index: "pq_wf q \<Longrightarrow> unat (pq_index q i) = (unat (pq_tail q) + i) mod unat (tot_len q)"
  unfolding pq_index_def
  by (rule u32_of_nat) (auto simp: pq_wf_def intro: less_trans[OF mod_less_divisor])

lemma pq_next_unat:
  assumes "pq_wf q" and "unat i < unat (tot_len q)"
  shows "\<exists>j. pq_next i q = Some j \<and> unat j = (unat i + 1) mod unat (tot_len q)"
proof -
  have "unat (i + 1) = unat i + 1" using assms by (intro trans[OF u32_add]) (auto simp: pq_wf_def)
  then show ?thesis using assms by (auto simp: pq_next_def pq_wf_def unat_mod)
qed

lemma pq_index_inj:
  assumes "pq_wf q" and "i < unat (tot_len q)" and "j < unat (tot_len q)" and "pq_index q i = pq_index q j"
  shows "i = j"
proof -
  let ?T = "unat (tot_len q)" and ?t = "unat (pq_tail q)"
  have "(?t + i) mod ?T = (?t + j) mod ?T" using assms(4) unat_pq_index[OF assms(1)] by metis
  then have "i mod ?T = j mod ?T" by (simp add: nat_mod_eq_iff)
  then show ?thesis using assms(2,3) by simp
qed

lemma pq_tail_index: "pq_wf q \<Longrightarrow> pq_index q 0 = pq_tail q"
  by (simp add: u32_eq_iff unat_pq_index pq_wf_def)

lemma pq_head_index: "pq_wf q \<Longrightarrow> pq_index q (unat (pq_len q)) = pq_head q"
  by (simp add: u32_eq_iff unat_pq_index pq_wf_def)

lemma pq_items_Cons:
  assumes wf: "pq_wf q" and len: "pq_len q \<noteq> 0" and t: "unat t = (unat (pq_tail q) + 1) mod unat (tot_len q)"
  shows "pq_items q = sprt_data q (pq_tail q) # pq_items (q\<lparr>pq_tail := t, pq_len := pq_len q - 1\<rparr>)"
proof -
  let ?q = "q\<lparr>pq_tail := t, pq_len := pq_len q - 1\<rparr>"
  have l: "unat (pq_len q) = Suc (unat (pq_len q - 1))" using len unat_gt_0[of "pq_len q"] by (simp add: unat_minus_one)
  have "pq_index ?q i = pq_index q (Suc i)" for i
    by (simp add: pq_index_def t mod_add_left_eq)
  then show ?thesis
    by (simp add: pq_items_def l upt_conv_Cons map_Suc_upt[symmetric] pq_tail_index[OF wf] del: upt_Suc)
qed

lemma pq_wf_tail:
  assumes wf: "pq_wf q" and len: "pq_len q \<noteq> 0" and t: "unat t = (unat (pq_tail q) + 1) mod unat (tot_len q)"
  shows "pq_wf (q\<lparr>pq_tail := t, pq_len := pq_len q - 1\<rparr>)"
proof -
  have l: "unat (pq_len q) = Suc (unat (pq_len q - 1))" using len unat_gt_0[of "pq_len q"] by (simp add: unat_minus_one)
  have "0 \<notin> set (pq_items (q\<lparr>pq_tail := t, pq_len := pq_len q - 1\<rparr>))"
    using wf pq_items_Cons[OF assms] by (simp add: pq_wf_def)
  then show ?thesis using wf l by (simp add: pq_wf_def t mod_add_left_eq)
qed

lemma pq_put_wf:
  assumes wf: "pq_wf q" and room: "unat (pq_len q) < unat (tot_len q)" and d: "d \<noteq> 0"
  shows "\<exists>q'. pq_put d (q\<lparr>pq_len := pq_len q + 1\<rparr>) = Some q' \<and> pq_wf q' \<and> pq_items q' = pq_items q @ [d] \<and>
           tot_len q' = tot_len q \<and> pq_type q' = pq_type q"
proof -
  let ?h = "pq_head q"
  have h: "unat ?h < unat (tot_len q)" using wf by (simp add: pq_wf_def)
  then have hb: "?h < tot_len q" by (simp add: word_less_nat_alt)
  obtain j where j: "pq_next ?h q = Some j" "unat j = (unat ?h + 1) mod unat (tot_len q)"
    using pq_next_unat[OF wf h] by blast
  have l: "unat (pq_len q + 1) = unat (pq_len q) + 1"
    using wf room by (intro trans[OF u32_add]) (auto simp: pq_wf_def)
  define q' where "q' = q\<lparr>pq_len := pq_len q + 1, sprt_data := (sprt_data q)(?h := d), pq_head := j\<rparr>"
  have put: "pq_put d (q\<lparr>pq_len := pq_len q + 1\<rparr>) = Some q'"
    using j(1) hb by (simp add: pq_put_def pq_next_def q'_def split: if_splits)
  have ix: "pq_index q' i = pq_index q i" for i by (simp add: pq_index_def q'_def)
  have "pq_index q i \<noteq> ?h" if "i < unat (pq_len q)" for i
    using pq_index_inj[OF wf, of i "unat (pq_len q)"] that room pq_head_index[OF wf] by fastforce
  then have items: "pq_items q' = pq_items q @ [d]"
    unfolding pq_items_def ix by (simp add: q'_def l pq_head_index[OF wf] cong: map_cong)
  have "pq_wf q'" using wf room l d j(2) items unfolding pq_wf_def items
    by (simp add: q'_def mod_Suc_eq)
  then show ?thesis using put items by (simp add: q'_def)
qed

subsection \<open>The operations on the members\<close>

lemma pq_read_tail:
  assumes "pq_wf q" and "pq_len q \<noteq> 0"
  shows "pq_read (pq_tail q) q = Some (List.hd (pq_items q))" and "pq_tail q < tot_len q"
    and "List.hd (pq_items q) = sprt_data q (pq_tail q)" and "pq_items q \<noteq> []"
proof -
  obtain t :: u32 where t: "unat t = (unat (pq_tail q) + 1) mod unat (tot_len q)"
    using pq_next_unat[OF assms(1), of "pq_tail q"] assms(1) by (auto simp: pq_wf_def)
  note c = pq_items_Cons[OF assms t]
  show b: "pq_tail q < tot_len q" using assms(1) by (simp add: pq_wf_def word_less_nat_alt)
  show h: "List.hd (pq_items q) = sprt_data q (pq_tail q)" and "pq_items q \<noteq> []" using c by simp_all
  have "sprt_data q (pq_tail q) \<in> set (pq_items q)" using c by simp
  then have "sprt_data q (pq_tail q) \<noteq> 0" using assms(1) by (metis pq_wf_def)
  then show "pq_read (pq_tail q) q = Some (List.hd (pq_items q))" using b h by (simp add: pq_read_def)
qed

lemma pq_advance:
  assumes "pq_wf q" and "pq_len q \<noteq> 0"
  obtains t where "pq_next (pq_tail q) q = Some t" and "pq_wf (q\<lparr>pq_tail := t, pq_len := pq_len q - 1\<rparr>)"
    and "pq_items (q\<lparr>pq_tail := t, pq_len := pq_len q - 1\<rparr>) = List.tl (pq_items q)"
proof -
  obtain t where "pq_next (pq_tail q) q = Some t" "unat t = (unat (pq_tail q) + 1) mod unat (tot_len q)"
    using pq_next_unat[OF assms(1), of "pq_tail q"] assms(1) by (auto simp: pq_wf_def)
  then show ?thesis using that[of t] pq_wf_tail[OF assms] pq_items_Cons[OF assms] by simp
qed

lemma pq_dequeue_items:
  assumes "pq_wf q"
  shows "\<exists>q'. pq_dequeue q = Some (q', if pq_items q = [] then 0 else List.hd (pq_items q)) \<and> pq_wf q' \<and>
           pq_items q' = List.tl (pq_items q) \<and> tot_len q' = tot_len q \<and> pq_type q' = pq_type q"
proof (cases "pq_len q = 0")
  case True
  then show ?thesis using assms by (simp add: pq_dequeue_def pq_items_def)
next
  case False
  obtain t where t: "pq_next (pq_tail q) q = Some t" "pq_wf (q\<lparr>pq_tail := t, pq_len := pq_len q - 1\<rparr>)"
    "pq_items (q\<lparr>pq_tail := t, pq_len := pq_len q - 1\<rparr>) = List.tl (pq_items q)"
    using pq_advance[OF assms False] by blast
  then show ?thesis using False pq_read_tail[OF assms False]
    by (intro exI[of _ "q\<lparr>pq_tail := t, pq_len := pq_len q - 1\<rparr>"]) (simp add: pq_dequeue_def)
qed

lemma pq_enqueue_items:
  assumes wf: "pq_wf q" and d: "d \<noteq> 0"
  shows "\<exists>q' calls r. pq_enqueue D d q = Some (q', calls, r) \<and> pq_wf q' \<and> tot_len q' = tot_len q \<and> pq_type q' = pq_type q \<and>
           (if length (pq_items q) < unat (tot_len q) then pq_items q' = pq_items q @ [d] \<and> calls = [] \<and> r = ER_NORMAL
            else if pq_type q = NR_PQ_RING then
              pq_items q' = List.tl (pq_items q) @ [d] \<and> calls = release_call D (List.hd (pq_items q)) \<and> r = ER_NORMAL
            else q' = q \<and> calls = [] \<and> r = - ER_FULL)"
proof (cases "pq_len q < tot_len q")
  case True
  then have room: "unat (pq_len q) < unat (tot_len q)" by (simp add: word_less_nat_alt)
  then show ?thesis using pq_put_wf[OF wf room d] True by (auto simp: pq_enqueue_def)
next
  case full: False
  then have l: "unat (pq_len q) = unat (tot_len q)" using wf by (simp add: pq_wf_def word_less_nat_alt)
  show ?thesis
  proof (cases "pq_type q = NR_PQ_RING")
    case False
    then show ?thesis using full l wf by (simp add: pq_enqueue_def)
  next
    case True
    have len: "pq_len q \<noteq> 0" using l wf by (auto simp: pq_wf_def)
    obtain t where t: "pq_next (pq_tail q) q = Some t" "pq_wf (q\<lparr>pq_tail := t, pq_len := pq_len q - 1\<rparr>)"
      "pq_items (q\<lparr>pq_tail := t, pq_len := pq_len q - 1\<rparr>) = List.tl (pq_items q)"
      using pq_advance[OF wf len] by blast
    let ?q = "q\<lparr>pq_tail := t, pq_len := pq_len q - 1\<rparr>"
    have "unat (pq_len ?q) < unat (tot_len ?q)"
      using l len wf by (simp add: unat_minus_one pq_wf_def)
    then obtain q' where q': "pq_put d (?q\<lparr>pq_len := pq_len ?q + 1\<rparr>) = Some q'" "pq_wf q'" "pq_items q' = pq_items ?q @ [d]"
      "tot_len q' = tot_len q" "pq_type q' = pq_type q"
      using pq_put_wf[OF t(2) _ d] by auto
    have "?q\<lparr>pq_len := pq_len ?q + 1\<rparr> = q\<lparr>pq_tail := t\<rparr>" by simp
    then have "pq_put d (q\<lparr>pq_tail := t\<rparr>) = Some q'" using q'(1) by metis
    then show ?thesis using full True l t q' pq_read_tail(1)[OF wf len] by (auto simp: pq_enqueue_def)
  qed
qed

lemma pq_drain_calls:
  "pq_wf q \<Longrightarrow> pq_drain D q calls = Some (calls @ concat (map (release_call D) (pq_items q)))"
proof (induction "unat (pq_len q)" arbitrary: q calls)
  case 0
  then have "pq_len q = 0" by (simp add: unat_eq_0)
  then show ?case by (simp add: pq_drain.simps pq_items_def)
next
  case (Suc n)
  then have len: "pq_len q \<noteq> 0" by auto
  obtain t where t: "pq_next (pq_tail q) q = Some t" "pq_wf (q\<lparr>pq_tail := t, pq_len := pq_len q - 1\<rparr>)"
    "pq_items (q\<lparr>pq_tail := t, pq_len := pq_len q - 1\<rparr>) = List.tl (pq_items q)"
    using pq_advance[OF Suc.prems len] by blast
  have "n = unat (pq_len q - 1)" using Suc.hyps(2) len by (simp add: unat_minus_one)
  then have ih: "pq_drain D (q\<lparr>pq_tail := t, pq_len := pq_len q - 1\<rparr>) cs =
      Some (cs @ concat (map (release_call D) (List.tl (pq_items q))))" for cs
    using Suc.hyps(1)[of "q\<lparr>pq_tail := t, pq_len := pq_len q - 1\<rparr>" cs] t(2,3) by simp
  have eq: "q\<lparr>pq_len := pq_len q - 1, pq_tail := t\<rparr> = q\<lparr>pq_tail := t, pq_len := pq_len q - 1\<rparr>" by simp
  have "pq_drain D q calls =
      pq_drain D (q\<lparr>pq_tail := t, pq_len := pq_len q - 1\<rparr>) (calls @ release_call D (List.hd (pq_items q)))"
    using len t(1) pq_read_tail(1)[OF Suc.prems len] by (subst pq_drain.simps) (simp add: eq)
  then show ?case using ih pq_read_tail(4)[OF Suc.prems len] by (cases "pq_items q") auto
qed

subsection \<open>The contract of a bounded queue\<close>

text \<open>
  \<open>push\<close> of a member and \<open>pop\<close> on a queue that holds \<open>items\<close>; a full queue loses its oldest member
  if it is a ring and refuses otherwise. In a run of operations \<open>gone\<close> are the members that left
  and \<open>come\<close> those that were taken in, both in order.
\<close>

datatype 'a queue_op = Push 'a | Pop

locale bounded_queue =
  fixes inv :: "'q \<Rightarrow> bool" and items :: "'q \<Rightarrow> 'a list" and cap :: "'q \<Rightarrow> nat" and is_ring :: "'q \<Rightarrow> bool"
    and member :: "'a \<Rightarrow> bool" and push :: "'a \<Rightarrow> 'q \<Rightarrow> 'q option" and pop :: "'q \<Rightarrow> 'q option"
  assumes push_law: "inv q \<Longrightarrow> member d \<Longrightarrow> \<exists>q'. push d q = Some q' \<and> inv q' \<and> cap q' = cap q \<and> is_ring q' = is_ring q \<and>
      items q' = (if length (items q) < cap q then items q @ [d] else if is_ring q then List.tl (items q) @ [d] else items q)"
    and pop_law: "inv q \<Longrightarrow> \<exists>q'. pop q = Some q' \<and> inv q' \<and> cap q' = cap q \<and> is_ring q' = is_ring q \<and> items q' = List.tl (items q)"
    and cap_pos: "inv q \<Longrightarrow> 0 < cap q"
    and cap_bound: "inv q \<Longrightarrow> length (items q) \<le> cap q"
begin

fun run :: "'a queue_op list \<Rightarrow> 'q \<Rightarrow> 'a list \<Rightarrow> 'a list \<Rightarrow> ('q \<times> 'a list \<times> 'a list) option" where
  "run [] q come gone = Some (q, come, gone)"
| "run (Push d # ops) q come gone = do {
     q' \<leftarrow> push d q;
     let full = (length (items q) = cap q);
     run ops q' (come @ (if full \<and> \<not> is_ring q then [] else [d])) (gone @ (if full \<and> is_ring q then take 1 (items q) else []))
   }"
| "run (Pop # ops) q come gone = do { q' \<leftarrow> pop q; run ops q' come (gone @ take 1 (items q)) }"

lemma take1_tl: "take 1 xs @ List.tl xs = xs"
  by (cases xs) auto

lemma push_conserves:
  assumes "inv q" and "member d" and "push d q = Some q'"
  shows "items q @ (if length (items q) = cap q \<and> \<not> is_ring q then [] else [d]) =
         (if length (items q) = cap q \<and> is_ring q then take 1 (items q) else []) @ items q'"
proof -
  have "length (items q) < cap q \<or> length (items q) = cap q" using cap_bound[OF assms(1)] by auto
  moreover have "items q' = (if length (items q) < cap q then items q @ [d] else if is_ring q then List.tl (items q) @ [d] else items q)"
    using push_law[OF assms(1,2)] assms(3) by auto
  moreover have "take 1 (items q) @ List.tl (items q) @ [d] = items q @ [d]" using take1_tl[of "items q"] by (metis append_assoc)
  ultimately show ?thesis by auto
qed

lemma run_conserves:
  assumes "inv q" and "\<And>d. Push d \<in> set ops \<Longrightarrow> member d" and "xs @ come = gone @ items q"
  shows "\<exists>q' come' gone'. run ops q come gone = Some (q', come', gone') \<and> inv q' \<and> xs @ come' = gone' @ items q' \<and>
           cap q' = cap q \<and> is_ring q' = is_ring q"
  using assms
proof (induction ops arbitrary: q come gone)
  case (Cons op ops)
  show ?case
  proof (cases op)
    case (Push d)
    then obtain q' where q': "push d q = Some q'" "inv q'" "cap q' = cap q" "is_ring q' = is_ring q"
      using push_law[OF Cons.prems(1), of d] Cons.prems(2) by auto
    let ?c = "if length (items q) = cap q \<and> \<not> is_ring q then [] else [d]"
    let ?g = "if length (items q) = cap q \<and> is_ring q then take 1 (items q) else []"
    have "items q @ ?c = ?g @ items q'" using push_conserves[OF Cons.prems(1) _ q'(1)] Cons.prems(2) Push by auto
    then have "xs @ come @ ?c = (gone @ ?g) @ items q'" using Cons.prems(3) by (metis append_assoc)
    then show ?thesis using Cons.IH[OF q'(2), of "come @ ?c" "gone @ ?g"] Cons.prems(2) Push q' by (auto simp: Let_def)
  next
    case Pop
    obtain q' where q': "pop q = Some q'" "inv q'" "cap q' = cap q" "is_ring q' = is_ring q" "items q' = List.tl (items q)"
      using pop_law[OF Cons.prems(1)] by auto
    have "xs @ come = (gone @ take 1 (items q)) @ items q'" using Cons.prems(3) q'(5) take1_tl[of "items q"] by simp
    then show ?thesis using Cons.IH[OF q'(2)] Cons.prems(2) Pop q' by auto
  qed
qed auto

end

interpretation pq: bounded_queue pq_wf pq_items "\<lambda>q. unat (tot_len q)" "\<lambda>q. pq_type q = NR_PQ_RING" "\<lambda>d. d \<noteq> 0"
  "\<lambda>d q. map_option fst (pq_enqueue D d q)" "\<lambda>q. map_option fst (pq_dequeue q)" for D
proof
  fix q :: pq_queue assume wf: "pq_wf q"
  show "\<exists>q'. map_option fst (pq_dequeue q) = Some q' \<and> pq_wf q' \<and> unat (tot_len q') = unat (tot_len q) \<and>
      (pq_type q' = NR_PQ_RING) = (pq_type q = NR_PQ_RING) \<and> pq_items q' = List.tl (pq_items q)"
    using pq_dequeue_items[OF wf] by auto
  show "0 < unat (tot_len q)" "length (pq_items q) \<le> unat (tot_len q)" using wf by (simp_all add: pq_wf_def)
  fix d :: u32 assume "d \<noteq> 0"
  then show "\<exists>q'. map_option fst (pq_enqueue D d q) = Some q' \<and> pq_wf q' \<and> unat (tot_len q') = unat (tot_len q) \<and>
      (pq_type q' = NR_PQ_RING) = (pq_type q = NR_PQ_RING) \<and>
      pq_items q' = (if length (pq_items q) < unat (tot_len q) then pq_items q @ [d]
        else if pq_type q = NR_PQ_RING then List.tl (pq_items q) @ [d] else pq_items q)"
    using pq_enqueue_items[OF wf, of d D] by (auto split: if_splits)
qed

subsection \<open>Creation and destruction\<close>

lemma pq_create_wf:
  assumes "sys_wf m" and "kmalloc_adm GFP_KERNEL m (20 + n * 8)" and "0 < unat n" and "unat n < 2 ^ 31"
    and "pq_queue_create type n m = Some (m', Some (p, q))"
  shows "pq_wf q" and "pq_items q = []" and "tot_len q = n" and "pq_type q = type" and "sys_wf m'"
    and "\<exists>k. (unat p, k) \<in> sys_live m'"
proof -
  obtain v where v: "kmalloc (20 + n * 8) GFP_KERNEL m = Some (m', p)" "isValid p"
    "q = \<lparr>pq_type = type, pq_head = 0, pq_tail = 0, pq_len = 0, tot_len = n, sprt_data = (\<lambda>_. 0)\<rparr>"
    using assms(5) by (auto simp: pq_queue_create_def split: bind_splits if_splits)
  show "pq_items q = []" "tot_len q = n" "pq_type q = type" by (simp_all add: v(3) pq_items_def)
  then show "pq_wf q" using assms(3,4) by (simp add: pq_wf_def v(3))
  show "sys_wf m'" "\<exists>k. (unat p, k) \<in> sys_live m'"
    using kheap.alloc_region[OF assms(1,2) v(1)] v(2) by (auto simp: isValid_def)
qed

lemma pq_destroy_releases:
  assumes "pq_wf q" and "sys_wf m" and "(unat p, k) \<in> sys_live m"
  shows "\<exists>m'. pq_queue_destroy D p q m = Some (m', concat (map (release_call D) (pq_items q))) \<and>
           sys_wf m' \<and> sys_live m' = sys_live m - {(unat p, k)}"
proof -
  obtain m' where "kfree p m = Some m'" "sys_wf m'" "sys_live m' = sys_live m - {(unat p, k)}"
    using kfree_live[OF assms(2,3)] by blast
  moreover have "(if pq_len q = 0 then Some [] else pq_drain D q []) = Some (concat (map (release_call D) (pq_items q)))"
    using pq_drain_calls[OF assms(1), of D "[]"] by (simp add: pq_items_def)
  ultimately show ?thesis by (auto simp: pq_queue_destroy_def)
qed

subsection \<open>Properties\<close>

text \<open>A run of operations, judged by what they return: the members taken in and the members that left.\<close>

fun pq_run :: "pq_store \<Rightarrow> u32 queue_op list \<Rightarrow> pq_queue \<Rightarrow> u32 list \<Rightarrow> u32 list \<Rightarrow> (pq_queue \<times> u32 list \<times> u32 list) option" where
  "pq_run D [] q come gone = Some (q, come, gone)"
| "pq_run D (Push d # ops) q come gone = do {
     (q', calls, r) \<leftarrow> pq_enqueue D d q;
     pq_run D ops q' (come @ (if r = ER_NORMAL then [d] else []))
       (gone @ (if r = ER_NORMAL \<and> pq_len q = tot_len q then [sprt_data q (pq_tail q)] else []))
   }"
| "pq_run D (Pop # ops) q come gone = do {
     (q', d) \<leftarrow> pq_dequeue q;
     pq_run D ops q' come (gone @ (if d \<noteq> 0 then [d] else []))
   }"

lemma pq_run_contract:
  "pq_wf q \<Longrightarrow> (\<And>d. Push d \<in> set ops \<Longrightarrow> d \<noteq> 0) \<Longrightarrow> pq_run D ops q come gone = pq.run D ops q come gone"
proof (induction ops arbitrary: q come gone)
  case (Cons op ops)
  have full: "pq_len q = tot_len q \<longleftrightarrow> length (pq_items q) = unat (tot_len q)" by (simp add: u32_eq_iff)
  show ?case
  proof (cases op)
    case (Push d)
    obtain q' calls r where en: "pq_enqueue D d q = Some (q', calls, r)" "pq_wf q'"
      "r = (if length (pq_items q) = unat (tot_len q) \<and> pq_type q \<noteq> NR_PQ_RING then - ER_FULL else ER_NORMAL)"
      using pq_enqueue_items[OF Cons.prems(1), of d D] Cons.prems(2) Push Cons.prems(1)
      by (auto simp: pq_wf_def split: if_splits)
    have "tot_len q \<noteq> 0" using Cons.prems(1) by (auto simp: pq_wf_def)
    then have "pq_len q = tot_len q \<Longrightarrow> take 1 (pq_items q) = [sprt_data q (pq_tail q)]"
      using pq_read_tail(3,4)[OF Cons.prems(1)] by (cases "pq_items q") auto
    then show ?thesis using Push en Cons.IH[OF en(2)] Cons.prems(2) full by (auto simp: Let_def er_code)
  next
    case Pop
    obtain q' where de: "pq_dequeue q = Some (q', if pq_items q = [] then 0 else List.hd (pq_items q))" "pq_wf q'"
      using pq_dequeue_items[OF Cons.prems(1)] by blast
    have "take 1 (pq_items q) = (if pq_items q = [] then [] else [List.hd (pq_items q)])" by (cases "pq_items q") auto
    moreover have "pq_items q \<noteq> [] \<Longrightarrow> List.hd (pq_items q) \<noteq> 0"
      using Cons.prems(1) by (metis pq_wf_def list.set_sel(1))
    ultimately show ?thesis using Pop de Cons.IH[OF de(2)] Cons.prems(2) by auto
  qed
qed simp

text \<open>C33: A \<^verbatim>\<open>pq_queue\<close> is a bounded first-in first-out queue: over any run of \<^verbatim>\<open>pq_enqueue\<close> and
  \<^verbatim>\<open>pq_dequeue\<close> the members it held and those it took in are, in this order, the members that left it
  followed by the members it still holds, and it never holds more than its capacity.\<close>

theorem pq_queue_order:
  assumes "pq_wf q" and "\<And>d. Push d \<in> set ops \<Longrightarrow> d \<noteq> 0"
  shows "\<exists>q' come gone. pq_run D ops q [] [] = Some (q', come, gone) \<and> pq_wf q' \<and>
           pq_items q @ come = gone @ pq_items q' \<and> length (pq_items q') \<le> unat (tot_len q)"
proof -
  obtain q' come gone where "pq.run D ops q [] [] = Some (q', come, gone)" "pq_wf q'"
    "pq_items q @ come = gone @ pq_items q'" "unat (tot_len q') = unat (tot_len q)"
    using pq.run_conserves[where q = q and ops = ops and xs = "pq_items q" and come = "[]" and gone = "[]" and D = D] assms by auto
  then show ?thesis using pq_run_contract[OF assms] pq.cap_bound[of q'] by (simp add: pq_wf_def)
qed

definition demo_pq :: pq_queue where
  "demo_pq = \<lparr>pq_type = NR_PQ_RING, pq_head = 0, pq_tail = 0, pq_len = 0, tot_len = 2, sprt_data = (\<lambda>_. 0)\<rparr>"

text \<open>Three members in a ring of two: the first one goes when the third comes.\<close>

theorem pq_queue_order_witness:
  "\<exists>q' come gone. pq_run (\<lambda>_. \<lparr>release = 0, dequeue_chk = 0\<rparr>) [Push 16, Push 24, Push 32, Pop] demo_pq [] [] = Some (q', come, gone) \<and>
     come = gone @ pq_items q' \<and> gone = [16, 24]"
proof -
  have wf: "pq_wf demo_pq" "pq_items demo_pq = []" by (simp_all add: pq_wf_def pq_items_def demo_pq_def)
  have "\<exists>q'. pq_run (\<lambda>_. \<lparr>release = 0, dequeue_chk = 0\<rparr>) [Push 16, Push 24, Push 32, Pop] demo_pq [] [] = Some (q', [16, 24, 32], [16, 24])"
    by (simp add: demo_pq_def pq_enqueue_def pq_dequeue_def pq_put_def pq_next_def pq_read_def release_call_def NR_PQ_RING_def er_code)
  moreover have "d \<noteq> 0" if "Push d \<in> set [Push 16, Push 24, Push 32, Pop]" for d :: u32 using that by auto
  ultimately show ?thesis
    using pq_queue_order[OF wf(1), of "[Push 16, Push 24, Push 32, Pop]" "\<lambda>_. \<lparr>release = 0, dequeue_chk = 0\<rparr>"] wf(2)
    by (auto simp del: pq_run.simps)
qed

end
