(* ===== verification/Sleep.thy ===== *)
theory Sleep
  imports Sched_Run
begin

text \<open>
  Sleeping for a time, \<^verbatim>\<open>kernel/sleep.c\<close>: the composition of the timer list and the scheduler. A
  thread that sleeps gives up the processor in the middle of \<^verbatim>\<open>schedule_timeout\<close>, so that function
  is modelled as the pieces between its calls of the scheduler; \<open>tm\<close> is the address of the timer
  on the stack of the thread and \<open>wakefn\<close> the address of \<^verbatim>\<open>thread_sleep_timeout\<close>.
\<close>

subsection \<open>Operations\<close>



text \<open>\<^verbatim>\<open>if (!count) schedule_thread();\<close>: there is no return behind it.\<close>

definition timeout_yield :: "(u32 \<Rightarrow> u32) \<Rightarrow> u32 \<Rightarrow> sched \<Rightarrow> sched option" where
  "timeout_yield psr count s = (if count = 0 then schedule_thread psr s else Some s)"

definition timeout_suspend :: "(u32 \<Rightarrow> u32) \<Rightarrow> u32 \<Rightarrow> u32 \<Rightarrow> u32 \<Rightarrow> u32 \<Rightarrow> sched \<Rightarrow> sched option" where
  "timeout_suspend psr wakefn tm count p s = do {
     s \<leftarrow> lock_sched s;
     let s = setup_timer tm wakefn p s;
     let s = mod_timer tm count s;
     schedule_self_suspend psr (unlock_sched s)
   }"

definition timeout_resume :: "u32 \<Rightarrow> sched \<Rightarrow> sched option" where
  "timeout_resume tm s = do { s \<leftarrow> lock_sched s; s \<leftarrow> del_timer tm s; Some (unlock_sched s) }"

text \<open>\<open>schedule_timeout\<close>: what the caller does before it loses the processor; with a count of zero that is the
  yield, and the suspension follows when it runs again.\<close>

definition schedule_timeout :: "(u32 \<Rightarrow> u32) \<Rightarrow> u32 \<Rightarrow> u32 \<Rightarrow> u32 \<Rightarrow> sched \<Rightarrow> sched option" where
  "schedule_timeout psr wakefn tm count s =
     (if count = 0 then timeout_yield psr count s else timeout_suspend psr wakefn tm count (get_current_thread s) s)"

definition schedule_delay :: "(u32 \<Rightarrow> u32) \<Rightarrow> u32 \<Rightarrow> u32 \<Rightarrow> u32 \<Rightarrow> sched \<Rightarrow> sched option" where
  "schedule_delay psr wakefn tm seconds s =
     (let count = jiffies s + secs_to_jiffies seconds
      in if mrt_time_after count (jiffies s) then schedule_timeout psr wakefn tm count s else Some s)"

definition schedule_delay_ms :: "(u32 \<Rightarrow> u32) \<Rightarrow> u32 \<Rightarrow> u32 \<Rightarrow> u32 \<Rightarrow> sched \<Rightarrow> sched option" where
  "schedule_delay_ms psr wakefn tm milseconds s =
     (let count = jiffies s + msecs_to_jiffies milseconds
      in if mrt_time_after count (jiffies s) then schedule_timeout psr wakefn tm count s else Some s)"

definition schedule_delay_us :: "(u32 \<Rightarrow> u32) \<Rightarrow> u32 \<Rightarrow> u32 \<Rightarrow> u32 \<Rightarrow> sched \<Rightarrow> sched option" where
  "schedule_delay_us psr wakefn tm useconds s =
     (let count = jiffies s + usecs_to_jiffies useconds
      in if mrt_time_after count (jiffies s) then schedule_timeout psr wakefn tm count s else Some s)"

subsection \<open>A timer pass over sleeping threads\<close>






subsection \<open>Going to sleep\<close>


lemma timer_ops_sched [simp]:
  "thr (mod_timer tm count (setup_timer tm f d s)) = thr s" "attrs (mod_timer tm count (setup_timer tm f d s)) = attrs s"
  "slinks (mod_timer tm count (setup_timer tm f d s)) = slinks s" "tid_array (mod_timer tm count (setup_timer tm f d s)) = tid_array s"
  "sprt_work (mod_timer tm count (setup_timer tm f d s)) = sprt_work s" "scpu (mod_timer tm count (setup_timer tm f d s)) = scpu s"
  "sched_lock (mod_timer tm count (setup_timer tm f d s)) = sched_lock s" "jiffies (mod_timer tm count (setup_timer tm f d s)) = jiffies s"
  for s :: sched
  by (simp_all add: mod_timer_def add_timer_def setup_timer_def Let_def)


subsection \<open>Properties\<close>




end
