(* ===== verification/Thread.thy ===== *)
theory Thread
  imports Sched_Run Mempool
begin

text \<open>
  Creating threads, \<^verbatim>\<open>kernel/thread.c\<close>: the composition of the scheduler and the kernel heap. The state
  holds the scheduler, the heap and the memory pools that live inside the attribute records. Stack
  memory is represented by its addresses only, so the clearing of the register frame at the
  top of a new stack is a statement about where that frame lies.
\<close>

subsection \<open>State\<close>

record ksys =
  ks :: sched
  km :: mempool_sys
  tpool :: "u32 \<Rightarrow> mem_info"

text \<open>An operation of the heap: it runs on the same core as the scheduler.\<close>

definition heap_op :: "(mempool_sys \<Rightarrow> (mempool_sys \<times> 'r) option) \<Rightarrow> ksys \<Rightarrow> (ksys \<times> 'r) option" where
  "heap_op f k = do {
     (m, r) \<leftarrow> f ((km k)\<lparr>mcpu := scpu (ks k)\<rparr>);
     Some (k\<lparr>km := m, ks := (ks k)\<lparr>scpu := mcpu m\<rparr>\<rparr>, r)
   }"

definition heap_free :: "u32 \<Rightarrow> ksys \<Rightarrow> ksys option" where
  "heap_free p k = do { (k, _) \<leftarrow> heap_op (\<lambda>m. do { m \<leftarrow> kfree p m; Some (m, ()) }) k; Some k }"

definition sched_op :: "(sched \<Rightarrow> (sched \<times> 'r) option) \<Rightarrow> ksys \<Rightarrow> (ksys \<times> 'r) option" where
  "sched_op f k = do { (s, r) \<leftarrow> f (ks k); Some (k\<lparr>ks := s\<rparr>, r) }"

definition on_cpu :: "(cpu \<Rightarrow> cpu) \<Rightarrow> ksys \<Rightarrow> ksys" where
  "on_cpu f k = k\<lparr>ks := (ks k)\<lparr>scpu := f (scpu (ks k))\<rparr>\<rparr>"

definition get_attr :: "u32 \<Rightarrow> ksys \<Rightarrow> thread_attr option" where
  "get_attr a k = (if a = 0 then None else Some (attrs (ks k) a))"

definition set_attr :: "u32 \<Rightarrow> (thread_attr \<Rightarrow> thread_attr) \<Rightarrow> ksys \<Rightarrow> ksys" where
  "set_attr a f k = k\<lparr>ks := (ks k)\<lparr>attrs := (attrs (ks k))(a := f (attrs (ks k) a))\<rparr>\<rparr>"

definition THREAD_USER :: u32 where "THREAD_USER = 1"
definition THREAD_STACK_MIN :: u32 where "THREAD_STACK_MIN = 512"
definition THREAD_STACK_DEFAULT :: u32 where "THREAD_STACK_DEFAULT = 2056"
definition THREAD_PROTY_DEFAULT :: u32 where "THREAD_PROTY_DEFAULT = 80"
definition THREAD_TIME_DEFUALT :: u32 where "THREAD_TIME_DEFUALT = 40"
definition THREAD_TID_BASE :: u32 where "THREAD_TID_BASE = 1"
definition THREAD_TID_INIT :: u32 where "THREAD_TID_INIT = 2"

text \<open>The sizes of the structures on this 32-bit machine.\<close>

definition sizeof_thread :: u32 where "sizeof_thread = 84"
definition sizeof_thread_attr :: u32 where "sizeof_thread_attr = 204"
definition sizeof_context_regs :: u32 where "sizeof_context_regs = 72"

definition zero_thread :: thread where
  "zero_thread = \<lparr>tname = replicate THREAD_NAME_SIZE 0, tid = 0, status = 0, to_status = 0, start_routine = 0,
     sprt_attr = 0, ptr_args = 0, expires = 0, tflags = 0, tlock = \<lparr>sgrt_atc = \<lparr>counter = 0\<rparr>, flag = 0\<rparr>\<rparr>"

definition zero_attr :: thread_attr where
  "zero_attr = \<lparr>detachstate = 0, schedpolicy = 0, sched_priority = 0, sched_curpriority = 0,
     init_budget = \<lparr>tv_sec = 0, tv_nsec = 0\<rparr>, inheritsched = 0, ptr_stack_start = 0, stack_addr = 0, stacksize = 0\<rparr>"

definition zero_pool :: "mem_info \<Rightarrow> mem_info" where
  "zero_pool p = p\<lparr>info_base := 0, info_lenth := 0, sprt_mem := 0, alloc_fn := None, free_fn := None, mlink := zero_hash_heads (mlink p)\<rparr>"

text \<open>\<^verbatim>\<open>memset(sprt_attr, 0, sizeof(struct thread_attr))\<close>\<close>

definition clear_attr :: "u32 \<Rightarrow> ksys \<Rightarrow> ksys" where
  "clear_attr a k = (set_attr a (\<lambda>_. zero_attr) k)\<lparr>tpool := (tpool k)(a := zero_pool (tpool k a))\<rparr>"

subsection \<open>Attributes and stacks\<close>

definition mrt_ralign :: "u32 \<Rightarrow> u32 \<Rightarrow> u32" where
  "mrt_ralign x m = x AND NOT (m - 1)"

definition mrt_is_timespec_empty :: "time_spec \<Rightarrow> bool" where
  "mrt_is_timespec_empty t \<longleftrightarrow> tv_sec t = 0 \<and> tv_nsec t = 0"

definition thread_get_context :: "thread_attr \<Rightarrow> u32" where
  "thread_get_context a = mrt_align (stack_addr a + sizeof_context_regs) 8 - sizeof_context_regs"

definition stack_top :: "u32 \<Rightarrow> u32 \<Rightarrow> u32" where
  "stack_top stack sz =
     (let addr = stack + sz;
          addr = mrt_ralign (addr - 16) 8;
          addr = addr - sizeof_context_regs
      in mrt_ralign addr 8)"

definition thread_set_stack :: "u32 \<Rightarrow> u32 \<Rightarrow> u32 \<Rightarrow> u32 \<Rightarrow> ksys \<Rightarrow> (ksys \<times> u32) option" where
  "thread_set_stack a dync stack sz k =
     (if \<not> isValid stack \<or> sz < THREAD_STACK_MIN then Some (k, 0)
      else if dync \<noteq> 0 \<and> dync \<noteq> stack then Some (k, 0)
      else do {
        at \<leftarrow> get_attr a k;
        k \<leftarrow> (if isValid (ptr_stack_start at) then heap_free (ptr_stack_start at) k else Some k);
        let k = set_attr a (\<lambda>at. at\<lparr>ptr_stack_start := dync, stack_addr := stack_top stack sz, stacksize := sz\<rparr>) k;
        Some (k, stack_addr (attrs (ks k) a))
      })"

definition thread_attr_init :: "u32 \<Rightarrow> ksys \<Rightarrow> (ksys \<times> u32) option" where
  "thread_attr_init a k = do {
     _ \<leftarrow> get_attr a k;
     let k = set_attr a (\<lambda>at. at\<lparr>detachstate := 0, inheritsched := 0, schedpolicy := 1\<rparr>) (clear_attr a k);
     (k, stack) \<leftarrow> heap_op (kzalloc THREAD_STACK_DEFAULT GFP_KERNEL) k;
     if \<not> isValid stack then Some (k, 0)
     else do {
       (k, _) \<leftarrow> thread_set_stack a stack stack THREAD_STACK_DEFAULT k;
       let k = set_attr a (thread_set_priority THREAD_PROTY_DEFAULT) k;
       let k = set_attr a (thread_set_time_slice THREAD_TIME_DEFUALT) k;
       Some (k, stack_addr (attrs (ks k) a))
     }
   }"

text \<open>The parts of \<^verbatim>\<open>thread_attr_revise\<close>: the defaults for a priority of zero and an empty time slice, and a stack.\<close>

definition revise_params :: "thread_attr \<Rightarrow> thread_attr" where
  "revise_params a =
     (let a = (if sched_priority a = 0 then thread_set_priority THREAD_PROTY_DEFAULT a else a)
      in if mrt_is_timespec_empty (init_budget a) then thread_set_time_slice THREAD_TIME_DEFUALT a else a)"

definition thread_attr_revise :: "u32 \<Rightarrow> ksys \<Rightarrow> (ksys \<times> u32) option" where
  "thread_attr_revise a k =
     (if a = 0 then Some (k, 0)
      else
        let k = set_attr a revise_params k in
        if stack_addr (attrs (ks k) a) = 0 then do {
          (k, stack) \<leftarrow> heap_op (kzalloc THREAD_STACK_DEFAULT GFP_KERNEL) k;
          if \<not> isValid stack then Some (k, 0)
          else do {
            (k, _) \<leftarrow> thread_set_stack a stack stack THREAD_STACK_DEFAULT k;
            Some (k, stack_addr (attrs (ks k) a))
          }
        } else Some (k, stack_addr (attrs (ks k) a)))"

definition thread_attr_destroy :: "u32 \<Rightarrow> ksys \<Rightarrow> ksys option" where
  "thread_attr_destroy a k =
     (if a = 0 then Some k
      else do {
        let start = ptr_stack_start (attrs (ks k) a);
        k \<leftarrow> (if start \<noteq> 0 then heap_free start k else Some k);
        Some (clear_attr a k)
      })"

text \<open>The handle is read without a test for null.\<close>

definition thread_attr_get :: "u32 \<Rightarrow> ksys \<Rightarrow> u32 option" where
  "thread_attr_get t k =
     (if sint t \<ge> 0 \<and> sint t < sint THREAD_MAX_NUM then do {
        p \<leftarrow> get_thread_handle t (ks k);
        th \<leftarrow> deref p (ks k);
        Some (sprt_attr th)
      } else Some 0)"

subsection \<open>Creation\<close>

text \<open>The range of identifiers that is searched; \<open>base\<close> is converted to unsigned by the comparisons.\<close>

definition tid_range :: "u32 \<Rightarrow> u32 \<Rightarrow> u32 \<times> u32" where
  "tid_range flags base =
     (let (i_start, count) = (if THREAD_USER AND flags = THREAD_USER then (THREAD_TID_START, THREAD_MAX_NUM - THREAD_TID_START)
                              else (0, THREAD_TID_START))
      in if base \<ge> i_start \<and> base < i_start + count then (base, 1) else (i_start, count))"

text \<open>The exits of \<^verbatim>\<open>__thread_create\<close>: its labels \<^verbatim>\<open>fail\<close>, \<^verbatim>\<open>fail2\<close> and \<^verbatim>\<open>fail3\<close>; \<open>given\<close> is the caller's attribute and
  \<open>a\<close> the one in use.\<close>

definition create_fail :: "ksys \<Rightarrow> (ksys \<times> int \<times> u32 option) option" where
  "create_fail k = Some (on_cpu mrt_preempt_enable k, - ER_FAULT, None)"

definition create_fail2 :: "u32 \<Rightarrow> u32 \<Rightarrow> ksys \<Rightarrow> (ksys \<times> int \<times> u32 option) option" where
  "create_fail2 given a k = do { k \<leftarrow> (if \<not> isValid given then heap_free a k else Some k); create_fail k }"

definition create_fail3 :: "u32 \<Rightarrow> u32 \<Rightarrow> ksys \<Rightarrow> (ksys \<times> int \<times> u32 option) option" where
  "create_fail3 given a k = do { k \<leftarrow> thread_attr_destroy a k; create_fail2 given a k }"

text \<open>The thread itself, once it has an identifier and an attribute.\<close>

definition create_thread :: "bool \<Rightarrow> u32 \<Rightarrow> u32 \<Rightarrow> u32 \<Rightarrow> u32 \<Rightarrow> u32 \<Rightarrow> ksys \<Rightarrow> (ksys \<times> int \<times> u32 option) option" where
  "create_thread has_id t given a start ptr k = do {
     (k, p) \<leftarrow> heap_op (kzalloc sizeof_thread GFP_KERNEL) k;
     if \<not> isValid p then create_fail3 given a k
     else do {
       let k = k\<lparr>ks := set_thr p (\<lambda>_. zero_thread\<lparr>tid := t, sprt_attr := a, start_routine := start, ptr_args := ptr\<rparr>) (ks k)\<rparr>;
       (k, r) \<leftarrow> sched_op (register_new_thread p t) k;
       if r < 0 then do { k \<leftarrow> heap_free p k; create_fail3 given a k }
       else Some (on_cpu mrt_preempt_enable k, ER_NORMAL, if has_id then Some t else None)
     }
   }"

definition create_with :: "bool \<Rightarrow> u32 \<Rightarrow> u32 \<Rightarrow> u32 \<Rightarrow> u32 \<Rightarrow> u32 \<Rightarrow> ksys \<Rightarrow> (ksys \<times> int \<times> u32 option) option" where
  "create_with has_id t given a start ptr k = do {
     (k, top) \<leftarrow> thread_attr_revise a k;
     if top = 0 then create_fail3 given a k else create_thread has_id t given a start ptr k
   }"

text \<open>\<^verbatim>\<open>__thread_create\<close>. The result holds the value stored through \<^verbatim>\<open>ptr_id\<close>, when that pointer is not null
  (\<open>has_id\<close>).\<close>

definition thread_create_base ::
  "bool \<Rightarrow> u32 \<Rightarrow> u32 \<Rightarrow> u32 \<Rightarrow> u32 \<Rightarrow> u32 \<Rightarrow> ksys \<Rightarrow> (ksys \<times> int \<times> u32 option) option" where
  "thread_create_base has_id base given start ptr flags k = do {
     let k = on_cpu mrt_preempt_disable k;
     let (i_start, count) = tid_range flags base;
     (k, t) \<leftarrow> sched_op (get_unused_tid_from_scheduler i_start count) k;
     if t < 0 then create_fail k
     else if given = 0 then do {
       (k, a) \<leftarrow> heap_op (kmalloc sizeof_thread_attr GFP_KERNEL) k;
       if \<not> isValid a then create_fail k
       else do {
         (k, top) \<leftarrow> thread_attr_init a k;
         if top = 0 then create_fail2 given a k
         else create_with has_id (word_of_int t) given a start ptr k
       }
     }
     else create_with has_id (word_of_int t) given given start ptr k
   }"

definition kernel_thread_create_base :: "bool \<Rightarrow> u32 \<Rightarrow> u32 \<Rightarrow> u32 \<Rightarrow> u32 \<Rightarrow> ksys \<Rightarrow> (ksys \<times> int \<times> u32 option) option" where
  "kernel_thread_create_base has_id base given start ptr = thread_create_base has_id base given start ptr 0"

definition user_thread_create_base :: "bool \<Rightarrow> u32 \<Rightarrow> u32 \<Rightarrow> u32 \<Rightarrow> u32 \<Rightarrow> ksys \<Rightarrow> (ksys \<times> int \<times> u32 option) option" where
  "user_thread_create_base has_id base given start ptr = thread_create_base has_id base given start ptr THREAD_USER"

definition kernel_thread_create :: "u32 \<Rightarrow> u32 \<Rightarrow> u32 \<Rightarrow> u32 \<Rightarrow> ksys \<Rightarrow> (ksys \<times> int) option" where
  "kernel_thread_create t given start ptr k =
     (if sint t < 0 then do {
        (k, r, new) \<leftarrow> kernel_thread_create_base True (- 1) given start ptr k;
        Some (k, if r \<noteq> 0 then - 1 else (case new of Some t \<Rightarrow> sint t | None \<Rightarrow> 0))
      } else do {
        (k, r, _) \<leftarrow> kernel_thread_create_base False t given start ptr k;
        Some (k, if r \<noteq> 0 then - 1 else sint t)
      })"

definition thread_create :: "bool \<Rightarrow> u32 \<Rightarrow> u32 \<Rightarrow> u32 \<Rightarrow> ksys \<Rightarrow> (ksys \<times> int \<times> u32 option) option" where
  "thread_create has_id given start ptr = user_thread_create_base has_id (- 1) given start ptr"

definition kernel_thread_idle_create :: "u32 \<Rightarrow> u32 \<Rightarrow> u32 \<Rightarrow> ksys \<Rightarrow> (ksys \<times> int) option" where
  "kernel_thread_idle_create given start ptr k = do {
     (k, r, _) \<leftarrow> kernel_thread_create_base False THREAD_TID_IDLE given start ptr k; Some (k, r)
   }"

definition kernel_thread_base_create :: "u32 \<Rightarrow> u32 \<Rightarrow> u32 \<Rightarrow> ksys \<Rightarrow> (ksys \<times> int) option" where
  "kernel_thread_base_create given start ptr k = do {
     (k, r, _) \<leftarrow> kernel_thread_create_base False THREAD_TID_BASE given start ptr k; Some (k, r)
   }"

definition kernel_thread_init_create :: "u32 \<Rightarrow> u32 \<Rightarrow> u32 \<Rightarrow> ksys \<Rightarrow> (ksys \<times> int) option" where
  "kernel_thread_init_create given start ptr k = do {
     (k, r, _) \<leftarrow> kernel_thread_create_base False THREAD_TID_INIT given start ptr k; Some (k, r)
   }"

subsection \<open>The memory pool of a thread\<close>

definition thread_create_mempool :: "u32 \<Rightarrow> u32 \<Rightarrow> u32 \<Rightarrow> ksys \<Rightarrow> (ksys \<times> int) option" where
  "thread_create_mempool a base sz k =
     (if \<not> isValid base then Some (k, PTR_ERR base)
      else if base AND 0x07 \<noteq> 0 then Some (k, - ER_NOTALIGN)
      else do {
        _ \<leftarrow> get_attr a k;
        (info, r) \<leftarrow> memory_block_create (tpool k a) base sz;
        Some (k\<lparr>tpool := (tpool k)(a := info)\<rparr>, r)
      })"

definition thread_release_mempool :: "u32 \<Rightarrow> ksys \<Rightarrow> ksys option" where
  "thread_release_mempool a k = do {
     _ \<leftarrow> get_attr a k;
     Some (if sprt_mem (tpool k a) \<noteq> 0 then k\<lparr>tpool := (tpool k)(a := memory_block_destroy (tpool k a))\<rparr> else k)
   }"

definition tmalloc :: "u32 \<Rightarrow> u32 \<Rightarrow> ksys \<Rightarrow> (ksys \<times> u32) option" where
  "tmalloc sz flags k =
     (let cur = get_current_thread (ks k) in
      if cur = 0 then Some (k, 0)
      else if GFP_KERNEL \<noteq> flags AND GFP_KERNEL then Some (k, 0)
      else
        let a = sprt_attr (thr (ks k) cur) in
        do {
          _ \<leftarrow> get_attr a k;
          (case alloc_fn (tpool k a) of
             None \<Rightarrow> Some (k, 0)
           | Some f \<Rightarrow> do {
               (info, p) \<leftarrow> info_alloc f (tpool k a) sz;
               let k = k\<lparr>tpool := (tpool k)(a := info)\<rparr>;
               if \<not> isValid p then Some (k, 0)
               else if flags AND NR_KMEM_ZERO \<noteq> 0
               then Some (k\<lparr>tpool := (tpool k)(a := info\<lparr>mblk := kmemzero_blocks (mblk info) p sz\<rparr>)\<rparr>, p)
               else Some (k, p)
             })
        })"

definition tcalloc :: "u32 \<Rightarrow> u32 \<Rightarrow> u32 \<Rightarrow> ksys \<Rightarrow> (ksys \<times> u32) option" where
  "tcalloc sz n flags = tmalloc (sz * n) flags"

definition tzalloc :: "u32 \<Rightarrow> u32 \<Rightarrow> ksys \<Rightarrow> (ksys \<times> u32) option" where
  "tzalloc sz flags = tmalloc sz (flags OR NR_KMEM_ZERO)"

definition tfree :: "u32 \<Rightarrow> ksys \<Rightarrow> ksys option" where
  "tfree ptr k = do {
     th \<leftarrow> deref (get_current_thread (ks k)) (ks k);
     _ \<leftarrow> get_attr (sprt_attr th) k;
     let info = tpool k (sprt_attr th);
     if ptr < info_base info \<or> ptr \<ge> info_base info + info_lenth info then Some k
     else (case free_fn info of
             None \<Rightarrow> Some k
           | Some f \<Rightarrow> do { info \<leftarrow> info_free f info ptr; Some (k\<lparr>tpool := (tpool k)(sprt_attr th := info)\<rparr>) })
   }"

end
