(* ===== verification/Thread_Create.thy ===== *)
theory Thread_Create
  imports Thread
begin

text \<open>
  What creating a thread does, over \<open>Thread\<close>: where the stack of a new thread begins, what a revised attribute
  looks like, that creation finds the least free identifier and makes the thread ready, and
  that a creation that fails leaves the scheduler as it was and the heap without a leak.
\<close>

subsection \<open>The top of a stack\<close>

lemma unat_ralign8: "unat (mrt_ralign x 8) = unat x div 8 * 8"
  by (simp add: mrt_ralign_def unat_and_minus_8)

lemma unat_stack_top:
  assumes "unat stack + unat sz < 4294967296" and "512 \<le> unat sz"
  shows "unat (stack_top stack sz) = (unat stack + unat sz - 16) div 8 * 8 - 72"
proof -
  let ?e = "(unat stack + unat sz - 16) div 8 * 8"
  have e: "unat stack + unat sz - 16 - 7 \<le> ?e" by presburger
  have "unat (mrt_ralign (stack + sz - 16) 8) = ?e"
    using assms by (simp add: unat_ralign8 u32_add u32_sub)
  moreover have "unat (mrt_ralign (stack + sz - 16) 8 - sizeof_context_regs) = ?e - 72"
    using assms e calculation by (subst u32_sub) (auto simp: sizeof_context_regs_def)
  moreover have "(?e - 72) div 8 * 8 = ?e - 72"
  proof -
    have "8 dvd ?e - 72" by (intro dvd_diff_nat) simp_all
    then show ?thesis by simp
  qed
  ultimately show ?thesis by (simp add: stack_top_def Let_def unat_ralign8)
qed

lemma stack_top_inside:
  assumes "unat stack + unat sz < 4294967296" and "512 \<le> unat sz"
  shows "8 dvd unat (stack_top stack sz)" and "unat stack + 400 < unat (stack_top stack sz)"
    and "unat (stack_top stack sz) + 72 + 16 \<le> unat stack + unat sz"
    and "unat stack + unat sz \<le> unat (stack_top stack sz) + 72 + 23"
    and "thread_get_context (a\<lparr>stack_addr := stack_top stack sz\<rparr>) = stack_top stack sz"
proof -
  let ?t = "unat (stack_top stack sz)" and ?n = "unat stack + unat sz - 16"
  have t: "?t = ?n div 8 * 8 - 72" by (rule unat_stack_top[OF assms])
  obtain e where e: "e = ?n div 8 * 8" by blast
  have n: "?n \<le> e + 7" "e \<le> ?n" unfolding e by presburger+
  show d: "8 dvd ?t" unfolding t by (intro dvd_diff_nat) simp_all
  show "unat stack + 400 < ?t" "?t + 72 + 16 \<le> unat stack + unat sz" "unat stack + unat sz \<le> ?t + 72 + 23"
    using n assms unfolding t e[symmetric] by simp_all
  then have up: "?t + 79 < 4294967296" using assms by linarith
  have s: "unat (stack_top stack sz + 72) = ?t + 72" using up by (subst u32_add) simp_all
  have "unat (mrt_num_align8 (stack_top stack sz + 72)) = (?t + 72 + 7) div 8 * 8"
    using s up by (subst unat_align8) simp_all
  also have "\<dots> = ?t + 72" using d by presburger
  finally have "mrt_align (stack_top stack sz + 72) 8 = stack_top stack sz + 72"
    using s by (simp add: u32_eq_iff mrt_num_align8_def)
  then show "thread_get_context (a\<lparr>stack_addr := stack_top stack sz\<rparr>) = stack_top stack sz"
    by (simp add: thread_get_context_def sizeof_context_regs_def)
qed

subsection \<open>The heap and the scheduler together\<close>

text \<open>The heap as the core that runs the scheduler finds it.\<close>

definition hp :: "ksys \<Rightarrow> mempool_sys" where
  "hp k = (km k)\<lparr>mcpu := scpu (ks k)\<rparr>"

definition placed :: "mempool_sys \<Rightarrow> u32 \<Rightarrow> bool" where
  "placed m p \<longleftrightarrow> (\<exists>n. (unat p, n) \<in> sys_live m) \<or> unat p \<notin> sys_zone m"

text \<open>Every registered thread is a region of the heap; its attribute is one too or lies outside the pools.\<close>

definition threads_placed :: "sched \<Rightarrow> mempool_sys \<Rightarrow> bool" where
  "threads_placed s m \<longleftrightarrow>
     (\<forall>p. known s p \<longrightarrow> (\<exists>n. (unat p, n) \<in> sys_live m) \<and> placed m (sprt_attr (thr s p)))"

definition kgood :: "ksys \<Rightarrow> (u32 \<Rightarrow> u32 list) \<Rightarrow> bool" where
  "kgood k L \<longleftrightarrow> sched_good (ks k) L \<and> sys_wf (hp k) \<and> threads_placed (ks k) (hp k)"

definition attr_unused :: "u32 \<Rightarrow> ksys \<Rightarrow> bool" where
  "attr_unused a k \<longleftrightarrow> (\<forall>p. known (ks k) p \<longrightarrow> sprt_attr (thr (ks k) p) \<noteq> a)"

definition unowned :: "u32 \<Rightarrow> ksys \<Rightarrow> bool" where
  "unowned p k \<longleftrightarrow> \<not> known (ks k) p \<and> attr_unused p k"

lemma hp_sel [simp]: "mcpu (hp k) = scpu (ks k)" "pools (hp k) = pools (km k)" by (simp_all add: hp_def)

lemma hp_set_attr [simp]: "hp (set_attr a f k) = hp k" "hp (clear_attr a k) = hp k"
  by (simp_all add: hp_def set_attr_def clear_attr_def)

lemma ks_set_attr [simp]:
  "ks (set_attr a f k) = (ks k)\<lparr>attrs := (attrs (ks k))(a := f (attrs (ks k) a))\<rparr>"
  "ks (clear_attr a k) = (ks k)\<lparr>attrs := (attrs (ks k))(a := zero_attr)\<rparr>"
  by (simp_all add: set_attr_def clear_attr_def)

lemma hp_km: "mcpu m = scpu (ks k) \<Longrightarrow> hp (k\<lparr>km := m\<rparr>) = m"
  by (simp add: hp_def)

lemma known_attrs [simp]: "known (s\<lparr>attrs := f\<rparr>) = known s" by (simp add: known_def fun_eq_iff)

lemma known_same:
  assumes "tid_array s' = tid_array s" and "\<And>q. tid (thr s' q) = tid (thr s q)" and "\<And>q. sprt_attr (thr s' q) = sprt_attr (thr s q)"
  shows "known s' = known s"
  using assms by (simp add: known_def fun_eq_iff)

lemma threads_placed_mono:
  assumes "threads_placed s m" and "sys_zone m' = sys_zone m"
    and "\<And>p n. known s p \<or> (\<exists>q. known s q \<and> sprt_attr (thr s q) = p) \<Longrightarrow> (unat p, n) \<in> sys_live m \<Longrightarrow> (unat p, n) \<in> sys_live m'"
  shows "threads_placed s m'"
  using assms unfolding threads_placed_def placed_def by blast

lemma known_registered:
  assumes "sched_good s L"
  shows "known s p \<longleftrightarrow> p \<noteq> 0 \<and> (\<exists>t<THREAD_MAX_NUM. tid_array s t = p)"
  using assms registered_known(1)[of "{}" s L True] unfolding lists_good_def lists_wf_def registered_def
  by (auto simp: known_def)

lemma attr_change_good:
  assumes "lists_good s L srt" and "\<And>p. known s p \<Longrightarrow> sprt_attr (thr s p) \<noteq> a"
  shows "lists_good (s\<lparr>attrs := (attrs s)(a := at)\<rparr>) L srt"
  by (rule lists_good_known[OF assms(1)]) (use assms in \<open>auto simp: prio_def lists_good_def\<close>, simp add: known_def)

lemma kgood_set_attr:
  assumes "kgood k L" and "attr_unused a k"
  shows "kgood (set_attr a f k) L" and "kgood (clear_attr a k) L"
proof -
  have "sched_good ((ks k)\<lparr>attrs := (attrs (ks k))(a := at)\<rparr>) L" for at
    using assms attr_change_good[of "ks k" L True a at] by (auto simp: kgood_def attr_unused_def)
  then show "kgood (set_attr a f k) L" "kgood (clear_attr a k) L"
    using assms by (simp_all add: kgood_def threads_placed_def)
qed

text \<open>One request and one release.\<close>

lemma heap_request:
  assumes good: "kgood k L" and adm: "kmalloc_adm flags (hp k) n"
  obtains m q where "kmalloc n flags (hp k) = Some (m, q)" and "heap_op (kmalloc n flags) k = Some (k\<lparr>km := m\<rparr>, q)"
    and "mcpu m = scpu (ks k)" and "hp (k\<lparr>km := m\<rparr>) = m" and "kgood (k\<lparr>km := m\<rparr>) L" and "sys_zone m = sys_zone (hp k)"
    and "q = 0 \<Longrightarrow> m = hp k"
    and "q \<noteq> 0 \<Longrightarrow> isValid q \<and> \<not> placed (hp k) q \<and>
           (\<exists>r\<ge>unat n. sys_live m = insert (unat q, r) (sys_live (hp k)) \<and> (\<forall>x\<in>sys_live (hp k). fst x \<noteq> unat q))"
proof -
  have wf: "sys_wf (hp k)" using good by (simp add: kgood_def)
  obtain m q where m: "kmalloc n flags (hp k) = Some (m, q)" "mcpu m = scpu (ks k)" "sys_wf m" "sys_zone m = sys_zone (hp k)"
      "q = 0 \<longrightarrow> m = hp k" "q \<noteq> 0 \<longrightarrow> isValid q \<and> unat q \<in> sys_zone (hp k) \<and>
         (\<exists>r\<ge>unat n. sys_live m = insert (unat q, r) (sys_live (hp k)) \<and> (\<forall>x\<in>sys_live (hp k). fst x \<noteq> unat q))"
    using kmalloc_request[OF wf adm] by auto
  have "heap_op (kmalloc n flags) k = Some (k\<lparr>km := m\<rparr>, q)"
    using m(1,2) by (simp add: heap_op_def hp_def)
  moreover have h: "hp (k\<lparr>km := m\<rparr>) = m" by (rule hp_km[OF m(2)])
  moreover have "threads_placed (ks k) m"
    by (rule threads_placed_mono[of _ "hp k"]) (use good m(4-6) in \<open>cases "q = 0"; auto simp: kgood_def\<close>)+
  then have "kgood (k\<lparr>km := m\<rparr>) L" using good m(3) h by (simp add: kgood_def)
  moreover have "q \<noteq> 0 \<Longrightarrow> \<not> placed (hp k) q" using m(6) by (fastforce simp: placed_def)
  ultimately show thesis using that[of m q] m(1-6) by blast
qed

lemma heap_release:
  assumes good: "kgood k L" and live: "(unat p, r) \<in> sys_live (hp k)" and free: "unowned p k"
  obtains m where "heap_free p k = Some (k\<lparr>km := m\<rparr>)" and "mcpu m = scpu (ks k)" and "hp (k\<lparr>km := m\<rparr>) = m"
    and "kgood (k\<lparr>km := m\<rparr>) L" and "sys_zone m = sys_zone (hp k)" and "sys_live m = {x \<in> sys_live (hp k). fst x \<noteq> unat p}"
proof -
  have wf: "sys_wf (hp k)" using good by (simp add: kgood_def)
  obtain m where m: "kfree p (hp k) = Some m" "sys_wf m" "sys_live m = sys_live (hp k) - {(unat p, r)}" "mcpu m = scpu (ks k)"
      "sys_zone m = sys_zone (hp k)"
    using kfree_live[OF wf live] by auto
  have one: "x = (unat p, r)" if x: "x \<in> sys_live (hp k)" "fst x = unat p" for x
  proof (rule ccontr)
    assume "x \<noteq> (unat p, r)"
    then have "disjoint_regions x (unat p, r)" using kheap.live_apart[OF wf x(1) live] by blast
    then show False
      using live_zone(3)[OF wf live] live_zone(3)[OF wf, of "fst x" "snd x"] x by (cases x) (simp add: disjoint_regions_def)
  qed
  have l: "sys_live m = {x \<in> sys_live (hp k). fst x \<noteq> unat p}"
  proof (rule set_eqI)
    fix x show "x \<in> sys_live m \<longleftrightarrow> x \<in> {x \<in> sys_live (hp k). fst x \<noteq> unat p}"
      unfolding m(3) using one[of x] by (cases "fst x = unat p") auto
  qed
  have "heap_free p k = Some (k\<lparr>km := m\<rparr>)"
    using m(1,4) by (simp add: heap_free_def heap_op_def hp_def)
  moreover have h: "hp (k\<lparr>km := m\<rparr>) = m" by (rule hp_km[OF m(4)])
  moreover have "threads_placed (ks k) m"
  proof (rule threads_placed_mono[of _ "hp k"])
    fix q n assume q: "known (ks k) q \<or> (\<exists>q'. known (ks k) q' \<and> sprt_attr (thr (ks k) q') = q)" "(unat q, n) \<in> sys_live (hp k)"
    then have "q \<noteq> p" using free by (auto simp: unowned_def attr_unused_def)
    then show "(unat q, n) \<in> sys_live m" using q(2) l by (simp add: u32_eq_iff)
  qed (use good m in \<open>simp_all add: kgood_def\<close>)
  then have "kgood (k\<lparr>km := m\<rparr>) L" using good m(2) h by (simp add: kgood_def)
  ultimately show thesis using that m l by blast
qed

subsection \<open>Attributes\<close>

text \<open>The attribute a creation may use: its dynamic stack, if it has one, is a region of the heap that is no thread and no attribute.\<close>

definition attr_ok :: "u32 \<Rightarrow> ksys \<Rightarrow> bool" where
  "attr_ok a k \<longleftrightarrow> a \<noteq> 0 \<and> attr_unused a k \<and>
     (let at = attrs (ks k) a in
      (stack_addr at = 0 \<longrightarrow> ptr_stack_start at = 0) \<and>
      (ptr_stack_start at \<noteq> 0 \<longrightarrow> unowned (ptr_stack_start at) k \<and> (\<exists>r. (unat (ptr_stack_start at), r) \<in> sys_live (hp k))))"

text \<open>The regions without the dynamic stack of an attribute.\<close>

definition spare :: "u32 \<Rightarrow> ksys \<Rightarrow> (nat \<times> nat) set" where
  "spare a k = {x \<in> sys_live (hp k). ptr_stack_start (attrs (ks k) a) \<noteq> 0 \<longrightarrow> fst x \<noteq> unat (ptr_stack_start (attrs (ks k) a))}"

lemma unowned_cong: "known (ks k') = known (ks k) \<Longrightarrow> thr (ks k') = thr (ks k) \<Longrightarrow> unowned p k' = unowned p k \<and> attr_unused p k' = attr_unused p k"
  by (simp add: unowned_def attr_unused_def)

text \<open>\<open>only_attr\<close>: of the scheduler's state only the attribute at \<open>a\<close> has changed.\<close>

definition only_attr :: "u32 \<Rightarrow> ksys \<Rightarrow> ksys \<Rightarrow> bool" where
  "only_attr a k k' \<longleftrightarrow> (\<exists>at. ks k' = (ks k)\<lparr>attrs := (attrs (ks k))(a := at)\<rparr>) \<and> sys_zone (hp k') = sys_zone (hp k)"

lemma only_attrD:
  assumes "only_attr a k k'"
  shows "known (ks k') = known (ks k)" and "thr (ks k') = thr (ks k)" and "scpu (ks k') = scpu (ks k)"
    and "tid_array (ks k') = tid_array (ks k)" and "sprt_work (ks k') = sprt_work (ks k)"
    and "unowned p k' = unowned p k" and "attr_unused p k' = attr_unused p k" and "sys_zone (hp k') = sys_zone (hp k)"
    and "b \<noteq> a \<Longrightarrow> attrs (ks k') b = attrs (ks k) b"
  using assms by (auto simp: only_attr_def unowned_def attr_unused_def)

lemma only_attr_trans: "only_attr a k k1 \<Longrightarrow> only_attr a k1 k2 \<Longrightarrow> only_attr a k k2"
  by (auto simp: only_attr_def)

lemma only_attr_set: "only_attr a k (set_attr a f k)" "only_attr a k (clear_attr a k)"
  by (auto simp: only_attr_def)

lemma only_attr_km: "hp (k\<lparr>km := m\<rparr>) = m \<Longrightarrow> sys_zone m = sys_zone (hp k) \<Longrightarrow> only_attr a k (k\<lparr>km := m\<rparr>)"
  unfolding only_attr_def by (intro conjI exI[of _ "attrs (ks k) a"]) simp_all

lemma attr_destroyed:
  assumes good: "kgood k L" and ok: "attr_ok a k"
  obtains k' where "thread_attr_destroy a k = Some k'" and "kgood k' L" and "sys_live (hp k') = spare a k" and "only_attr a k k'"
    and "attrs (ks k') a = zero_attr"
proof (cases "ptr_stack_start (attrs (ks k) a) = 0")
  case True
  have "thread_attr_destroy a k = Some (clear_attr a k)"
    using ok True by (simp add: attr_ok_def thread_attr_destroy_def Let_def)
  then show thesis
    using that[of "clear_attr a k"] kgood_set_attr(2)[OF good] ok True only_attr_set by (simp add: attr_ok_def spare_def)
next
  case False
  let ?p = "ptr_stack_start (attrs (ks k) a)"
  obtain r where r: "(unat ?p, r) \<in> sys_live (hp k)" "unowned ?p k" using ok False by (auto simp: attr_ok_def Let_def)
  obtain m where m: "heap_free ?p k = Some (k\<lparr>km := m\<rparr>)" "hp (k\<lparr>km := m\<rparr>) = m" "kgood (k\<lparr>km := m\<rparr>) L"
      "sys_zone m = sys_zone (hp k)" "sys_live m = {x \<in> sys_live (hp k). fst x \<noteq> unat ?p}"
    by (rule heap_release[OF good r]) blast
  have "thread_attr_destroy a k = Some (clear_attr a (k\<lparr>km := m\<rparr>))"
    using ok False m(1) by (simp add: attr_ok_def thread_attr_destroy_def Let_def)
  moreover have "kgood (clear_attr a (k\<lparr>km := m\<rparr>)) L"
    by (rule kgood_set_attr(2)[OF m(3)]) (use ok in \<open>simp add: attr_ok_def attr_unused_def\<close>)
  moreover have "only_attr a k (clear_attr a (k\<lparr>km := m\<rparr>))"
    by (rule only_attr_trans[OF only_attr_km[OF m(2,4)] only_attr_set(2)])
  ultimately show thesis using that m(2,5) False by (simp add: spare_def)
qed

text \<open>A fresh stack from the heap for an attribute without one.\<close>

lemma stack_from_heap:
  assumes good: "kgood k L" and a: "a \<noteq> 0" "attr_unused a k" "ptr_stack_start (attrs (ks k) a) = 0"
    and adm: "kmalloc_adm (GFP_KERNEL OR NR_KMEM_ZERO) (hp k) THREAD_STACK_DEFAULT"
  obtains (null) m where "kmalloc THREAD_STACK_DEFAULT (GFP_KERNEL OR NR_KMEM_ZERO) (hp k) = Some (m, 0)"
      and "heap_op (kzalloc THREAD_STACK_DEFAULT GFP_KERNEL) k = Some (k\<lparr>km := m\<rparr>, 0)" and "hp (k\<lparr>km := m\<rparr>) = hp k"
      and "kgood (k\<lparr>km := m\<rparr>) L"
  | (stack) m q k' where "kmalloc THREAD_STACK_DEFAULT (GFP_KERNEL OR NR_KMEM_ZERO) (hp k) = Some (m, q)" and "isValid q"
      and "heap_op (kzalloc THREAD_STACK_DEFAULT GFP_KERNEL) k = Some (k\<lparr>km := m\<rparr>, q)"
      and "thread_set_stack a q q THREAD_STACK_DEFAULT (k\<lparr>km := m\<rparr>) = Some (k', stack_addr (attrs (ks k') a))"
      and "kgood k' L" and "hp k' = m" and "only_attr a k k'"
      and "attrs (ks k') a = (attrs (ks k) a)\<lparr>ptr_stack_start := q, stack_addr := stack_top q THREAD_STACK_DEFAULT, stacksize := THREAD_STACK_DEFAULT\<rparr>"
      and "stack_top q THREAD_STACK_DEFAULT \<noteq> 0" and "attr_ok a k'" and "spare a k' = sys_live (hp k)"
      and "\<exists>r\<ge>2056. sys_live m = insert (unat q, r) (sys_live (hp k))"
proof -
  obtain m q where m: "kmalloc THREAD_STACK_DEFAULT (GFP_KERNEL OR NR_KMEM_ZERO) (hp k) = Some (m, q)"
      "heap_op (kzalloc THREAD_STACK_DEFAULT GFP_KERNEL) k = Some (k\<lparr>km := m\<rparr>, q)" "hp (k\<lparr>km := m\<rparr>) = m" "kgood (k\<lparr>km := m\<rparr>) L"
      "sys_zone m = sys_zone (hp k)" "q = 0 \<Longrightarrow> m = hp k"
      "q \<noteq> 0 \<Longrightarrow> isValid q \<and> \<not> placed (hp k) q \<and> (\<exists>r\<ge>unat THREAD_STACK_DEFAULT. sys_live m = insert (unat q, r) (sys_live (hp k)) \<and>
         (\<forall>x\<in>sys_live (hp k). fst x \<noteq> unat q))"
    using heap_request[OF good adm] unfolding kzalloc_def by metis
  show thesis
  proof (cases "q = 0")
    case True
    then show thesis using null[of m] m(1-4,6) by simp
  next
    case False
    obtain r where r: "2056 \<le> r" "sys_live m = insert (unat q, r) (sys_live (hp k))" "\<forall>x\<in>sys_live (hp k). fst x \<noteq> unat q"
      and v: "isValid q" "\<not> placed (hp k) q"
      using m(7)[OF False] by (auto simp: THREAD_STACK_DEFAULT_def)
    have wf: "sys_wf m" using m(3,4) by (simp add: kgood_def)
    let ?k = "set_attr a (\<lambda>at. at\<lparr>ptr_stack_start := q, stack_addr := stack_top q THREAD_STACK_DEFAULT, stacksize := THREAD_STACK_DEFAULT\<rparr>)
      (k\<lparr>km := m\<rparr>)"
    have top: "stack_top q THREAD_STACK_DEFAULT \<noteq> 0"
      using stack_top_inside(2)[of q THREAD_STACK_DEFAULT] live_zone(2)[OF wf, of "unat q" r] r(1,2)
      by (auto simp: THREAD_STACK_DEFAULT_def)
    have un: "unowned q k" using good v(2) unfolding unowned_def attr_unused_def kgood_def threads_placed_def placed_def by blast
    have oa: "only_attr a k ?k" by (rule only_attr_trans[OF only_attr_km[OF m(3,5)] only_attr_set(1)])
    have set: "thread_set_stack a q q THREAD_STACK_DEFAULT (k\<lparr>km := m\<rparr>) = Some (?k, stack_addr (attrs (ks ?k) a))"
      using v(1) a(1,3) by (simp add: thread_set_stack_def THREAD_STACK_MIN_def THREAD_STACK_DEFAULT_def get_attr_def)
    have g: "kgood ?k L" by (rule kgood_set_attr(1)[OF m(4)]) (use a(2) in \<open>simp add: attr_unused_def\<close>)
    have ok: "attr_ok a ?k"
      using a(1,2) top un r(2) m(3) only_attrD(6,7)[OF oa] by (auto simp: attr_ok_def Let_def)
    have sp: "spare a ?k = sys_live (hp k)" using r(2,3) False m(3) by (auto simp: spare_def)
    show thesis by (rule stack[OF m(1) v(1) m(2) set g _ oa _ top ok sp]) (use m(3) r in auto)
  qed
qed

subsection \<open>The requests of a creation\<close>

definition thread_request :: "(u32 \<times> u32) list" where
  "thread_request = [(sizeof_thread, GFP_KERNEL OR NR_KMEM_ZERO)]"

definition revise_request :: "thread_attr \<Rightarrow> (u32 \<times> u32) list" where
  "revise_request at = (if stack_addr at = 0 then [(THREAD_STACK_DEFAULT, GFP_KERNEL OR NR_KMEM_ZERO)] else []) @ thread_request"

definition create_requests :: "u32 \<Rightarrow> ksys \<Rightarrow> (u32 \<times> u32) list" where
  "create_requests given k =
     (if given = 0
      then [(sizeof_thread_attr, GFP_KERNEL), (THREAD_STACK_DEFAULT, GFP_KERNEL OR NR_KMEM_ZERO)] @ thread_request
      else revise_request (attrs (ks k) given))"

lemma revise_params_sel [simp]:
  "stack_addr (revise_params at) = stack_addr at" "ptr_stack_start (revise_params at) = ptr_stack_start at"
  by (simp_all add: revise_params_def Let_def thread_set_priority_def thread_set_time_slice_def)

lemma attr_ok_params:
  assumes "attr_ok a k" and "\<And>at. stack_addr (f at) = stack_addr at" and "\<And>at. ptr_stack_start (f at) = ptr_stack_start at"
  shows "attr_ok a (set_attr a f k)" and "spare a (set_attr a f k) = spare a k"
  using assms unowned_cong[of "set_attr a f k" k] by (simp_all add: attr_ok_def spare_def Let_def)

text \<open>\<^verbatim>\<open>thread_attr_revise\<close> on an attribute a creation may use.\<close>

lemma revised:
  assumes good: "kgood k L" and ok: "attr_ok a k" and adm: "requests_adm (revise_request (attrs (ks k) a)) (hp k)"
  obtains k' top where "thread_attr_revise a k = Some (k', top)" and "kgood k' L" and "attr_ok a k'" and "only_attr a k k'"
    and "spare a k' = spare a k" and "sys_live (hp k) \<subseteq> sys_live (hp k')"
    and "top = 0 \<Longrightarrow> \<not> served (revise_request (attrs (ks k) a)) (hp k)"
    and "top \<noteq> 0 \<Longrightarrow> stack_addr (attrs (ks k') a) \<noteq> 0 \<and> requests_adm thread_request (hp k') \<and>
           served (revise_request (attrs (ks k) a)) (hp k) = served thread_request (hp k')"
proof -
  let ?k = "set_attr a revise_params k"
  have a: "a \<noteq> 0" "attr_unused a k" using ok by (simp_all add: attr_ok_def)
  have g: "kgood ?k L" by (rule kgood_set_attr(1)[OF good a(2)])
  have ok1: "attr_ok a ?k" and sp1: "spare a ?k = spare a k" by (rule attr_ok_params[OF ok]; simp)+
  show thesis
  proof (cases "stack_addr (attrs (ks k) a) = 0")
    case False
    then have "thread_attr_revise a k = Some (?k, stack_addr (attrs (ks k) a))"
      using a(1) by (simp add: thread_attr_revise_def Let_def)
    then show thesis using that[OF _ g ok1 only_attr_set(1) sp1] adm False by (simp add: revise_request_def)
  next
    case True
    have st: "ptr_stack_start (attrs (ks ?k) a) = 0" using True ok by (simp add: attr_ok_def Let_def)
    have un: "attr_unused a ?k" using a(2) by (simp add: attr_unused_def)
    have ad: "kmalloc_adm (GFP_KERNEL OR NR_KMEM_ZERO) (hp ?k) THREAD_STACK_DEFAULT" using adm True by (simp add: revise_request_def)
    show thesis
    proof (rule stack_from_heap[OF g a(1) un st ad])
      fix m assume m: "kmalloc THREAD_STACK_DEFAULT (GFP_KERNEL OR NR_KMEM_ZERO) (hp ?k) = Some (m, 0)"
        "heap_op (kzalloc THREAD_STACK_DEFAULT GFP_KERNEL) ?k = Some (?k\<lparr>km := m\<rparr>, 0)" "hp (?k\<lparr>km := m\<rparr>) = hp ?k" "kgood (?k\<lparr>km := m\<rparr>) L"
      have k: "attr_ok a (?k\<lparr>km := m\<rparr>)" "spare a (?k\<lparr>km := m\<rparr>) = spare a k" "only_attr a k (?k\<lparr>km := m\<rparr>)"
        using ok1 sp1 m(3) unowned_cong[of "?k\<lparr>km := m\<rparr>" ?k] only_attr_set(1)[of a k revise_params]
        by (simp_all add: attr_ok_def spare_def only_attr_def Let_def)
      have "thread_attr_revise a k = Some (?k\<lparr>km := m\<rparr>, 0)"
        using a(1) True m(2) by (simp add: thread_attr_revise_def Let_def)
      then show thesis using m(1,3) True by (intro that[OF _ m(4) k(1,3,2)]) (auto simp: revise_request_def)
    next
      fix m q k' assume m: "kmalloc THREAD_STACK_DEFAULT (GFP_KERNEL OR NR_KMEM_ZERO) (hp ?k) = Some (m, q)" "isValid q"
        "heap_op (kzalloc THREAD_STACK_DEFAULT GFP_KERNEL) ?k = Some (?k\<lparr>km := m\<rparr>, q)"
        "thread_set_stack a q q THREAD_STACK_DEFAULT (?k\<lparr>km := m\<rparr>) = Some (k', stack_addr (attrs (ks k') a))" "kgood k' L" "hp k' = m"
        "only_attr a ?k k'"
        "attrs (ks k') a = (attrs (ks ?k) a)\<lparr>ptr_stack_start := q, stack_addr := stack_top q THREAD_STACK_DEFAULT, stacksize := THREAD_STACK_DEFAULT\<rparr>"
        "stack_top q THREAD_STACK_DEFAULT \<noteq> 0" "attr_ok a k'" "spare a k' = sys_live (hp ?k)"
        "\<exists>r\<ge>2056. sys_live m = insert (unat q, r) (sys_live (hp ?k))"
      have q: "q \<noteq> 0" using m(2) by auto
      have "thread_attr_revise a k = Some (k', stack_addr (attrs (ks k') a))"
        using a(1) True m(2-4) by (simp add: thread_attr_revise_def Let_def)
      moreover have "spare a k' = spare a k" using m(11) st by (simp add: spare_def)
      ultimately show thesis
        using that[OF _ m(5,10) only_attr_trans[OF only_attr_set(1) m(7)]] adm True m(1,6,8,9,12) q by (auto simp: revise_request_def)
    qed
  qed
qed

text \<open>\<^verbatim>\<open>thread_attr_init\<close> on memory that no thread uses.\<close>

lemma initialised:
  assumes good: "kgood k L" and a: "a \<noteq> 0" "attr_unused a k"
    and adm: "requests_adm ((THREAD_STACK_DEFAULT, GFP_KERNEL OR NR_KMEM_ZERO) # rs) (hp k)"
  obtains (null) k' where "thread_attr_init a k = Some (k', 0)" and "kgood k' L" and "only_attr a k k'" and "hp k' = hp k"
      and "\<not> served ((THREAD_STACK_DEFAULT, GFP_KERNEL OR NR_KMEM_ZERO) # rs) (hp k)"
  | (attr) k' top where "thread_attr_init a k = Some (k', top)" and "top \<noteq> 0" and "kgood k' L" and "only_attr a k k'" and "attr_ok a k'"
      and "spare a k' = sys_live (hp k)" and "stack_addr (attrs (ks k') a) \<noteq> 0" and "requests_adm rs (hp k')"
      and "served ((THREAD_STACK_DEFAULT, GFP_KERNEL OR NR_KMEM_ZERO) # rs) (hp k) = served rs (hp k')"
      and "sys_live (hp k) \<subseteq> sys_live (hp k')"
proof -
  let ?k = "set_attr a (\<lambda>at. at\<lparr>detachstate := 0, inheritsched := 0, schedpolicy := 1\<rparr>) (clear_attr a k)"
  have un: "attr_unused a (clear_attr a k)" "attr_unused a ?k" using a(2) by (simp_all add: attr_unused_def)
  have g: "kgood ?k L" by (rule kgood_set_attr(1)[OF kgood_set_attr(2)[OF good a(2)] un(1)])
  have oa: "only_attr a k ?k" by (rule only_attr_trans[OF only_attr_set(2) only_attr_set(1)])
  have st: "ptr_stack_start (attrs (ks ?k) a) = 0" by (simp add: zero_attr_def)
  have ad: "kmalloc_adm (GFP_KERNEL OR NR_KMEM_ZERO) (hp ?k) THREAD_STACK_DEFAULT" using adm by simp
  show thesis
  proof (rule stack_from_heap[OF g a(1) un(2) st ad])
    fix m assume m: "kmalloc THREAD_STACK_DEFAULT (GFP_KERNEL OR NR_KMEM_ZERO) (hp ?k) = Some (m, 0)"
      "heap_op (kzalloc THREAD_STACK_DEFAULT GFP_KERNEL) ?k = Some (?k\<lparr>km := m\<rparr>, 0)" "hp (?k\<lparr>km := m\<rparr>) = hp ?k" "kgood (?k\<lparr>km := m\<rparr>) L"
    have "thread_attr_init a k = Some (?k\<lparr>km := m\<rparr>, 0)" using a(1) m(2) by (simp add: thread_attr_init_def Let_def get_attr_def)
    moreover have "only_attr a k (?k\<lparr>km := m\<rparr>)" using oa m(3) by (simp add: only_attr_def)
    ultimately show thesis using null m by simp
  next
    fix m q k' assume m: "kmalloc THREAD_STACK_DEFAULT (GFP_KERNEL OR NR_KMEM_ZERO) (hp ?k) = Some (m, q)" "isValid q"
      "heap_op (kzalloc THREAD_STACK_DEFAULT GFP_KERNEL) ?k = Some (?k\<lparr>km := m\<rparr>, q)"
      "thread_set_stack a q q THREAD_STACK_DEFAULT (?k\<lparr>km := m\<rparr>) = Some (k', stack_addr (attrs (ks k') a))" "kgood k' L" "hp k' = m"
      "only_attr a ?k k'"
      "attrs (ks k') a = (attrs (ks ?k) a)\<lparr>ptr_stack_start := q, stack_addr := stack_top q THREAD_STACK_DEFAULT, stacksize := THREAD_STACK_DEFAULT\<rparr>"
      "stack_top q THREAD_STACK_DEFAULT \<noteq> 0" "attr_ok a k'" "spare a k' = sys_live (hp ?k)"
      "\<exists>r\<ge>2056. sys_live m = insert (unat q, r) (sys_live (hp ?k))"
    have q: "q \<noteq> 0" using m(2) by auto
    let ?f = "thread_set_priority THREAD_PROTY_DEFAULT" and ?g = "thread_set_time_slice THREAD_TIME_DEFUALT"
    let ?k1 = "set_attr a ?f k'"
    let ?k2 = "set_attr a ?g ?k1"
    have fg: "stack_addr (?f at) = stack_addr at" "ptr_stack_start (?f at) = ptr_stack_start at"
      "stack_addr (?g at) = stack_addr at" "ptr_stack_start (?g at) = ptr_stack_start at" for at
      by (simp_all add: thread_set_priority_def thread_set_time_slice_def)
    have ok1: "attr_ok a ?k1" and sp1: "spare a ?k1 = spare a k'" by (rule attr_ok_params[OF m(10) fg(1,2)])+
    have ok2: "attr_ok a ?k2" and sp2: "spare a ?k2 = spare a ?k1" by (rule attr_ok_params[OF ok1 fg(3,4)])+
    have g2: "kgood ?k2 L"
      by (rule kgood_set_attr(1)[OF kgood_set_attr(1)[OF m(5)]]) (use m(10) ok1 in \<open>simp_all add: attr_ok_def\<close>)
    have oa2: "only_attr a k ?k2" by (rule only_attr_trans[OF oa only_attr_trans[OF m(7) only_attr_trans[OF only_attr_set(1) only_attr_set(1)]]])
    have top: "stack_addr (attrs (ks ?k2) a) \<noteq> 0" using m(8,9) by (simp add: fg)
    have "thread_attr_init a k = Some (?k2, stack_addr (attrs (ks ?k2) a))"
      using a(1) m(2-4) by (simp add: thread_attr_init_def Let_def get_attr_def)
    then show thesis
      by (rule attr[OF _ top g2 oa2 ok2 _ top]) (use m(1,6,11,12) sp1 sp2 q adm in auto)
  qed
qed

subsection \<open>Identifiers\<close>

definition first_free :: "sched \<Rightarrow> u32 \<Rightarrow> u32 \<Rightarrow> u32 \<Rightarrow> bool" where
  "first_free s i c t \<longleftrightarrow> i \<le> t \<and> t < i + c \<and> tid_array s t = 0 \<and> (\<forall>u. i \<le> u \<and> u < t \<longrightarrow> tid_array s u \<noteq> 0)"

definition none_free :: "sched \<Rightarrow> u32 \<Rightarrow> u32 \<Rightarrow> bool" where
  "none_free s i c \<longleftrightarrow> (\<forall>u. i \<le> u \<and> u < i + c \<longrightarrow> tid_array s u \<noteq> 0)"

lemma unused_tid:
  assumes "b \<le> THREAD_MAX_NUM"
  shows "\<exists>r. unused_tid_from i b s = Some r \<and>
    (case r of None \<Rightarrow> \<forall>u. i \<le> u \<and> u < b \<longrightarrow> tid_array s u \<noteq> 0
     | Some t \<Rightarrow> i \<le> t \<and> t < b \<and> tid_array s t = 0 \<and> (\<forall>u. i \<le> u \<and> u < t \<longrightarrow> tid_array s u \<noteq> 0))"
proof (induction "unat b - unat i" arbitrary: i rule: less_induct)
  case less
  show ?case
  proof (cases "i < b \<and> tid_array s i \<noteq> 0")
    case False
    then show ?thesis using assms
      by (subst unused_tid_from.simps) (auto simp: SCHED_THREAD_HANDLER_def)
  next
    case True
    have u: "unat (i + 1) = unat i + 1" using True u32_less[of b] by (intro trans[OF u32_add]) (simp_all add: word_less_nat_alt)
    have "unat b - unat (i + 1) < unat b - unat i" using True u by (auto simp: word_less_nat_alt)
    note IH = less[OF this]
    have step: "unused_tid_from i b s = unused_tid_from (i + 1) b s"
      using True assms by (subst unused_tid_from.simps) (auto simp: SCHED_THREAD_HANDLER_def)
    have le: "i \<le> v \<longleftrightarrow> v = i \<or> i + 1 \<le> v" for v
      using u by (auto simp: word_le_nat_alt u32_eq_iff)
    show ?thesis unfolding step using IH True by (auto simp: le split: option.splits)
  qed
qed

lemma tid_range_bound:
  assumes "tid_range flags base = (i, c)"
  shows "i + c \<le> THREAD_MAX_NUM" and "i \<le> i + c"
  using assms by (auto simp: tid_range_def Let_def word_le_nat_alt word_less_nat_alt u32_add split: if_splits)

lemma unused_found:
  assumes good: "sched_good s L" and b: "i + c \<le> THREAD_MAX_NUM"
  obtains (full) "get_unused_tid_from_scheduler i c s = Some (s\<lparr>sched_lock := (sched_lock s)\<lparr>flag := 0\<rparr>\<rparr>, - ER_MORE)" and "none_free s i c"
  | (found) t where "get_unused_tid_from_scheduler i c s = Some (s\<lparr>sched_lock := (sched_lock s)\<lparr>flag := 0\<rparr>\<rparr>, sint t)" and "first_free s i c t"
proof -
  obtain d l where lock: "locked_as s d l" using good_lock[OF good] by blast
  let ?s = "s\<lparr>scpu := d, sched_lock := l\<rparr>"
  obtain r where r: "unused_tid_from i (i + c) ?s = Some r"
    "case r of None \<Rightarrow> none_free s i c | Some t \<Rightarrow> first_free s i c t"
    using unused_tid[OF b, of i ?s] by (auto simp: none_free_def first_free_def split: option.splits)
  have u: "unlock_sched ?s = s\<lparr>sched_lock := (sched_lock s)\<lparr>flag := 0\<rparr>\<rparr>" using lock by (simp add: locked_as_def)
  have "get_unused_tid_from_scheduler i c s =
      Some (s\<lparr>sched_lock := (sched_lock s)\<lparr>flag := 0\<rparr>\<rparr>, case r of Some i \<Rightarrow> sint i | None \<Rightarrow> - ER_MORE)"
    using lock r(1) u by (simp add: get_unused_tid_from_scheduler_def locked_as_def)
  then show thesis using full found r(2) by (cases r) auto
qed

subsection \<open>Registering the new thread\<close>

lemma unknown_thread_good:
  assumes "lists_good s L srt" and "\<not> known s p"
  shows "lists_good (set_thr p f s) L srt"
proof (rule lists_good_known[OF assms(1)])
  show "tid (thr (set_thr p f s) q) = tid (thr s q) \<and> sprt_attr (thr (set_thr p f s) q) \<noteq> 0 \<and>
      status (thr (set_thr p f s) q) = status (thr s q)" and "prio (set_thr p f s) q = prio s q" if "known s q" for q
    using that assms(2) by (auto simp: set_thr_def known_def prio_def)
qed (use assms(1) in \<open>simp_all add: set_thr_def lists_good_def\<close>)

text \<open>\<open>new_thread\<close>: what the caller of a successful creation finds.\<close>

definition new_thread :: "ksys \<Rightarrow> ksys \<Rightarrow> u32 \<Rightarrow> u32 \<Rightarrow> u32 \<Rightarrow> u32 \<Rightarrow> u32 \<Rightarrow> bool" where
  "new_thread k k' t p a start ptr \<longleftrightarrow> p \<noteq> 0 \<and> \<not> known (ks k) p \<and> tid_array (ks k') = (tid_array (ks k))(t := p) \<and>
     sprt_work (ks k') = sprt_work (ks k) \<and> (\<forall>q. q \<noteq> p \<longrightarrow> thr (ks k') q = thr (ks k) q) \<and>
     (\<forall>q. known (ks k) q \<longrightarrow> attrs (ks k') (sprt_attr (thr (ks k) q)) = attrs (ks k) (sprt_attr (thr (ks k) q))) \<and>
     (let th = thr (ks k') p in tid th = t \<and> status th = NR_THREAD_READY \<and> start_routine th = start \<and> ptr_args th = ptr \<and> sprt_attr th = a)"

lemma kgood_cpu:
  assumes "kgood k L" and "unat (g_sched_preempt_cnt (f (scpu (ks k)))) + 4 < 2 ^ 32"
  shows "kgood (on_cpu f k) L" and "sys_live (hp (on_cpu f k)) = sys_live (hp k)"
proof -
  have "known ((ks k)\<lparr>scpu := f (scpu (ks k))\<rparr>) = known (ks k)" by (simp add: known_def fun_eq_iff)
  moreover have "sched_wf ((ks k)\<lparr>scpu := f (scpu (ks k))\<rparr>) L"
    by (rule sched_wf_cong[of "ks k"]) (use assms(1) in \<open>simp_all add: kgood_def lists_good_def\<close>)
  moreover have "g_sched_preempt_cnt (f (scpu (ks k))) \<noteq> - 1" by (rule preempt_room(1)[OF assms(2)])
  ultimately show "kgood (on_cpu f k) L"
    using assms by (simp add: kgood_def on_cpu_def lists_good_def sched_idle_lock_def threads_placed_def placed_def hp_def sys_wf_def
        sys_live_def sys_zone_def)
qed (simp add: hp_def on_cpu_def sys_live_def)

lemma thread_made:
  assumes good: "kgood k L" and ok: "attr_ok a k" and pl: "placed (hp k) a" and st: "stack_addr (attrs (ks k) a) \<noteq> 0"
    and t: "t < THREAD_MAX_NUM" "tid_array (ks k) t = 0" and adm: "requests_adm thread_request (hp k)"
  obtains (null) m where "create_thread has_id t given a start ptr k = create_fail3 given a (k\<lparr>km := m\<rparr>)" and "hp (k\<lparr>km := m\<rparr>) = hp k"
      and "kgood (k\<lparr>km := m\<rparr>) L" and "\<not> served thread_request (hp k)"
  | (made) k' p where "create_thread has_id t given a start ptr k =
        Some (on_cpu mrt_preempt_enable k', ER_NORMAL, if has_id then Some t else None)"
      and "served thread_request (hp k)" and "scpu (ks k') = scpu (ks k)" and "attrs (ks k') = attrs (ks k)"
      and "new_thread k k' t p a start ptr" and "kgood k' (L(NR_THREAD_READY := prio_insert (prio (ks k')) p (L NR_THREAD_READY)))"
proof -
  have ad: "kmalloc_adm (GFP_KERNEL OR NR_KMEM_ZERO) (hp k) sizeof_thread" using adm by (simp add: thread_request_def)
  obtain m p where m: "kmalloc sizeof_thread (GFP_KERNEL OR NR_KMEM_ZERO) (hp k) = Some (m, p)"
      "heap_op (kzalloc sizeof_thread GFP_KERNEL) k = Some (k\<lparr>km := m\<rparr>, p)" "hp (k\<lparr>km := m\<rparr>) = m" "kgood (k\<lparr>km := m\<rparr>) L"
      "sys_zone m = sys_zone (hp k)" "mcpu m = scpu (ks k)" "p = 0 \<Longrightarrow> m = hp k"
      "p \<noteq> 0 \<Longrightarrow> isValid p \<and> \<not> placed (hp k) p \<and> (\<exists>r\<ge>unat sizeof_thread. sys_live m = insert (unat p, r) (sys_live (hp k)) \<and>
         (\<forall>x\<in>sys_live (hp k). fst x \<noteq> unat p))"
    using heap_request[OF good, of "GFP_KERNEL OR NR_KMEM_ZERO" sizeof_thread] ad unfolding kzalloc_def by metis
  show thesis
  proof (cases "p = 0")
    case True
    then show thesis using null[of m] m(1-4,7) by (simp add: create_thread_def thread_request_def)
  next
    case False
    obtain r where r: "sys_live m = insert (unat p, r) (sys_live (hp k))" "\<forall>x\<in>sys_live (hp k). fst x \<noteq> unat p"
      and v: "isValid p" using m(8)[OF False] by blast
    have np: "\<not> known (ks k) p" using good r(2) by (fastforce simp: kgood_def threads_placed_def)
    let ?th = "zero_thread\<lparr>tid := t, sprt_attr := a, start_routine := start, ptr_args := ptr\<rparr>"
    let ?s = "set_thr p (\<lambda>_. ?th) (ks k)"
    have sg: "sched_good (ks k) L" using good by (simp add: kgood_def)
    have g: "sched_good ?s L" by (rule unknown_thread_good[OF sg np])
    have fresh: "fresh_thread ?s p t"
      using False ok t known_registered[OF sg, of p] np by (auto simp: fresh_thread_def set_thr_def zero_thread_def attr_ok_def)
    obtain s' nm l where s': "register_new_thread p t ?s = Some (s', ER_NORMAL)" "sprt_work s' = sprt_work ?s"
        "sched_good s' (L(2 := prio_insert (prio ?s) p (L 2)))" "tid_array s' = (tid_array ?s)(t := p)" "scpu s' = scpu ?s"
        "attrs s' = attrs ?s" "\<forall>q. q \<noteq> p \<longrightarrow> thr s' q = thr ?s q"
        "thr s' p = (thr ?s p)\<lparr>tname := nm, tlock := l, status := NR_THREAD_READY, to_status := NR_THREAD_NONE\<rparr>"
      using register_good[OF g fresh] t(2) st by (auto simp: set_thr_def)
    let ?k = "k\<lparr>km := m, ks := s'\<rparr>"
    have run: "create_thread has_id t given a start ptr k =
        Some (on_cpu mrt_preempt_enable ?k, ER_NORMAL, if has_id then Some t else None)"
      using m(2) v s'(1) by (simp add: create_thread_def sched_op_def er_code)
    have new: "new_thread k ?k t p a start ptr"
      using s' np False by (auto simp: new_thread_def set_thr_def Let_def zero_thread_def)
    have kn: "known s' q \<longleftrightarrow> q = p \<or> known (ks k) q" for q
      using known_registered[OF s'(3), of q] known_registered[OF sg, of q] s'(4) t False by (auto simp: set_thr_def)
    have hk: "hp ?k = m" using m(6) s'(5) by (simp add: hp_def set_thr_def)
    have "threads_placed s' m" unfolding threads_placed_def
    proof (intro allI impI)
      fix q assume q: "known s' q"
      show "(\<exists>n. (unat q, n) \<in> sys_live m) \<and> placed m (sprt_attr (thr s' q))"
      proof (cases "q = p")
        case True
        then show ?thesis using r(1) pl m(5) s'(8) by (auto simp: placed_def set_thr_def zero_thread_def)
      next
        case False
        then show ?thesis using q kn good r(1) m(5) s'(7) by (auto simp: placed_def kgood_def threads_placed_def set_thr_def)
      qed
    qed
    moreover have "prio s' = prio ?s"
    proof
      fix q show "prio s' q = prio ?s q" using s'(6-8) by (cases "q = p") (simp_all add: prio_def)
    qed
    ultimately have "kgood ?k (L(2 := prio_insert (prio (ks ?k)) p (L 2)))"
      using s'(3) hk m(3,4) by (simp add: kgood_def)
    then show thesis using made[OF run _ _ _ new] m(1) False s'(5,6) by (simp add: thread_request_def set_thr_def)
  qed
qed

subsection \<open>Creation\<close>

text \<open>Nothing about the threads there were has changed.\<close>

definition threads_kept :: "ksys \<Rightarrow> ksys \<Rightarrow> bool" where
  "threads_kept k k' \<longleftrightarrow> tid_array (ks k') = tid_array (ks k) \<and> sprt_work (ks k') = sprt_work (ks k) \<and> thr (ks k') = thr (ks k) \<and>
     (\<forall>q. known (ks k) q \<longrightarrow> attrs (ks k') (sprt_attr (thr (ks k) q)) = attrs (ks k) (sprt_attr (thr (ks k) q)))"

lemma kept_known: "threads_kept k k' \<Longrightarrow> known (ks k') = known (ks k)"
  by (simp add: threads_kept_def known_def fun_eq_iff)

lemma kept_trans: "threads_kept k k1 \<Longrightarrow> threads_kept k1 k2 \<Longrightarrow> threads_kept k k2"
  using kept_known[of k k1] by (simp add: threads_kept_def)

lemma kept_new: "threads_kept k k1 \<Longrightarrow> new_thread k1 k2 t p a start ptr \<Longrightarrow> new_thread k k2 t p a start ptr"
  using kept_known[of k k1] by (simp add: threads_kept_def new_thread_def)

lemma kept_only_attr: "only_attr a k k' \<Longrightarrow> attr_unused a k \<Longrightarrow> threads_kept k k'"
  using only_attrD[of a k k'] by (auto simp: threads_kept_def attr_unused_def)

text \<open>The way out over \<^verbatim>\<open>fail3\<close>, for the caller's attribute and for one from the heap.\<close>

definition given_or_made :: "u32 \<Rightarrow> u32 \<Rightarrow> ksys \<Rightarrow> bool" where
  "given_or_made given a k \<longleftrightarrow> given = a \<and> isValid a \<or> given = 0 \<and> unowned a k \<and> (\<exists>r. (unat a, r) \<in> spare a k)"

definition left_over :: "u32 \<Rightarrow> u32 \<Rightarrow> ksys \<Rightarrow> (nat \<times> nat) set" where
  "left_over given a k = {x \<in> spare a k. given = 0 \<longrightarrow> fst x \<noteq> unat a}"

lemma fail3_runs:
  assumes good: "kgood k L" and ok: "attr_ok a k" and gm: "given_or_made given a k"
  obtains k' where "create_fail3 given a k = Some (on_cpu mrt_preempt_enable k', - ER_FAULT, None)" and "kgood k' L"
    and "threads_kept k k'" and "scpu (ks k') = scpu (ks k)" and "sys_live (hp k') = left_over given a k"
proof -
  obtain k1 where k1: "thread_attr_destroy a k = Some k1" "kgood k1 L" "sys_live (hp k1) = spare a k" "only_attr a k k1"
    by (rule attr_destroyed[OF good ok]) blast
  have kept: "threads_kept k k1" by (rule kept_only_attr[OF k1(4)]) (use ok in \<open>simp add: attr_ok_def\<close>)
  show thesis
  proof (cases "given = 0")
    case False
    then show thesis using gm k1 kept only_attrD(3)[OF k1(4)]
      by (intro that[of k1]) (auto simp: given_or_made_def left_over_def create_fail3_def create_fail2_def create_fail_def)
  next
    case True
    then obtain r where r: "(unat a, r) \<in> sys_live (hp k1)" "unowned a k1"
      using gm k1(3) only_attrD(6)[OF k1(4), of a] by (auto simp: given_or_made_def)
    obtain m where m: "heap_free a k1 = Some (k1\<lparr>km := m\<rparr>)" "hp (k1\<lparr>km := m\<rparr>) = m" "kgood (k1\<lparr>km := m\<rparr>) L"
        "sys_live m = {x \<in> sys_live (hp k1). fst x \<noteq> unat a}"
      by (rule heap_release[OF k1(2) r]) blast
    have "threads_kept k (k1\<lparr>km := m\<rparr>)" using kept by (simp add: threads_kept_def)
    then show thesis using True m k1 only_attrD(3)[OF k1(4)]
      by (intro that[of "k1\<lparr>km := m\<rparr>"]) (auto simp: left_over_def create_fail3_def create_fail2_def create_fail_def)
  qed
qed

definition created :: "bool \<Rightarrow> u32 \<Rightarrow> u32 \<Rightarrow> u32 \<Rightarrow> u32 \<Rightarrow> (u32 \<Rightarrow> u32 list) \<Rightarrow> ksys \<Rightarrow> ksys \<Rightarrow> int \<Rightarrow> u32 option \<Rightarrow> bool" where
  "created has_id t a start ptr L k k' r out \<longleftrightarrow> r = ER_NORMAL \<and> out = (if has_id then Some t else None) \<and>
     (\<exists>p. new_thread k k' t p a start ptr \<and> kgood k' (L(NR_THREAD_READY := prio_insert (prio (ks k')) p (L NR_THREAD_READY))))"

definition create_failed :: "(u32 \<Rightarrow> u32 list) \<Rightarrow> ksys \<Rightarrow> ksys \<Rightarrow> int \<Rightarrow> u32 option \<Rightarrow> bool" where
  "create_failed L k k' r out \<longleftrightarrow> r = - ER_FAULT \<and> out = None \<and> threads_kept k k' \<and> kgood k' L"

lemma create_with_runs:
  assumes good: "kgood k L" and ok: "attr_ok a k" and pl: "placed (hp k) a" and gm: "given_or_made given a k"
    and t: "t < THREAD_MAX_NUM" "tid_array (ks k) t = 0" and adm: "requests_adm (revise_request (attrs (ks k) a)) (hp k)"
  shows "\<exists>k' r out. create_with has_id t given a start ptr k = Some (on_cpu mrt_preempt_enable k', r, out) \<and> scpu (ks k') = scpu (ks k) \<and>
    (if served (revise_request (attrs (ks k) a)) (hp k) then created has_id t a start ptr L k k' r out
     else create_failed L k k' r out \<and> sys_live (hp k') = left_over given a k)"
proof -
  obtain k1 top where k1: "thread_attr_revise a k = Some (k1, top)" "kgood k1 L" "attr_ok a k1" "only_attr a k k1" "spare a k1 = spare a k"
      "sys_live (hp k) \<subseteq> sys_live (hp k1)"
      "top = 0 \<Longrightarrow> \<not> served (revise_request (attrs (ks k) a)) (hp k)"
      "top \<noteq> 0 \<Longrightarrow> stack_addr (attrs (ks k1) a) \<noteq> 0 \<and> requests_adm thread_request (hp k1) \<and>
         served (revise_request (attrs (ks k) a)) (hp k) = served thread_request (hp k1)"
    using revised[OF good ok adm] by metis
  have kept: "threads_kept k k1" by (rule kept_only_attr[OF k1(4)]) (use ok in \<open>simp add: attr_ok_def\<close>)
  have gm1: "given_or_made given a k1" "left_over given a k1 = left_over given a k"
    using gm k1(5) only_attrD(6)[OF k1(4)] by (auto simp: given_or_made_def left_over_def)
  have failing: ?thesis if run: "create_with has_id t given a start ptr k = create_fail3 given a k2"
      and k2: "kgood k2 L" "attr_ok a k2" "given_or_made given a k2" "left_over given a k2 = left_over given a k" "threads_kept k k2"
        "scpu (ks k2) = scpu (ks k)" "\<not> served (revise_request (attrs (ks k) a)) (hp k)" for k2
  proof -
    obtain k' where "create_fail3 given a k2 = Some (on_cpu mrt_preempt_enable k', - ER_FAULT, None)" "kgood k' L"
        "threads_kept k2 k'" "scpu (ks k') = scpu (ks k2)" "sys_live (hp k') = left_over given a k2"
      by (rule fail3_runs[OF k2(1-3)]) blast
    then show ?thesis using run k2 kept_trans[OF k2(5), of k'] by (auto simp: create_failed_def)
  qed
  have sc: "scpu (ks k1) = scpu (ks k)" by (rule only_attrD(3)[OF k1(4)])
  show ?thesis
  proof (cases "top = 0")
    case True
    then show ?thesis using failing[of k1] k1(1-3,7) gm1 kept sc by (simp add: create_with_def)
  next
    case False
    note f = k1(8)[OF False]
    have pl1: "placed (hp k1) a" using pl only_attrD(8)[OF k1(4)] k1(6) by (auto simp: placed_def)
    have t1: "tid_array (ks k1) t = 0" using t(2) only_attrD(4)[OF k1(4)] by simp
    have run: "create_with has_id t given a start ptr k = create_thread has_id t given a start ptr k1"
      using k1(1) False by (simp add: create_with_def)
    show ?thesis
    proof (rule thread_made[OF k1(2,3) pl1 _ t(1) t1])
      fix m assume m: "create_thread has_id t given a start ptr k1 = create_fail3 given a (k1\<lparr>km := m\<rparr>)" "hp (k1\<lparr>km := m\<rparr>) = hp k1"
        "kgood (k1\<lparr>km := m\<rparr>) L" "\<not> served thread_request (hp k1)"
      show ?thesis
        by (rule failing[of "k1\<lparr>km := m\<rparr>"])
           (use run m f k1(3) gm1 kept sc in \<open>simp_all add: attr_ok_def given_or_made_def left_over_def spare_def threads_kept_def unowned_def attr_unused_def\<close>)
    next
      fix k' p assume n: "create_thread has_id t given a start ptr k1 = Some (on_cpu mrt_preempt_enable k', ER_NORMAL, if has_id then Some t else None)"
        "served thread_request (hp k1)" "scpu (ks k') = scpu (ks k1)" "new_thread k1 k' t p a start ptr"
        "kgood k' (L(NR_THREAD_READY := prio_insert (prio (ks k')) p (L NR_THREAD_READY)))"
      then have "created has_id t a start ptr L k k' ER_NORMAL (if has_id then Some t else None)"
        using kept_new[OF kept n(4)] unfolding created_def by blast
      then show ?thesis using run f sc n(1-3) by (intro exI[of _ k'] exI[of _ ER_NORMAL] exI) auto
    qed (use f in simp_all)
  qed
qed

text \<open>Raising and lowering the preemption count around all of it.\<close>

lemma outcome_cpu:
  assumes "unat (g_sched_preempt_cnt (f (scpu (ks k')))) + 4 < 2 ^ 32" and "threads_kept k k0"
  shows "created has_id t a start ptr L k0 k' r out \<Longrightarrow> created has_id t a start ptr L k (on_cpu f k') r out"
    and "create_failed L k0 k' r out \<Longrightarrow> create_failed L k (on_cpu f k') r out"
proof -
  have "prio (ks (on_cpu f k')) = prio (ks k')" by (simp add: on_cpu_def prio_def fun_eq_iff)
  moreover have "new_thread k (on_cpu f k') t p a start ptr" if "new_thread k0 k' t p a start ptr" for p
    using kept_new[OF assms(2) that] by (simp add: new_thread_def on_cpu_def)
  ultimately show "created has_id t a start ptr L k (on_cpu f k') r out" if "created has_id t a start ptr L k0 k' r out"
    using that kgood_cpu(1)[of k' _ f] assms(1) unfolding created_def by metis
  show "create_failed L k (on_cpu f k') r out" if "create_failed L k0 k' r out"
    using that kgood_cpu(1)[of k' _ f] assms(1) kept_trans[OF assms(2), of k'] by (auto simp: create_failed_def threads_kept_def on_cpu_def)
qed

lemma preempt_cycle: "g_sched_preempt_cnt c \<noteq> - 1 \<Longrightarrow> mrt_preempt_enable (mrt_preempt_disable c) = c"
  by (auto simp: preempt_simps COUNT_INC_def COUNT_DEC_def add_eq_0_iff minus_equation_iff[of _ 1])

text \<open>After the search for an identifier: the same threads and the same heap.\<close>

definition tid_searched :: "ksys \<Rightarrow> ksys" where
  "tid_searched k = (let k = on_cpu mrt_preempt_disable k in k\<lparr>ks := (ks k)\<lparr>sched_lock := (sched_lock (ks k))\<lparr>flag := 0\<rparr>\<rparr>\<rparr>)"

lemma searched:
  assumes good: "kgood k L" and room: "unat (g_sched_preempt_cnt (scpu (ks k))) + 5 < 2 ^ 32"
  shows "kgood (on_cpu mrt_preempt_disable k) L" and "kgood (tid_searched k) L" and "hp (tid_searched k) = hp (on_cpu mrt_preempt_disable k)"
    and "threads_kept k (tid_searched k)" and "sys_live (hp (tid_searched k)) = sys_live (hp k)" and "sys_zone (hp (tid_searched k)) = sys_zone (hp k)"
    and "attrs (ks (tid_searched k)) = attrs (ks k)" and "mrt_preempt_enable (scpu (ks (tid_searched k))) = scpu (ks k)"
    and "unowned p (tid_searched k) = unowned p k" and "attr_unused p (tid_searched k) = attr_unused p k"
proof -
  have c: "unat (g_sched_preempt_cnt (mrt_preempt_disable (scpu (ks k)))) = unat (g_sched_preempt_cnt (scpu (ks k))) + 1"
    using room by (simp add: preempt_simps COUNT_INC_def u32_add)
  show g: "kgood (on_cpu mrt_preempt_disable k) L" by (rule kgood_cpu(1)[OF good]) (use room c in simp)
  show h: "hp (tid_searched k) = hp (on_cpu mrt_preempt_disable k)" by (simp add: tid_searched_def Let_def hp_def)
  show k: "threads_kept k (tid_searched k)" by (simp add: tid_searched_def Let_def threads_kept_def on_cpu_def)
  have "sched_good (ks (tid_searched k)) L"
    by (rule sched_good_cong[of "ks (on_cpu mrt_preempt_disable k)"]) (use g in \<open>simp_all add: kgood_def tid_searched_def Let_def\<close>)
  moreover have "known (ks (on_cpu mrt_preempt_disable k)) = known (ks k)" "thr (ks (on_cpu mrt_preempt_disable k)) = thr (ks k)"
    by (simp_all add: on_cpu_def known_def fun_eq_iff)
  ultimately show "kgood (tid_searched k) L"
    using g h kept_known[OF k] k by (simp add: kgood_def threads_placed_def threads_kept_def)
  show "sys_live (hp (tid_searched k)) = sys_live (hp k)" "sys_zone (hp (tid_searched k)) = sys_zone (hp k)"
    by (simp_all add: sys_live_def sys_zone_def tid_searched_def on_cpu_def Let_def)
  show "attrs (ks (tid_searched k)) = attrs (ks k)" by (simp add: tid_searched_def on_cpu_def Let_def)
  show "mrt_preempt_enable (scpu (ks (tid_searched k))) = scpu (ks k)"
    using preempt_cycle[of "scpu (ks k)"] preempt_room(1)[of "scpu (ks k)"] room by (simp add: tid_searched_def on_cpu_def Let_def)
  show "unowned p (tid_searched k) = unowned p k" "attr_unused p (tid_searched k) = attr_unused p k"
    using unowned_cong[OF kept_known[OF k], of p] k by (simp_all add: threads_kept_def)
qed

lemma small_tid: "t < THREAD_MAX_NUM \<Longrightarrow> 0 \<le> sint t"
  by (simp add: u32_sint word_less_def)

lemma create_finds_tid:
  assumes good: "kgood k L" and room: "unat (g_sched_preempt_cnt (scpu (ks k))) + 5 < 2 ^ 32" and range: "tid_range flags base = (i, c)"
  obtains (full) "none_free (ks k) i c" and "thread_create_base has_id base given start ptr flags k = create_fail (tid_searched k)"
  | (found) t where "first_free (ks k) i c t" and "\<not> none_free (ks k) i c" and "t < THREAD_MAX_NUM" and "tid_array (ks (tid_searched k)) t = 0"
      and "thread_create_base has_id base given start ptr flags k =
        (if given = 0 then do {
           (k, a) \<leftarrow> heap_op (kmalloc sizeof_thread_attr GFP_KERNEL) (tid_searched k);
           if \<not> isValid a then create_fail k
           else do {
             (k, top) \<leftarrow> thread_attr_init a k;
             if top = 0 then create_fail2 given a k else create_with has_id t given a start ptr k
           }
         } else create_with has_id t given given start ptr (tid_searched k))"
proof -
  let ?k = "on_cpu mrt_preempt_disable k"
  have g: "sched_good (ks ?k) L" using searched(1)[OF good room] by (simp add: kgood_def)
  have ta: "tid_array (ks ?k) = tid_array (ks k)" by (simp add: on_cpu_def)
  have ff: "none_free (ks ?k) i c = none_free (ks k) i c" "first_free (ks ?k) i c t = first_free (ks k) i c t" for t
    by (simp_all add: none_free_def first_free_def ta)
  show thesis
  proof (rule unused_found[OF g tid_range_bound(1)[OF range]])
    assume "get_unused_tid_from_scheduler i c (ks ?k) = Some ((ks ?k)\<lparr>sched_lock := (sched_lock (ks ?k))\<lparr>flag := 0\<rparr>\<rparr>, - ER_MORE)"
      "none_free (ks ?k) i c"
    then show thesis using full ff range
      by (simp add: thread_create_base_def Let_def sched_op_def er_code tid_searched_def)
  next
    fix t assume t: "get_unused_tid_from_scheduler i c (ks ?k) = Some ((ks ?k)\<lparr>sched_lock := (sched_lock (ks ?k))\<lparr>flag := 0\<rparr>\<rparr>, sint t)"
      "first_free (ks ?k) i c t"
    have lt: "t < THREAD_MAX_NUM" using t(2) tid_range_bound(1)[OF range] by (auto simp: first_free_def)
    then have "0 \<le> sint t" by (rule small_tid)
    then show thesis using found[of t] t ff lt range ta
      by (simp add: thread_create_base_def Let_def sched_op_def tid_searched_def first_free_def none_free_def cong: if_cong) blast
  qed
qed

lemma kept_refl: "threads_kept k k"
  by (simp add: threads_kept_def)

text \<open>The attribute from the heap.\<close>

lemma made_attr_runs:
  assumes good: "kgood k L" and t: "t < THREAD_MAX_NUM" "tid_array (ks k) t = 0"
    and adm: "requests_adm (create_requests 0 k0) (hp k)"
  shows "\<exists>k' r out.
    do {
      (k, a) \<leftarrow> heap_op (kmalloc sizeof_thread_attr GFP_KERNEL) k;
      if \<not> isValid a then create_fail k
      else do {
        (k, top) \<leftarrow> thread_attr_init a k;
        if top = 0 then create_fail2 0 a k else create_with has_id t 0 a start ptr k
      }
    } = Some (on_cpu mrt_preempt_enable k', r, out) \<and> scpu (ks k') = scpu (ks k) \<and>
    (if served (create_requests 0 k0) (hp k) then \<exists>a. created has_id t a start ptr L k k' r out
     else create_failed L k k' r out \<and> sys_live (hp k') = sys_live (hp k))"
proof -
  let ?rs = "(THREAD_STACK_DEFAULT, GFP_KERNEL OR NR_KMEM_ZERO) # thread_request"
  have rq: "create_requests 0 k0 = (sizeof_thread_attr, GFP_KERNEL) # ?rs" by (simp add: create_requests_def)
  have ad: "kmalloc_adm GFP_KERNEL (hp k) sizeof_thread_attr" using adm by (simp add: rq)
  obtain m a where m: "kmalloc sizeof_thread_attr GFP_KERNEL (hp k) = Some (m, a)"
      "heap_op (kmalloc sizeof_thread_attr GFP_KERNEL) k = Some (k\<lparr>km := m\<rparr>, a)" "hp (k\<lparr>km := m\<rparr>) = m" "kgood (k\<lparr>km := m\<rparr>) L"
      "a = 0 \<Longrightarrow> m = hp k"
      "a \<noteq> 0 \<Longrightarrow> isValid a \<and> \<not> placed (hp k) a \<and> (\<exists>r\<ge>unat sizeof_thread_attr. sys_live m = insert (unat a, r) (sys_live (hp k)) \<and>
         (\<forall>x\<in>sys_live (hp k). fst x \<noteq> unat a))"
    using heap_request[OF good ad] by metis
  let ?k = "k\<lparr>km := m\<rparr>"
  have kept: "threads_kept k ?k" by (simp add: threads_kept_def)
  show ?thesis
  proof (cases "a = 0")
    case True
    then show ?thesis using m kept
      by (intro exI[of _ ?k] exI[of _ "- ER_FAULT"] exI[of _ None]) (simp add: create_fail_def create_failed_def rq hp_km)
  next
    case False
    obtain r where v: "isValid a" and r: "sys_live m = insert (unat a, r) (sys_live (hp k))" "\<forall>x\<in>sys_live (hp k). fst x \<noteq> unat a"
      and un: "unowned a k"
      using m(6)[OF False] good unfolding unowned_def attr_unused_def kgood_def threads_placed_def placed_def by blast
    have unk: "unowned a ?k" "attr_unused a ?k" using un by (simp_all add: unowned_def attr_unused_def)
    have given_back: "{x \<in> sys_live m. fst x \<noteq> unat a} = sys_live (hp k)" unfolding r(1) using r(2) by auto
    have adm1: "requests_adm ?rs (hp ?k)" and sv: "served (create_requests 0 k0) (hp k) = served ?rs (hp ?k)"
      using adm m(1,3) False by (simp_all add: rq)
    show ?thesis
    proof (rule initialised[OF m(4) False unk(2) adm1])
      fix k1 assume k1: "thread_attr_init a ?k = Some (k1, 0)" "kgood k1 L" "only_attr a ?k k1" "hp k1 = hp ?k" "\<not> served ?rs (hp ?k)"
      have l: "(unat a, r) \<in> sys_live (hp k1)" "unowned a k1" using k1(4) m(3) r(1) unk(1) only_attrD(6)[OF k1(3)] by auto
      obtain m2 where m2: "heap_free a k1 = Some (k1\<lparr>km := m2\<rparr>)" "mcpu m2 = scpu (ks k1)" "hp (k1\<lparr>km := m2\<rparr>) = m2" "kgood (k1\<lparr>km := m2\<rparr>) L"
          "sys_live m2 = {x \<in> sys_live (hp k1). fst x \<noteq> unat a}"
        by (rule heap_release[OF k1(2) l]) blast
      have "threads_kept k (k1\<lparr>km := m2\<rparr>)"
        using kept_trans[OF kept kept_only_attr[OF k1(3) unk(2)]] by (simp add: threads_kept_def)
      then show ?thesis using m(2,3) v k1 m2 given_back sv only_attrD(3)[OF k1(3)]
        by (intro exI[of _ "k1\<lparr>km := m2\<rparr>"] exI[of _ "- ER_FAULT"] exI[of _ None])
           (simp add: create_fail2_def create_fail_def create_failed_def hp_km)
    next
      fix k1 top assume k1: "thread_attr_init a ?k = Some (k1, top)" "top \<noteq> 0" "kgood k1 L" "only_attr a ?k k1" "attr_ok a k1"
        "spare a k1 = sys_live (hp ?k)" "stack_addr (attrs (ks k1) a) \<noteq> 0" "requests_adm thread_request (hp k1)"
        "served ?rs (hp ?k) = served thread_request (hp k1)" "sys_live (hp ?k) \<subseteq> sys_live (hp k1)"
      have kept1: "threads_kept k k1" by (rule kept_trans[OF kept kept_only_attr[OF k1(4) unk(2)]])
      have rr: "revise_request (attrs (ks k1) a) = thread_request" using k1(7) by (simp add: revise_request_def)
      have pl: "placed (hp k1) a" using k1(10) m(3) r(1) by (auto simp: placed_def)
      have gm: "given_or_made 0 a k1" using k1(6) m(3) r(1) unk(1) only_attrD(6)[OF k1(4), of a] by (auto simp: given_or_made_def)
      have lo: "left_over 0 a k1 = sys_live (hp k)" using k1(6) m(3) given_back by (simp add: left_over_def)
      have t1: "tid_array (ks k1) t = 0" using kept1 t(2) by (simp add: threads_kept_def)
      obtain k' r out where k': "create_with has_id t 0 a start ptr k1 = Some (on_cpu mrt_preempt_enable k', r, out)" "scpu (ks k') = scpu (ks k1)"
          "if served thread_request (hp k1) then created has_id t a start ptr L k1 k' r out
           else create_failed L k1 k' r out \<and> sys_live (hp k') = left_over 0 a k1"
        using create_with_runs[OF k1(3,5) pl gm t(1) t1] k1(8) unfolding rr by blast
      have "created has_id t a start ptr L k k' r out" if "created has_id t a start ptr L k1 k' r out"
        using that kept_new[OF kept1] unfolding created_def by blast
      moreover have "create_failed L k k' r out" if "create_failed L k1 k' r out"
        using that kept_trans[OF kept1] unfolding create_failed_def by blast
      ultimately show ?thesis using m(2) v k1(1,2,9) k' lo sv only_attrD(3)[OF k1(4)]
        by (intro exI[of _ k'] exI[of _ r] exI[of _ out]) (auto split: if_splits)
    qed
  qed
qed

lemma create_base_runs:
  assumes good: "kgood k L" and room: "unat (g_sched_preempt_cnt (scpu (ks k))) + 5 < 2 ^ 32"
    and given: "given \<noteq> 0 \<Longrightarrow> isValid given \<and> attr_ok given k \<and> placed (hp k) given"
    and adm: "requests_adm (create_requests given k) (hp (on_cpu mrt_preempt_disable k))"
    and range: "tid_range flags base = (i, c)"
  shows "\<exists>k' r out. thread_create_base has_id base given start ptr flags k = Some (k', r, out) \<and>
    (if none_free (ks k) i c \<or> \<not> served (create_requests given k) (hp (on_cpu mrt_preempt_disable k))
     then create_failed L k k' r out \<and> (sys_live (hp k') = sys_live (hp k) \<or> given \<noteq> 0 \<and> sys_live (hp k') = spare given k)
     else \<exists>t a. first_free (ks k) i c t \<and> (given \<noteq> 0 \<longrightarrow> a = given) \<and> created has_id t a start ptr L k k' r out)"
proof -
  let ?k = "tid_searched k" and ?m = "hp (on_cpu mrt_preempt_disable k)"
  note sk = searched[OF good room]
  have enabled: "unat (g_sched_preempt_cnt (mrt_preempt_enable (scpu (ks k')))) + 4 < 2 ^ 32" if "scpu (ks k') = scpu (ks ?k)" for k'
    using sk(8) that room by simp
  have live: "sys_live (hp (on_cpu mrt_preempt_enable k')) = sys_live (hp k')" for k' by (simp add: sys_live_def on_cpu_def)
  show ?thesis
  proof (rule create_finds_tid[OF good room range, of has_id given start ptr])
    assume full: "none_free (ks k) i c" "thread_create_base has_id base given start ptr flags k = create_fail ?k"
    have "create_failed L k (on_cpu mrt_preempt_enable ?k) (- ER_FAULT) None"
      using outcome_cpu(2)[of mrt_preempt_enable ?k k ?k L "- ER_FAULT" None] enabled[of ?k] sk(2,4) kept_refl
      by (simp add: create_failed_def)
    then show ?thesis using full sk(5) live by (auto simp: create_fail_def)
  next
    fix t assume t: "first_free (ks k) i c t" "\<not> none_free (ks k) i c" "t < THREAD_MAX_NUM" "tid_array (ks ?k) t = 0"
      and run: "thread_create_base has_id base given start ptr flags k =
        (if given = 0 then do {
           (k, a) \<leftarrow> heap_op (kmalloc sizeof_thread_attr GFP_KERNEL) ?k;
           if \<not> isValid a then create_fail k
           else do {
             (k, top) \<leftarrow> thread_attr_init a k;
             if top = 0 then create_fail2 given a k else create_with has_id t given a start ptr k
           }
         } else create_with has_id t given given start ptr ?k)"
    have "\<exists>k' r out a. thread_create_base has_id base given start ptr flags k = Some (on_cpu mrt_preempt_enable k', r, out) \<and>
        scpu (ks k') = scpu (ks ?k) \<and>
        (if served (create_requests given k) ?m then (given \<noteq> 0 \<longrightarrow> a = given) \<and> created has_id t a start ptr L ?k k' r out
         else create_failed L ?k k' r out \<and> sys_live (hp k') = (if given = 0 then sys_live (hp k) else spare given k))"
    proof (cases "given = 0")
      case True
      have "requests_adm (create_requests 0 k) (hp ?k)" using adm True sk(3) by simp
      from made_attr_runs[OF sk(2) t(3,4) this, of has_id start ptr] obtain k' r out where
        "thread_create_base has_id base 0 start ptr flags k = Some (on_cpu mrt_preempt_enable k', r, out)" "scpu (ks k') = scpu (ks ?k)"
        "if served (create_requests 0 k) (hp ?k) then \<exists>a. created has_id t a start ptr L ?k k' r out
         else create_failed L ?k k' r out \<and> sys_live (hp k') = sys_live (hp ?k)"
        using run True by auto
      then show ?thesis using True sk(3,5) by (intro exI[of _ k'] exI[of _ r] exI[of _ out]) (auto split: if_splits)
    next
      case False
      have ok: "attr_ok given ?k" "placed (hp ?k) given" "given_or_made given given ?k"
        using given[OF False] sk(5-7,9,10) by (simp_all add: attr_ok_def placed_def given_or_made_def Let_def)
      have lo: "left_over given given ?k = spare given k" using False sk(5,7) by (simp add: left_over_def spare_def)
      have rr: "create_requests given k = revise_request (attrs (ks ?k) given)" using False sk(7) by (simp add: create_requests_def)
      have "requests_adm (revise_request (attrs (ks ?k) given)) (hp ?k)" using adm rr sk(3) by simp
      from create_with_runs[OF sk(2) ok t(3,4) this, of has_id start ptr] obtain k' r out where
        "thread_create_base has_id base given start ptr flags k = Some (on_cpu mrt_preempt_enable k', r, out)" "scpu (ks k') = scpu (ks ?k)"
        "if served (create_requests given k) ?m then created has_id t given start ptr L ?k k' r out
         else create_failed L ?k k' r out \<and> sys_live (hp k') = spare given k"
        using run False rr sk(3) lo by auto
      then show ?thesis using False by (intro exI[of _ k'] exI[of _ r] exI[of _ out] exI[of _ given]) (auto split: if_splits)
    qed
    then obtain k' r out a where k': "thread_create_base has_id base given start ptr flags k = Some (on_cpu mrt_preempt_enable k', r, out)"
        "scpu (ks k') = scpu (ks ?k)"
        "if served (create_requests given k) ?m then (given \<noteq> 0 \<longrightarrow> a = given) \<and> created has_id t a start ptr L ?k k' r out
         else create_failed L ?k k' r out \<and> sys_live (hp k') = (if given = 0 then sys_live (hp k) else spare given k)" by blast
    note up = outcome_cpu[OF _ sk(4), of mrt_preempt_enable k', OF enabled[OF k'(2)]]
    show ?thesis
    proof (cases "served (create_requests given k) ?m")
      case True
      then have "created has_id t a start ptr L k (on_cpu mrt_preempt_enable k') r out" "given \<noteq> 0 \<longrightarrow> a = given" using k'(3) up(1) by auto
      then show ?thesis using k'(1) t(1,2) True by auto
    next
      case False
      then show ?thesis using k'(1,3) t(2) up(2) live by auto
    qed
  qed
qed

subsection \<open>Properties\<close>

text \<open>C35: Creating a thread, with admissible requests to the heap, returns. When an identifier of the range is free and the heap serves the
  requests, the least free identifier is taken and the new thread stands in the ready list behind
  the threads of its priority; otherwise the result is an error, every thread is as it was, and no
  region of the heap has been lost: at most the dynamic stack of the caller's attribute is released.\<close>

theorem thread_create_outcome:
  assumes "kgood k L" and "unat (g_sched_preempt_cnt (scpu (ks k))) + 5 < 2 ^ 32"
    and "given \<noteq> 0 \<Longrightarrow> isValid given \<and> attr_ok given k \<and> placed (hp k) given"
    and "requests_adm (create_requests given k) (hp (on_cpu mrt_preempt_disable k))"
    and "tid_range flags base = (i, c)"
  shows "\<exists>k' r out. thread_create_base has_id base given start ptr flags k = Some (k', r, out) \<and>
    (if none_free (ks k) i c \<or> \<not> served (create_requests given k) (hp (on_cpu mrt_preempt_disable k))
     then create_failed L k k' r out \<and> (sys_live (hp k') = sys_live (hp k) \<or> given \<noteq> 0 \<and> sys_live (hp k') = spare given k)
     else \<exists>t a. first_free (ks k) i c t \<and> (given \<noteq> 0 \<longrightarrow> a = given) \<and> created has_id t a start ptr L k k' r out)"
  using create_base_runs[OF assms] by blast

text \<open>C36: An attribute that \<^verbatim>\<open>thread_attr_init\<close> has set up is well formed: it has a priority and a time slice,
  its stack is a region of the heap, and the register frame at its top is aligned to 8 bytes, lies inside that
  region with room below it, and is where \<^verbatim>\<open>thread_get_context\<close> looks for it.\<close>

theorem thread_attr_init_typed:
  assumes "kgood k L" and "a \<noteq> 0" and "attr_unused a k"
    and "kmalloc_adm (GFP_KERNEL OR NR_KMEM_ZERO) (hp k) THREAD_STACK_DEFAULT"
    and "thread_attr_init a k = Some (k', sp)" and "sp \<noteq> 0"
  shows "let at = attrs (ks k') a; base = unat (ptr_stack_start at) in
    thread_get_priority at = THREAD_PROTY_DEFAULT \<and> sched_priority at = THREAD_PROTY_DEFAULT \<and>
    thread_get_sched_msecs at = THREAD_TIME_DEFUALT \<and> stack_addr at = sp \<and> 8 dvd unat sp \<and> thread_get_context at = sp \<and>
    (\<exists>r. (base, r) \<in> sys_live (hp k') \<and> base + 400 < unat sp \<and> unat sp + unat sizeof_context_regs \<le> base + r)"
proof -
  let ?k = "set_attr a (\<lambda>at. at\<lparr>detachstate := 0, inheritsched := 0, schedpolicy := 1\<rparr>) (clear_attr a k)"
  have un: "attr_unused a (clear_attr a k)" "attr_unused a ?k" using assms(3) by (simp_all add: attr_unused_def)
  have g: "kgood ?k L" by (rule kgood_set_attr(1)[OF kgood_set_attr(2)[OF assms(1,3)] un(1)])
  have st: "ptr_stack_start (attrs (ks ?k) a) = 0" by (simp add: zero_attr_def)
  have ad: "kmalloc_adm (GFP_KERNEL OR NR_KMEM_ZERO) (hp ?k) THREAD_STACK_DEFAULT" using assms(4) by simp
  show ?thesis
  proof (rule stack_from_heap[OF g assms(2) un(2) st ad])
    fix m assume "heap_op (kzalloc THREAD_STACK_DEFAULT GFP_KERNEL) ?k = Some (?k\<lparr>km := m\<rparr>, 0)"
    then have False using assms(2,5,6) by (auto simp: thread_attr_init_def Let_def get_attr_def)
    then show ?thesis ..
  next
    fix m q k1 assume m: "isValid q" "heap_op (kzalloc THREAD_STACK_DEFAULT GFP_KERNEL) ?k = Some (?k\<lparr>km := m\<rparr>, q)"
      "thread_set_stack a q q THREAD_STACK_DEFAULT (?k\<lparr>km := m\<rparr>) = Some (k1, stack_addr (attrs (ks k1) a))" "kgood k1 L" "hp k1 = m"
      "attrs (ks k1) a = (attrs (ks ?k) a)\<lparr>ptr_stack_start := q, stack_addr := stack_top q THREAD_STACK_DEFAULT, stacksize := THREAD_STACK_DEFAULT\<rparr>"
      "\<exists>r\<ge>2056. sys_live m = insert (unat q, r) (sys_live (hp ?k))"
    obtain r where r: "2056 \<le> r" "(unat q, r) \<in> sys_live m" using m(7) by auto
    have "unat q + unat THREAD_STACK_DEFAULT < 4294967296" "512 \<le> unat THREAD_STACK_DEFAULT"
      using live_zone(2)[OF _ r(2)] r(1) m(4,5) by (auto simp: kgood_def THREAD_STACK_DEFAULT_def)
    note inside = stack_top_inside[OF this]
    have k': "k' = set_attr a (thread_set_time_slice THREAD_TIME_DEFUALT) (set_attr a (thread_set_priority THREAD_PROTY_DEFAULT) k1)"
      "sp = stack_top q THREAD_STACK_DEFAULT"
      using m(1-3,6) assms(2,5) by (auto simp: thread_attr_init_def Let_def get_attr_def thread_set_time_slice_def thread_set_priority_def)
    have at: "attrs (ks k') a = thread_set_time_slice THREAD_TIME_DEFUALT (thread_set_priority THREAD_PROTY_DEFAULT (attrs (ks k1) a))"
      by (simp add: k')
    have "(unat q, r) \<in> sys_live (hp k')" using r(2) m(5) by (simp add: k')
    moreover have "unat q + unat THREAD_STACK_DEFAULT \<le> unat q + r" using r(1) by (simp add: THREAD_STACK_DEFAULT_def)
    ultimately show ?thesis
      using inside(1-3) inside(5)[of "attrs (ks k') a"] unfolding Let_def at m(6) k'(2)
      by (auto simp: thread_set_time_slice_def thread_set_priority_def thread_get_priority_def thread_get_sched_msecs_def
          time_spec_msecs THREAD_TIME_DEFUALT_def THREAD_PROTY_DEFAULT_def sizeof_context_regs_def thread_get_context_def)
  qed
qed

text \<open>C37: \<^verbatim>\<open>kernel_thread_create\<close> with an identifier outside the range of kernel threads answers with that
  identifier, although the thread it has created is registered under another one and the identifier names
  whatever it named before.\<close>

theorem kernel_tid_mismatch:
  assumes "kgood k L" and "unat (g_sched_preempt_cnt (scpu (ks k))) + 5 < 2 ^ 32"
    and "given \<noteq> 0 \<Longrightarrow> isValid given \<and> attr_ok given k \<and> placed (hp k) given"
    and "requests_adm (create_requests given k) (hp (on_cpu mrt_preempt_disable k))"
    and "served (create_requests given k) (hp (on_cpu mrt_preempt_disable k))"
    and "THREAD_TID_START \<le> t" and "0 \<le> sint t" and "tid_array (ks k) u = 0" and "u < THREAD_TID_START"
  shows "\<exists>k' v. kernel_thread_create t given start ptr k = Some (k', sint t) \<and> v < THREAD_TID_START \<and>
           tid_array (ks k) v = 0 \<and> tid_array (ks k') v \<noteq> 0 \<and> tid_array (ks k') t = tid_array (ks k) t"
proof -
  have range: "tid_range 0 t = (0, THREAD_TID_START)"
    using assms(6) by (auto simp: tid_range_def THREAD_USER_def)
  have nf: "\<not> none_free (ks k) 0 THREAD_TID_START" using assms(8,9) by (auto simp: none_free_def)
  obtain k' r out v a where k': "thread_create_base False t given start ptr 0 k = Some (k', r, out)" "first_free (ks k) 0 THREAD_TID_START v"
      "created False v a start ptr L k k' r out"
    using create_base_runs[OF assms(1-4) range, of False start ptr] assms(5) nf by (simp only: simp_thms if_False) blast
  have "v \<noteq> t" using k'(2) assms(6) by (auto simp: first_free_def)
  then show ?thesis
    using k' assms(7) by (auto simp: kernel_thread_create_def kernel_thread_create_base_def created_def new_thread_def er_code first_free_def)
qed

subsection \<open>Witnesses\<close>

definition demo_kernel :: ksys where
  "demo_kernel = \<lparr>ks = demo_boot\<lparr>attrs := (\<lambda>_. demo_attr\<lparr>ptr_stack_start := 0\<rparr>)\<rparr>, km = heap_with block0, tpool = (\<lambda>_. demo_info)\<rparr>"

lemma demo_unknown: "\<not> known (ks demo_kernel) p"
  by (auto simp: known_def demo_kernel_def demo_boot_def)

lemma demo_hp: "hp demo_kernel = heap_with block0"
  by (simp add: hp_def demo_kernel_def heap_with_def demo_boot_def demo_sched_def)

lemma demo_kgood: "kgood demo_kernel (\<lambda>_. [])"
proof -
  have "sched_start (ks demo_kernel)" using demo_boot_start by (simp add: demo_kernel_def sched_start_def sched_idle_lock_def)
  then show ?thesis using sched_start_good heap0_wf demo_unknown by (simp add: kgood_def threads_placed_def demo_hp)
qed

lemma demo_cpu: "scpu (ks demo_kernel) = \<lparr>g_sched_preempt_cnt = 0, cpsr = 0x13\<rparr>"
  by (simp add: demo_kernel_def demo_boot_def demo_sched_def)

lemma hash_index_thread: "hash_index_down 120 13 = Some 6" "hash_index_down 3976 13 = Some 11"
  by code_simp+

lemma demo_thread_block: "\<exists>info. alloc_spare_memory block0 84 = Some (info, 8224)"
  by (simp add: block0_def alloc_spare_memory_def mem_eval demo_info_def memory_block_attach_def class_eval
      hash_index_values hash_index_thread link_eval one_entry_def fun_eq_iff memory_block_get_avaliable_def get_avaliable_in_def
      get_avaliable_up.simps memory_block_detach_def)

lemma demo_requests:
  assumes "a \<noteq> 0"
  shows "requests_adm (create_requests a demo_kernel) (hp (on_cpu mrt_preempt_disable demo_kernel))"
    and "served (create_requests a demo_kernel) (hp (on_cpu mrt_preempt_disable demo_kernel))"
proof -
  have r: "create_requests a demo_kernel = [(84, GFP_KERNEL OR NR_KMEM_ZERO)]"
    using assms by (simp add: create_requests_def revise_request_def thread_request_def demo_kernel_def demo_attr_def sizeof_thread_def)
  have m: "hp (on_cpu mrt_preempt_disable demo_kernel) = (heap_with block0)\<lparr>mcpu := \<lparr>g_sched_preempt_cnt = 1, cpsr = 0x13\<rparr>\<rparr>"
    by (simp add: hp_def on_cpu_def demo_cpu preempt_simps COUNT_INC_def) (simp add: demo_kernel_def)
  have adm: "block_adm block0 84"
    by (simp add: block_adm_def request_fits_def block0_def search_eval hash_index_thread)
  show "requests_adm (create_requests a demo_kernel) (hp (on_cpu mrt_preempt_disable demo_kernel))" unfolding r m
    using adm by (simp add: kmalloc_adm_def heap_with_def demo_pool_def gfp_eval kind_adm_def block0_alloc_fn split: option.splits)
  obtain info where "alloc_spare_memory block0 84 = Some (info, 8224)" using demo_thread_block by blast
  then show "served (create_requests a demo_kernel) (hp (on_cpu mrt_preempt_disable demo_kernel))" unfolding r m
    by (simp add: kmalloc_def heap_with_def demo_pool_def gfp_eval spin_is_locked_def spin_lock_irqsave_def spin_lock_def
        spin_unlock_irqrestore_def spin_unlock_def atomic_simps preempt_simps mrt_disable_cpu_irq_def mrt_enable_cpu_irq_def
        CPSR_BIT_I_def Let_def info_alloc_def isValid_iff block0_alloc_fn)
qed

lemma demo_given: "isValid 0x10 \<and> attr_ok 0x10 demo_kernel \<and> placed (hp demo_kernel) 0x10"
proof -
  have "unat (0x10 :: u32) \<notin> sys_zone (heap_with block0)"
    by (auto simp: sys_zone_def heap_with_def demo_pool_def pool_arena_def demo_info_def block0_def nth_Cons split: nat.splits)
  then show ?thesis
    using demo_unknown by (simp add: isValid_iff attr_ok_def attr_unused_def placed_def demo_hp) (simp add: demo_kernel_def demo_attr_def)
qed

theorem thread_create_outcome_witness:
  "\<exists>k' p. thread_create_base True (- 1) 0x10 0x8000 0 THREAD_USER demo_kernel = Some (k', ER_NORMAL, Some 32) \<and>
     new_thread demo_kernel k' 32 p 0x10 0x8000 0 \<and> kgood k' ((\<lambda>_. [])(2 := [p]))"
proof -
  have range: "tid_range THREAD_USER (- 1) = (32, 96)" 
    by (simp add: tid_range_def THREAD_USER_def word_le_nat_alt word_less_nat_alt unsigned_minus_1_eq_mask mask_eq_exp_minus_1)
  have free: "tid_array (ks demo_kernel) t = 0" for t by (simp add: demo_kernel_def demo_boot_def)
  have nf: "\<not> none_free (ks demo_kernel) 32 96" by (auto simp: none_free_def free intro!: exI[of _ 32])
  have ff: "t = 32" if "first_free (ks demo_kernel) 32 96 t" for t using that free by (fastforce simp: first_free_def)
  show ?thesis
    using thread_create_outcome[OF demo_kgood _ _ demo_requests(1) range, of "0x10" True "0x8000" 0] demo_given demo_requests(2)[of "0x10"] nf ff
    by (fastforce simp: demo_cpu created_def)
qed

lemma hash_index_stack: "hash_index_down 2088 13 = Some 11" "hash_index_down 2008 13 = Some 10"
  by code_simp+

lemma demo_stack_block: "\<exists>info. alloc_spare_memory block0 2056 = Some (info, 8224)"
  by (simp add: block0_def alloc_spare_memory_def mem_eval demo_info_def memory_block_attach_def class_eval
      hash_index_values hash_index_stack link_eval one_entry_def fun_eq_iff memory_block_get_avaliable_def get_avaliable_in_def
      get_avaliable_up.simps memory_block_detach_def)

theorem thread_attr_init_typed_witness:
  "\<exists>k' top. thread_attr_init 0x20 demo_kernel = Some (k', top) \<and> 8 dvd unat top \<and> thread_get_priority (attrs (ks k') 0x20) = 80"
proof -
  have b: "block_adm block0 2056"
    by (simp add: block_adm_def request_fits_def block0_def search_eval hash_index_stack)
  then have adm: "kmalloc_adm (GFP_KERNEL OR NR_KMEM_ZERO) (hp demo_kernel) THREAD_STACK_DEFAULT"
    by (simp add: demo_hp kmalloc_adm_def heap_with_def demo_pool_def gfp_eval kind_adm_def block0_alloc_fn THREAD_STACK_DEFAULT_def)
  obtain info where "alloc_spare_memory block0 2056 = Some (info, 8224)" using demo_stack_block by blast
  then have sv: "served [(THREAD_STACK_DEFAULT, GFP_KERNEL OR NR_KMEM_ZERO)] (hp demo_kernel)"
    by (simp add: demo_hp kmalloc_def heap_with_def demo_pool_def gfp_eval spin_is_locked_def spin_lock_irqsave_def spin_lock_def
        spin_unlock_irqrestore_def spin_unlock_def atomic_simps preempt_simps mrt_disable_cpu_irq_def mrt_enable_cpu_irq_def
        CPSR_BIT_I_def Let_def info_alloc_def isValid_iff block0_alloc_fn THREAD_STACK_DEFAULT_def)
  have un: "attr_unused 0x20 demo_kernel" using demo_unknown by (simp add: attr_unused_def)
  have rq: "requests_adm [(THREAD_STACK_DEFAULT, GFP_KERNEL OR NR_KMEM_ZERO)] (hp demo_kernel)" using adm by (simp split: option.splits)
  obtain k' top where k': "thread_attr_init 0x20 demo_kernel = Some (k', top)" "top \<noteq> 0"
    by (rule initialised[OF demo_kgood _ un rq]) (use sv in \<open>simp del: served.simps\<close>)+
  then show ?thesis using thread_attr_init_typed[OF demo_kgood _ un adm k'] by (auto simp: Let_def THREAD_PROTY_DEFAULT_def)
qed

theorem kernel_tid_mismatch_witness:
  "\<exists>k' v. kernel_thread_create 40 0x10 0x8000 0 demo_kernel = Some (k', 40) \<and> v < 32 \<and> tid_array (ks k') v \<noteq> 0 \<and> tid_array (ks k') 40 = 0"
proof -
  have free: "tid_array (ks demo_kernel) t = 0" for t by (simp add: demo_kernel_def demo_boot_def)
  show ?thesis
    using kernel_tid_mismatch[OF demo_kgood _ _ demo_requests, of "0x10" 40 0 "0x8000" 0] demo_given free by (auto simp: demo_cpu)
qed

end
