(* ===== verification/Spec2Isabelle.thy ===== *)
theory Spec2Isabelle
  imports Mempool Socket Time Fmt Sched_Run Queue Sleep Thread_Create
begin

text \<open>header\<close>

end
